(* ===== verification/Prelude.thy ===== *)
theory Prelude
  imports Main "HOL-Library.Word"
begin

text \<open>
  Shared vocabulary of the development: bytes and machine words, network byte order, the
  conversions between \<open>std::string\<close> contents and bytes, the error codes of asio that the
  sources test, substring search, and the contracts several components share.

  Conventions. A byte buffer with its length (\<open>std::vector<uint8_t>\<close>, a pointer with a size,
  a \<open>shared_ptr<uint8_t[]>\<close> with a length) is a \<open>byte list\<close>. A \<open>std::string\<close> is a HOL
  \<open>string\<close>, one \<open>char\<close> per byte. Integers of a fixed width that reach the wire are words of
  that width. A \<open>size_t\<close> that only counts elements of a container is a \<open>nat\<close>; where the code
  subtracts two of them without a guard, the wrap-around modulo \<open>2 ^ 64\<close> is written out
  (\<open>sub64\<close>).
\<close>

unbundle bit_operations_syntax

named_theorems codec_simps "big-endian encoders and decoders"
named_theorems wire_defs "definitions of wire formats, unfolded when a concrete message is evaluated"

type_synonym byte = "8 word"
type_synonym bytes = "byte list"

subsection \<open>Network byte order\<close>

text \<open>
  \<open>host_to_network_short/long\<close> followed by a \<open>memcpy\<close> of the result writes the most
  significant byte first, on every host.
\<close>

definition be16 :: "16 word \<Rightarrow> bytes" where
  "be16 v = [ucast (drop_bit 8 v), ucast v]"

definition be32 :: "32 word \<Rightarrow> bytes" where
  "be32 v = [ucast (drop_bit 24 v), ucast (drop_bit 16 v), ucast (drop_bit 8 v), ucast v]"

fun of_be16 :: "bytes \<Rightarrow> 16 word" where
  "of_be16 [a, b] = push_bit 8 (ucast a) OR ucast b"
| "of_be16 _ = 0"

fun of_be32 :: "bytes \<Rightarrow> 32 word" where
  "of_be32 [a, b, c, d] =
     push_bit 24 (ucast a) OR push_bit 16 (ucast b) OR push_bit 8 (ucast c) OR ucast d"
| "of_be32 _ = 0"

lemma length_be16 [simp]: "length (be16 v) = 2"
  by (simp add: be16_def)

lemma length_be32 [simp]: "length (be32 v) = 4"
  by (simp add: be32_def)

lemma of_be16_be16 [simp, codec_simps]: "of_be16 (be16 v) = v"
  by (rule bit_word_eqI) (auto simp: be16_def bit_simps)

lemma of_be32_be32 [simp, codec_simps]: "of_be32 (be32 v) = v"
proof (rule bit_word_eqI)
  fix n
  assume "n < LENGTH(32)"
  consider "n < 8" | "8 \<le> n" "n < 16" | "16 \<le> n" "n < 24" | "24 \<le> n" by linarith
  then show "bit (of_be32 (be32 v)) n = bit v n"
    using \<open>n < LENGTH(32)\<close> by cases (auto simp: be32_def bit_simps)
qed

lemma be16_inject [simp]: "be16 v = be16 w \<longleftrightarrow> v = w"
  by (metis of_be16_be16)

lemma be32_inject [simp]: "be32 v = be32 w \<longleftrightarrow> v = w"
  by (metis of_be32_be32)

lemma be16_ne_Nil [simp]: "be16 v \<noteq> []"
  by (simp add: be16_def)

lemma be32_ne_Nil [simp]: "be32 v \<noteq> []"
  by (simp add: be32_def)

lemma take_be16_append [simp]: "take 2 (be16 v @ xs) = be16 v"
  by simp

lemma take_be32_append [simp]: "take 4 (be32 v @ xs) = be32 v"
  by simp

subsection \<open>Characters and bytes\<close>

definition byte_of_char :: "char \<Rightarrow> byte" where
  "byte_of_char c = word_of_nat (of_char c)"

definition char_of_byte :: "byte \<Rightarrow> char" where
  "char_of_byte b = char_of (unat b)"

definition bytes_of_string :: "string \<Rightarrow> bytes" where
  "bytes_of_string s = map byte_of_char s"

definition string_of_bytes :: "bytes \<Rightarrow> string" where
  "string_of_bytes bs = map char_of_byte bs"

lemma char_of_byte_of_char [simp]: "char_of_byte (byte_of_char c) = c"
  by (simp add: char_of_byte_def byte_of_char_def unat_of_nat take_bit_eq_mod)

lemma byte_of_char_of_byte [simp]: "byte_of_char (char_of_byte b) = b"
proof -
  have "unat b < 2 ^ LENGTH(8)" by (rule unsigned_less)
  then have "unat b < 256" by simp
  then show ?thesis by (simp add: char_of_byte_def byte_of_char_def)
qed

lemma string_of_bytes_of_string [simp]: "string_of_bytes (bytes_of_string s) = s"
  by (simp add: string_of_bytes_def bytes_of_string_def comp_def)

lemma bytes_of_string_of_bytes [simp]: "bytes_of_string (string_of_bytes bs) = bs"
  by (simp add: string_of_bytes_def bytes_of_string_def comp_def)

lemma length_bytes_of_string [simp]: "length (bytes_of_string s) = length s"
  by (simp add: bytes_of_string_def)

lemma length_string_of_bytes [simp]: "length (string_of_bytes bs) = length bs"
  by (simp add: string_of_bytes_def)

lemma bytes_of_string_append [simp]:
  "bytes_of_string (s @ t) = bytes_of_string s @ bytes_of_string t"
  by (simp add: bytes_of_string_def)

lemma bytes_of_string_eq_Nil [simp]: "bytes_of_string s = [] \<longleftrightarrow> s = []"
  by (simp add: bytes_of_string_def)

subsection \<open>Sizes\<close>

definition sub64 :: "nat \<Rightarrow> nat \<Rightarrow> nat" where
  "sub64 a b = (if b \<le> a then a - b else 2 ^ 64 + a - b)"

lemma sub64_le [simp]: "b \<le> a \<Longrightarrow> sub64 a b = a - b"
  by (simp add: sub64_def)

lemma unat_word32: "n < 2 ^ 32 \<Longrightarrow> unat (word_of_nat n :: 32 word) = n"
  by (simp add: unat_of_nat take_bit_eq_mod)

lemma unat_word16: "n < 2 ^ 16 \<Longrightarrow> unat (word_of_nat n :: 16 word) = n"
  by (simp add: unat_of_nat take_bit_eq_mod)

subsection \<open>Error codes\<close>

text \<open>
  The values of \<open>std::error_code\<close> that the sources create or compare with; every other
  system error is \<open>Other_error\<close>. \<open>Success\<close> is the default-constructed code, the one
  that converts to false.
\<close>

datatype error_code =
    Success
  | Eof
  | Operation_aborted
  | Connection_reset
  | Connection_refused
  | No_buffer_space
  | Access_denied
  | Invalid_argument
  | Message_size
  | Would_block
  | Try_again
  | Other_error nat

subsection \<open>Searching strings\<close>

text \<open>
  \<open>find_sub pat s\<close> is \<open>s.find(pat)\<close> with \<open>npos\<close> as \<open>None\<close>, and
  \<open>find_sub_from pat s pos\<close> is \<open>s.find(pat, pos)\<close>. The two trimming idioms of the sources,
  \<open>s.erase(0, s.find_first_not_of(cs))\<close> and \<open>s.erase(s.find_last_not_of(cs) + 1)\<close>, erase the
  whole string when every character is in \<open>cs\<close>: \<open>npos\<close> is the largest \<open>size_t\<close>, and
  \<open>npos + 1\<close> is 0.
\<close>

fun is_prefix :: "'a list \<Rightarrow> 'a list \<Rightarrow> bool" where
  "is_prefix [] ys = True"
| "is_prefix (x # xs) [] = False"
| "is_prefix (x # xs) (y # ys) = (x = y \<and> is_prefix xs ys)"

fun find_sub :: "'a list \<Rightarrow> 'a list \<Rightarrow> nat option" where
  "find_sub pat [] = (if pat = [] then Some 0 else None)"
| "find_sub pat (x # xs) =
     (if is_prefix pat (x # xs) then Some 0 else map_option Suc (find_sub pat xs))"

definition find_sub_from :: "'a list \<Rightarrow> 'a list \<Rightarrow> nat \<Rightarrow> nat option" where
  "find_sub_from pat s pos =
     (if length s < pos then None else map_option (\<lambda>i. pos + i) (find_sub pat (drop pos s)))"

definition trim_left :: "string \<Rightarrow> string \<Rightarrow> string" where
  "trim_left cs s = dropWhile (\<lambda>c. c \<in> set cs) s"

definition trim_right :: "string \<Rightarrow> string \<Rightarrow> string" where
  "trim_right cs s = rev (dropWhile (\<lambda>c. c \<in> set cs) (rev s))"

lemma is_prefix_iff: "is_prefix xs ys \<longleftrightarrow> (\<exists>zs. ys = xs @ zs)"
  by (induction xs ys rule: is_prefix.induct) auto

lemma is_prefix_append [simp]: "is_prefix xs (xs @ ys)"
  by (auto simp: is_prefix_iff)

lemma find_sub_Some:
  "find_sub pat s = Some i \<Longrightarrow> i \<le> length s \<and> is_prefix pat (drop i s)"
  by (induction pat s arbitrary: i rule: find_sub.induct) (auto split: if_splits)

lemma find_sub_occurs: "find_sub pat (xs @ pat @ ys) \<noteq> None"
  by (induction xs) (cases pat; simp; cases ys; simp)+

lemma find_sub_le:
  "\<lbrakk>is_prefix pat (drop j s); j \<le> length s\<rbrakk> \<Longrightarrow> \<exists>k\<le>j. find_sub pat s = Some k"
proof (induction pat s arbitrary: j rule: find_sub.induct)
  case (1 pat)
  then show ?case by (cases pat) auto
next
  case (2 pat x xs)
  show ?case
  proof (cases "is_prefix pat (x # xs)")
    case False
    then obtain i where j: "j = Suc i" using "2.prems" by (cases j) auto
    with "2.IH" [OF False, of i] "2.prems" False show ?thesis by auto
  qed simp
qed

lemma find_sub_skip:
  "p \<notin> set xs \<Longrightarrow> find_sub (p # pat) (xs @ ys) = map_option (\<lambda>i. length xs + i) (find_sub (p # pat) ys)"
  by (cases "find_sub (p # pat) ys"; induction xs) auto

lemma find_sub_first:
  assumes "p \<notin> set xs"
  shows "find_sub (p # pat) (xs @ p # pat @ ys) = Some (length xs)"
  using find_sub_skip [OF assms, of pat "p # pat @ ys"] by simp

text \<open>A pattern that first ends a text does not occur in a shorter prefix of the text.\<close>

lemma find_sub_proper_prefix:
  assumes "find_sub pat (p @ x) = Some i" and "i + length pat = length (p @ x)" and "x \<noteq> []"
  shows "find_sub pat p = None"
proof (rule ccontr)
  assume "find_sub pat p \<noteq> None"
  then obtain j where j: "find_sub pat p = Some j" by auto
  then have pre: "j \<le> length p" "is_prefix pat (drop j p)" by (auto dest: find_sub_Some)
  then obtain zs where zs: "drop j p = pat @ zs" by (auto simp: is_prefix_iff)
  with pre(1) have "is_prefix pat (drop j (p @ x))" by (simp add: is_prefix_iff)
  with pre(1) assms(1) have "i \<le> j" using find_sub_le [of pat j "p @ x"] by auto
  moreover have "j + length pat \<le> length p" using arg_cong [OF zs, of length] pre(1) by simp
  ultimately show False using assms(2,3) by (cases x) auto
qed

lemma find_sub_None_iff: "find_sub pat s = None \<longleftrightarrow> (\<forall>xs ys. s \<noteq> xs @ pat @ ys)"
proof
  assume "\<forall>xs ys. s \<noteq> xs @ pat @ ys"
  show "find_sub pat s = None"
  proof (rule ccontr)
    assume "find_sub pat s \<noteq> None"
    then obtain i where "find_sub pat s = Some i" by auto
    then have "is_prefix pat (drop i s)" by (auto dest: find_sub_Some)
    then obtain ys where "drop i s = pat @ ys" by (auto simp: is_prefix_iff)
    then have "s = take i s @ pat @ ys" by (metis append_take_drop_id)
    with \<open>\<forall>xs ys. s \<noteq> xs @ pat @ ys\<close> show False by blast
  qed
next
  assume "find_sub pat s = None"
  then show "\<forall>xs ys. s \<noteq> xs @ pat @ ys" by (metis find_sub_occurs)
qed

lemma trim_right_append_blank:
  "\<lbrakk>set bl \<subseteq> set cs; s = [] \<or> last s \<notin> set cs\<rbrakk> \<Longrightarrow> trim_right cs (s @ bl) = s"
proof -
  assume a: "set bl \<subseteq> set cs" and b: "s = [] \<or> last s \<notin> set cs"
  have "dropWhile (\<lambda>c. c \<in> set cs) (rev bl @ rev s) = dropWhile (\<lambda>c. c \<in> set cs) (rev s)"
    using a by (intro dropWhile_append2) auto
  also have "\<dots> = rev s"
    using b by (cases s rule: rev_cases) auto
  finally show ?thesis by (simp add: trim_right_def)
qed

end
