(* ===== verification/Interfaces.thy ===== *)
theory Interfaces
  imports Prelude
begin

text \<open>
  The contracts between components, as locales.
  \<^item> \<open>framing\<close>: a wire format whose frames can be written one after the other and cut apart
    again by a reader that consumes one frame at a time. The mux frames, the packets of the
    bridges, the control messages and the WebSocket frames provide it.
  \<^item> \<open>codec\<close>: a message body with \<open>Serialize\<close> and \<open>Deserialize\<close>.
  \<^item> \<open>byte_source\<close>: the read side of \<open>AsyncStream\<close>: what successive reads deliver is the
    unread byte sequence, in order, without loss or duplication.
  \<^item> \<open>exact_reader\<close>: a stream whose \<open>async_read\<close> returns the next bytes asked for, or waits.
  \<^item> \<open>stoppable\<close>: an object with a one-shot stop operation.
\<close>

subsection \<open>Frames on a byte stream\<close>

text \<open>
  \<open>parse_stream dec bs\<close> takes frames off \<open>bs\<close> as long as \<open>dec\<close> finds a complete one; it
  returns the frames and the bytes left over.
\<close>

function parse_stream :: "(bytes \<Rightarrow> ('f \<times> bytes) option) \<Rightarrow> bytes \<Rightarrow> 'f list \<times> bytes" where
  "parse_stream dec bs =
     (case dec bs of
        None \<Rightarrow> ([], bs)
      | Some (f, rest) \<Rightarrow>
          if length rest < length bs
          then (case parse_stream dec rest of (fs, r) \<Rightarrow> (f # fs, r))
          else ([], bs))"
  by pat_completeness auto
termination
  by (relation "measure (\<lambda>(dec, bs). length bs)") auto

declare parse_stream.simps [simp del]

locale framing =
  fixes enc :: "'f \<Rightarrow> bytes"
    and dec :: "bytes \<Rightarrow> ('f \<times> bytes) option"
    and ok :: "'f \<Rightarrow> bool"
  assumes enc_nonempty: "ok f \<Longrightarrow> enc f \<noteq> []"
    and dec_enc: "ok f \<Longrightarrow> dec (enc f @ rest) = Some (f, rest)"
begin

lemma parse_one:
  "ok f \<Longrightarrow> parse_stream dec (enc f @ rest) =
     (case parse_stream dec rest of (fs, r) \<Rightarrow> (f # fs, r))"
  using enc_nonempty [of f]
  by (subst parse_stream.simps) (simp add: dec_enc)

lemma parse_frames:
  assumes "list_all ok fs" and "dec r = None"
  shows "parse_stream dec (concat (map enc fs) @ r) = (fs, r)"
  using assms
proof (induction fs)
  case Nil
  then show ?case by (subst parse_stream.simps) simp
next
  case (Cons f fs)
  then show ?case by (simp add: parse_one)
qed

lemma enc_prefix_free:
  assumes "ok f" and "ok g" and "enc f @ r = enc g @ s"
  shows "f = g \<and> r = s"
proof -
  have "Some (f, r) = Some (g, s)"
    unfolding dec_enc [OF assms(1), of r, symmetric] dec_enc [OF assms(2), of s, symmetric]
    by (rule arg_cong [OF assms(3)])
  then show ?thesis by simp
qed

lemma enc_stream_inject:
  assumes "list_all ok fs" and "list_all ok gs" and "concat (map enc fs) = concat (map enc gs)"
  shows "fs = gs"
  using assms
proof (induction fs arbitrary: gs)
  case Nil
  then show ?case by (cases gs) (auto simp: enc_nonempty)
next
  case (Cons f fs)
  from Cons.prems(1) have "enc f \<noteq> []" by (simp add: enc_nonempty)
  with Cons.prems(3) obtain g gs' where gs: "gs = g # gs'"
    by (cases gs) auto
  have "f = g \<and> concat (map enc fs) = concat (map enc gs')"
    by (rule enc_prefix_free) (use Cons.prems gs in auto)
  with Cons gs show ?case by simp
qed

end

subsection \<open>Message bodies\<close>

locale codec =
  fixes ser :: "'m \<Rightarrow> bytes"
    and deser :: "bytes \<Rightarrow> 'e + 'm"
    and ok :: "'m \<Rightarrow> bool"
  assumes deser_ser: "ok m \<Longrightarrow> deser (ser m @ trailing) = Inr m"
begin

lemma roundtrip: "ok m \<Longrightarrow> deser (ser m) = Inr m"
  using deser_ser [of m "[]"] by simp

lemma ser_inject: "ok m \<Longrightarrow> ok n \<Longrightarrow> ser m = ser n \<Longrightarrow> m = n"
  by (metis roundtrip sum.inject(2))

end

subsection \<open>The read side of a stream\<close>

text \<open>
  \<open>rd s n\<close> serves one read with a buffer of \<open>n\<close> bytes from what the stream already holds, and
  \<open>unread s\<close> is what it holds.
\<close>

fun read_many :: "('s \<Rightarrow> nat \<Rightarrow> bytes \<times> 's) \<Rightarrow> 's \<Rightarrow> nat list \<Rightarrow> bytes list \<times> 's" where
  "read_many rd s [] = ([], s)"
| "read_many rd s (n # ns) =
     (case rd s n of (d, s') \<Rightarrow> case read_many rd s' ns of (ds, t) \<Rightarrow> (d # ds, t))"

locale byte_source =
  fixes unread :: "'s \<Rightarrow> bytes"
    and inv :: "'s \<Rightarrow> bool"
    and rd :: "'s \<Rightarrow> nat \<Rightarrow> bytes \<times> 's"
  assumes rd_inv: "inv s \<Longrightarrow> inv (snd (rd s n))"
    and rd_split: "inv s \<Longrightarrow> unread s = fst (rd s n) @ unread (snd (rd s n))"
    and rd_length: "inv s \<Longrightarrow> length (fst (rd s n)) \<le> n"
    and rd_progress: "inv s \<Longrightarrow> 0 < n \<Longrightarrow> unread s \<noteq> [] \<Longrightarrow> fst (rd s n) \<noteq> []"
begin

lemma read_many_inv: "inv s \<Longrightarrow> inv (snd (read_many rd s ns))"
proof (induction ns arbitrary: s)
  case Nil
  then show ?case by simp
next
  case (Cons n ns)
  then show ?case
    using rd_inv [OF Cons.prems, of n] by (auto split: prod.splits) (metis snd_conv)
qed

lemma read_many_in_order:
  "inv s \<Longrightarrow> concat (fst (read_many rd s ns)) @ unread (snd (read_many rd s ns)) = unread s"
proof (induction ns arbitrary: s)
  case Nil
  then show ?case by simp
next
  case (Cons n ns)
  obtain d s' where d: "rd s n = (d, s')" by force
  obtain ds t where ds: "read_many rd s' ns = (ds, t)" by force
  have "inv s'" using rd_inv [OF Cons.prems, of n] d by simp
  then have "concat ds @ unread t = unread s'" using Cons.IH [of s'] ds by simp
  with rd_split [OF Cons.prems, of n] d ds show ?case by simp
qed

lemma read_many_all:
  assumes "inv s" and "list_all (\<lambda>n. 0 < n) ns" and "length (unread s) \<le> length ns"
  shows "concat (fst (read_many rd s ns)) = unread s"
  using assms
proof (induction ns arbitrary: s)
  case Nil
  then show ?case by simp
next
  case (Cons n ns)
  obtain d s' where d: "rd s n = (d, s')" by force
  obtain ds t where ds: "read_many rd s' ns = (ds, t)" by force
  have inv: "inv s'" using rd_inv [OF Cons.prems(1), of n] d by simp
  have split: "unread s = d @ unread s'" using rd_split [OF Cons.prems(1), of n] d by simp
  have "unread s \<noteq> [] \<longrightarrow> d \<noteq> []"
    using rd_progress [OF Cons.prems(1), of n] Cons.prems(2) d by simp
  then have "length (unread s') \<le> length ns"
    using split Cons.prems(3) by (cases d) auto
  then have "concat ds = unread s'" using Cons.IH [OF inv] Cons.prems(2) ds by simp
  with split d ds show ?case by simp
qed

end

subsection \<open>Exact reads\<close>

text \<open>
  \<open>rdx s n\<close> is an \<open>async_read\<close> for \<open>n\<close> bytes: \<open>None\<close> while it waits for more input. A stream
  that hands out the next \<open>n\<close> unread bytes whenever it holds them is as good as the byte
  sequence \<open>unread s\<close>.
\<close>

locale exact_reader =
  fixes unread :: "'s \<Rightarrow> bytes"
    and inv :: "'s \<Rightarrow> bool"
    and rdx :: "'s \<Rightarrow> nat \<Rightarrow> (bytes \<times> 's) option"
  assumes rdx_enough: "inv s \<Longrightarrow> 0 < n \<Longrightarrow> n \<le> length (unread s) \<Longrightarrow>
      \<exists>t. rdx s n = Some (take n (unread s), t) \<and> inv t \<and> unread t = drop n (unread s)"
    and rdx_short: "inv s \<Longrightarrow> length (unread s) < n \<Longrightarrow> rdx s n = None"

subsection \<open>One-shot stop\<close>

text \<open>
  Sessions and bridges stop once: the first call releases what the object holds, every later
  call leaves it as it is and emits nothing.
\<close>

locale stoppable =
  fixes stopped :: "'s \<Rightarrow> bool"
    and stop :: "'s \<Rightarrow> 's \<times> 'o list"
  assumes stop_stops: "stopped (fst (stop s))"
    and stop_stopped: "stopped s \<Longrightarrow> stop s = (s, [])"
begin

lemma stop_idem: "stop (fst (stop s)) = (fst (stop s), [])"
  by (rule stop_stopped) (rule stop_stops)

fun stop_times :: "nat \<Rightarrow> 's \<Rightarrow> 's \<times> 'o list" where
  "stop_times 0 s = (s, [])"
| "stop_times (Suc n) s =
     (case stop s of (s', o1) \<Rightarrow> case stop_times n s' of (s'', o2) \<Rightarrow> (s'', o1 @ o2))"

lemma stop_times_stopped: "stopped s \<Longrightarrow> stop_times n s = (s, [])"
  by (induction n) (auto simp: stop_stopped)

lemma stop_times_once: "stop_times (Suc n) s = stop s"
  using stop_stops [of s] by (cases "stop s") (simp add: stop_times_stopped)

end

end
