(* ===== verification/Protocol.thy ===== *)
theory Protocol
  imports Interfaces
begin

text \<open>
  \<open>src/common/protocol.h\<close>: the binary writer and reader, the typed envelope \<open>Message\<close> and the
  six message bodies of the control channel.

  \<open>BinaryWriter\<close> only appends, so a \<open>Write*\<close> method is the byte list it appends and a
  \<open>Serialize\<close> method is the concatenation, in order. \<open>BinaryReader\<close> is a data vector and a
  position; a \<open>Read*\<close> method takes both and returns the value and the new position, or the
  exception it throws. \<open>reads r bs v\<close> says that the reader \<open>r\<close>, placed anywhere in a vector
  just before \<open>bs\<close>, returns \<open>v\<close> and stops just after \<open>bs\<close>; it composes along \<open>rbind\<close>.
\<close>

section \<open>Constants and the message types\<close>

definition COMPRESSION_FLAG :: "32 word" where "COMPRESSION_FLAG = 0x80000000"
definition LENGTH_MASK :: "32 word" where "LENGTH_MASK = 0x7FFFFFFF"
definition MAX_MESSAGE_SIZE :: nat where "MAX_MESSAGE_SIZE = 1024 * 1024"
definition MAX_CONTROL_MESSAGE_SIZE :: nat where "MAX_CONTROL_MESSAGE_SIZE = 4 * 1024 * 1024"
definition MAX_DECOMPRESSED_SIZE :: nat where "MAX_DECOMPRESSED_SIZE = 16 * 1024 * 1024"

lemmas size_limits = MAX_MESSAGE_SIZE_def MAX_CONTROL_MESSAGE_SIZE_def MAX_DECOMPRESSED_SIZE_def

text \<open>
  \<open>MessageType\<close> has the underlying type \<open>uint8_t\<close>, and \<open>Message::Decode\<close> casts any byte to it:
  a byte without an enumerator is a value of its own.
\<close>

datatype MessageType =
    Login | LoginResp | RegisterProxy | RegisterProxyResp
  | NewUserConn | StartWorkConn | WorkConnAuth | UnregisterProxy
  | Other_type byte

fun byte_of_type :: "MessageType \<Rightarrow> byte" where
  "byte_of_type Login = 0"
| "byte_of_type LoginResp = 1"
| "byte_of_type RegisterProxy = 2"
| "byte_of_type RegisterProxyResp = 3"
| "byte_of_type NewUserConn = 4"
| "byte_of_type StartWorkConn = 5"
| "byte_of_type WorkConnAuth = 6"
| "byte_of_type UnregisterProxy = 7"
| "byte_of_type (Other_type b) = b"

definition type_of_byte :: "byte \<Rightarrow> MessageType" where
  "type_of_byte b =
     (if b = 0 then Login else if b = 1 then LoginResp
      else if b = 2 then RegisterProxy else if b = 3 then RegisterProxyResp
      else if b = 4 then NewUserConn else if b = 5 then StartWorkConn
      else if b = 6 then WorkConnAuth else if b = 7 then UnregisterProxy
      else Other_type b)"

section \<open>BinaryWriter\<close>

definition WriteUint8 :: "byte \<Rightarrow> bytes" where
  "WriteUint8 v = [v]"

definition WriteUint16 :: "16 word \<Rightarrow> bytes" where
  "WriteUint16 v = be16 v"

definition WriteUint32 :: "32 word \<Rightarrow> bytes" where
  "WriteUint32 v = be32 v"

definition WriteInt64 :: "64 word \<Rightarrow> bytes" where
  "WriteInt64 v = be32 (ucast (drop_bit 32 v AND 0xFFFFFFFF)) @ be32 (ucast (v AND 0xFFFFFFFF))"

definition WriteString :: "string \<Rightarrow> bytes" where
  "WriteString s = WriteUint16 (word_of_nat (length s)) @ bytes_of_string s"

definition WriteStringVector :: "string list \<Rightarrow> bytes" where
  "WriteStringVector v = WriteUint16 (word_of_nat (length v)) @ concat (map WriteString v)"

section \<open>BinaryReader\<close>

datatype exn = Buffer_overflow | Out_of_range | Empty_message

type_synonym 'a reader = "bytes \<Rightarrow> nat \<Rightarrow> exn + ('a \<times> nat)"

definition rbind :: "'a reader \<Rightarrow> ('a \<Rightarrow> 'b reader) \<Rightarrow> 'b reader" where
  "rbind r f data pos = (case r data pos of Inl e \<Rightarrow> Inl e | Inr (a, p) \<Rightarrow> f a data p)"

definition rreturn :: "'a \<Rightarrow> 'a reader" where
  "rreturn a data pos = Inr (a, pos)"

definition ReadBytes :: "nat \<Rightarrow> bytes reader" where
  "ReadBytes len data pos =
     (if length data < pos + len then Inl Buffer_overflow
      else Inr (take len (drop pos data), pos + len))"

definition ReadUint8 :: "byte reader" where
  "ReadUint8 data pos = (if pos < length data then Inr (data ! pos, pos + 1) else Inl Out_of_range)"

definition ReadUint16 :: "16 word reader" where
  "ReadUint16 = rbind (ReadBytes 2) (\<lambda>bs. rreturn (of_be16 bs))"

definition ReadUint32 :: "32 word reader" where
  "ReadUint32 = rbind (ReadBytes 4) (\<lambda>bs. rreturn (of_be32 bs))"

definition ReadInt64 :: "64 word reader" where
  "ReadInt64 =
     rbind ReadUint32 (\<lambda>high.
     rbind ReadUint32 (\<lambda>low.
     rreturn (push_bit 32 (ucast high) OR ucast low)))"

definition ReadString :: "string reader" where
  "ReadString =
     rbind ReadUint16 (\<lambda>len data pos.
       if length data < pos + unat len then Inl Buffer_overflow
       else Inr (string_of_bytes (take (unat len) (drop pos data)), pos + unat len))"

fun ReadStrings :: "nat \<Rightarrow> string list reader" where
  "ReadStrings 0 = rreturn []"
| "ReadStrings (Suc n) = rbind ReadString (\<lambda>s. rbind (ReadStrings n) (\<lambda>v. rreturn (s # v)))"

definition ReadStringVector :: "string list reader" where
  "ReadStringVector = rbind ReadUint16 (\<lambda>count. ReadStrings (unat count))"

definition run_reader :: "'a reader \<Rightarrow> bytes \<Rightarrow> exn + 'a" where
  "run_reader r data = (case r data 0 of Inl e \<Rightarrow> Inl e | Inr (a, p) \<Rightarrow> Inr a)"

section \<open>The envelope\<close>

record Message =
  msg_type :: MessageType
  msg_body :: bytes

definition Message_Encode :: "Message \<Rightarrow> bytes" where
  "Message_Encode m = byte_of_type (msg_type m) # msg_body m"

definition Message_Decode :: "bytes \<Rightarrow> exn + Message" where
  "Message_Decode data =
     (case data of
        [] \<Rightarrow> Inl Empty_message
      | b # body \<Rightarrow> Inr \<lparr>msg_type = type_of_byte b, msg_body = body\<rparr>)"

section \<open>The message bodies\<close>

record LoginMessage =
  lm_token :: string
  lm_name :: string

definition LoginMessage_Serialize :: "LoginMessage \<Rightarrow> bytes" where
  "LoginMessage_Serialize m = WriteString (lm_token m) @ WriteString (lm_name m)"

definition LoginMessage_Deserialize :: "bytes \<Rightarrow> exn + LoginMessage" where
  "LoginMessage_Deserialize = run_reader
     (rbind ReadString (\<lambda>t. rbind ReadString (\<lambda>n. rreturn \<lparr>lm_token = t, lm_name = n\<rparr>)))"

text \<open>\<open>LoginRespMessage\<close> and \<open>RegisterProxyRespMessage\<close> have the same three fields.\<close>

record LoginRespMessage =
  lr_status :: string
  lr_name :: string
  lr_message :: string

definition LoginRespMessage_Serialize :: "LoginRespMessage \<Rightarrow> bytes" where
  "LoginRespMessage_Serialize m =
     WriteString (lr_status m) @ WriteString (lr_name m) @ WriteString (lr_message m)"

definition LoginRespMessage_Deserialize :: "bytes \<Rightarrow> exn + LoginRespMessage" where
  "LoginRespMessage_Deserialize = run_reader
     (rbind ReadString (\<lambda>s. rbind ReadString (\<lambda>n. rbind ReadString (\<lambda>t.
        rreturn \<lparr>lr_status = s, lr_name = n, lr_message = t\<rparr>))))"

record RegisterProxyMessage =
  rp_name :: string
  rp_type :: string
  rp_remote_port :: "16 word"
  rp_custom_domains :: "string list"
  rp_bandwidth_limit :: "64 word"

definition RegisterProxyMessage_Serialize :: "RegisterProxyMessage \<Rightarrow> bytes" where
  "RegisterProxyMessage_Serialize m =
     WriteString (rp_name m) @ WriteString (rp_type m) @ WriteUint16 (rp_remote_port m) @
     WriteStringVector (rp_custom_domains m) @ WriteInt64 (rp_bandwidth_limit m)"

definition RegisterProxyMessage_Deserialize :: "bytes \<Rightarrow> exn + RegisterProxyMessage" where
  "RegisterProxyMessage_Deserialize = run_reader
     (rbind ReadString (\<lambda>n. rbind ReadString (\<lambda>t. rbind ReadUint16 (\<lambda>p.
      rbind ReadStringVector (\<lambda>d. rbind ReadInt64 (\<lambda>b.
        rreturn \<lparr>rp_name = n, rp_type = t, rp_remote_port = p, rp_custom_domains = d,
                 rp_bandwidth_limit = b\<rparr>))))))"

record RegisterProxyRespMessage =
  rr_status :: string
  rr_name :: string
  rr_message :: string

definition RegisterProxyRespMessage_Serialize :: "RegisterProxyRespMessage \<Rightarrow> bytes" where
  "RegisterProxyRespMessage_Serialize m =
     WriteString (rr_status m) @ WriteString (rr_name m) @ WriteString (rr_message m)"

definition RegisterProxyRespMessage_Deserialize :: "bytes \<Rightarrow> exn + RegisterProxyRespMessage" where
  "RegisterProxyRespMessage_Deserialize = run_reader
     (rbind ReadString (\<lambda>s. rbind ReadString (\<lambda>n. rbind ReadString (\<lambda>t.
        rreturn \<lparr>rr_status = s, rr_name = n, rr_message = t\<rparr>))))"

record NewUserConnMessage =
  nu_proxy_name :: string
  nu_ticket :: string

definition NewUserConnMessage_Serialize :: "NewUserConnMessage \<Rightarrow> bytes" where
  "NewUserConnMessage_Serialize m = WriteString (nu_proxy_name m) @ WriteString (nu_ticket m)"

definition NewUserConnMessage_Deserialize :: "bytes \<Rightarrow> exn + NewUserConnMessage" where
  "NewUserConnMessage_Deserialize = run_reader
     (rbind ReadString (\<lambda>p. rbind ReadString (\<lambda>t. rreturn \<lparr>nu_proxy_name = p, nu_ticket = t\<rparr>)))"

record UnregisterProxyMessage =
  up_name :: string

definition UnregisterProxyMessage_Serialize :: "UnregisterProxyMessage \<Rightarrow> bytes" where
  "UnregisterProxyMessage_Serialize m = WriteString (up_name m)"

definition UnregisterProxyMessage_Deserialize :: "bytes \<Rightarrow> exn + UnregisterProxyMessage" where
  "UnregisterProxyMessage_Deserialize = run_reader
     (rbind ReadString (\<lambda>n. rreturn \<lparr>up_name = n\<rparr>))"

section \<open>Reader lemmas\<close>

definition reads :: "'a reader \<Rightarrow> bytes \<Rightarrow> 'a \<Rightarrow> bool" where
  "reads r bs v \<longleftrightarrow> (\<forall>pre post. r (pre @ bs @ post) (length pre) = Inr (v, length pre + length bs))"

named_theorems reads_intros "what each reader reads"

lemma reads_bind [reads_intros]:
  assumes "reads r bs v" and "reads (f v) cs w"
  shows "reads (rbind r f) (bs @ cs) w"
  unfolding reads_def
proof (intro allI)
  fix pre post
  have "r (pre @ bs @ cs @ post) (length pre) = Inr (v, length pre + length bs)"
    using assms(1) unfolding reads_def by blast
  moreover have "f v ((pre @ bs) @ cs @ post) (length (pre @ bs)) =
      Inr (w, length (pre @ bs) + length cs)"
    using assms(2) unfolding reads_def by blast
  ultimately show "rbind r f (pre @ (bs @ cs) @ post) (length pre) =
      Inr (w, length pre + length (bs @ cs))"
    by (simp add: rbind_def add.assoc)
qed

lemma reads_return: "reads (rreturn v) [] v"
  by (simp add: reads_def rreturn_def)

lemma reads_bind_return:
  assumes "reads r bs v" and "w = g v"
  shows "reads (rbind r (\<lambda>x. rreturn (g x))) bs w"
  using reads_bind [OF assms(1), of "\<lambda>x. rreturn (g x)" "[]" "g v"]
  by (simp add: reads_return assms(2))

lemma reads_ReadBytes: "length bs = n \<Longrightarrow> reads (ReadBytes n) bs bs"
  by (auto simp: reads_def ReadBytes_def)

lemma reads_ReadUint8 [reads_intros]: "reads ReadUint8 (WriteUint8 v) v"
  by (simp add: reads_def ReadUint8_def WriteUint8_def nth_append)

lemma reads_ReadUint16 [reads_intros]: "reads ReadUint16 (WriteUint16 v) v"
  using reads_bind_return [OF reads_ReadBytes [of "be16 v" 2], of v of_be16]
  by (simp add: ReadUint16_def WriteUint16_def)

lemma reads_ReadUint32 [reads_intros]: "reads ReadUint32 (WriteUint32 v) v"
  using reads_bind_return [OF reads_ReadBytes [of "be32 v" 4], of v of_be32]
  by (simp add: ReadUint32_def WriteUint32_def)

lemma int64_halves:
  "push_bit 32 (ucast (ucast (drop_bit 32 v AND 0xFFFFFFFF) :: 32 word)) OR
   ucast (ucast (v AND 0xFFFFFFFF) :: 32 word) = (v :: 64 word)"
proof (rule bit_word_eqI)
  fix n
  assume n: "n < LENGTH(64)"
  have mask: "(0xFFFFFFFF :: 64 word) = mask 32"
    by (simp add: mask_eq_exp_minus_1)
  show "bit (push_bit 32 (ucast (ucast (drop_bit 32 v AND 0xFFFFFFFF) :: 32 word)) OR
      ucast (ucast (v AND 0xFFFFFFFF) :: 32 word) :: 64 word) n = bit v n"
    using n unfolding mask by (cases "n < 32") (auto simp: bit_simps)
qed

lemma reads_ReadInt64 [reads_intros]: "reads ReadInt64 (WriteInt64 v) v"
proof -
  let ?h = "ucast (drop_bit 32 v AND 0xFFFFFFFF) :: 32 word"
  let ?l = "ucast (v AND 0xFFFFFFFF) :: 32 word"
  have low: "reads (rbind ReadUint32 (\<lambda>low. rreturn (push_bit 32 (ucast ?h) OR ucast low)))
      (WriteUint32 ?l) (push_bit 32 (ucast ?h) OR ucast ?l)"
    by (rule reads_bind_return [OF reads_ReadUint32]) simp
  have "reads ReadInt64 (WriteUint32 ?h @ WriteUint32 ?l) (push_bit 32 (ucast ?h) OR ucast ?l)"
    unfolding ReadInt64_def by (rule reads_bind [where v = ?h]) (rule reads_ReadUint32, rule low)
  then show ?thesis by (simp add: WriteInt64_def WriteUint32_def int64_halves)
qed

text \<open>
  What \<open>ReadString\<close> returns after \<open>WriteString\<close>, for strings of any length: the length field
  holds the length modulo \<open>2 ^ 16\<close>, so a longer string comes back cut.
\<close>

lemma ReadString_after_WriteString:
  "ReadString (pre @ WriteString s @ post) (length pre) =
     Inr (take (length s mod 65536) s, length pre + 2 + length s mod 65536)"
proof -
  let ?n = "length s mod 65536"
  have n: "unat (word_of_nat (length s) :: 16 word) = ?n"
    by (simp add: unat_of_nat take_bit_eq_mod)
  have "ReadUint16 (pre @ WriteString s @ post) (length pre) =
      Inr (word_of_nat (length s), length pre + 2)"
    using reads_ReadUint16 [of "word_of_nat (length s)"]
    unfolding reads_def WriteString_def
    by (simp add: WriteUint16_def)
  moreover have "drop (length pre + 2) (pre @ WriteString s @ post) = bytes_of_string s @ post"
    by (simp add: WriteString_def WriteUint16_def)
  moreover have "\<not> length (pre @ WriteString s @ post) < length pre + 2 + ?n"
    using mod_less_eq_dividend [of "length s" 65536]
    by (simp add: WriteString_def WriteUint16_def)
  moreover have "string_of_bytes (take ?n (bytes_of_string s @ post)) = take ?n s"
    using mod_less_eq_dividend [of "length s" 65536]
    by (simp add: take_map string_of_bytes_def bytes_of_string_def comp_def)
  ultimately show ?thesis
    unfolding ReadString_def rbind_def by (simp add: n)
qed

lemma reads_ReadString [reads_intros]:
  "length s < 65536 \<Longrightarrow> reads ReadString (WriteString s) s"
  by (simp add: reads_def ReadString_after_WriteString)
     (simp add: WriteString_def WriteUint16_def)

lemma reads_ReadStrings:
  "list_all (\<lambda>s. length s < 65536) v \<Longrightarrow>
   reads (ReadStrings (length v)) (concat (map WriteString v)) v"
proof (induction v)
  case Nil
  then show ?case by (simp add: reads_return)
next
  case (Cons s v)
  then have "reads (rbind (ReadStrings (length v)) (\<lambda>v. rreturn (s # v)))
      (concat (map WriteString v)) (s # v)"
    by (intro reads_bind_return [where v = v]) simp_all
  with Cons.prems show ?case by (simp add: reads_bind [OF reads_ReadString])
qed

lemma reads_ReadStringVector [reads_intros]:
  assumes "list_all (\<lambda>s. length s < 65536) v" and "length v < 65536"
  shows "reads ReadStringVector (WriteStringVector v) v"
proof -
  have "unat (word_of_nat (length v) :: 16 word) = length v"
    using assms(2) by (simp add: unat_of_nat take_bit_eq_mod)
  with reads_ReadStrings [OF assms(1)] show ?thesis
    unfolding ReadStringVector_def WriteStringVector_def
    by (intro reads_bind [OF reads_ReadUint16]) simp
qed

lemma run_reader_reads: "reads r bs v \<Longrightarrow> run_reader r (bs @ trailing) = Inr v"
  unfolding reads_def run_reader_def
  by (metis (no_types, lifting) append_Nil list.size(3) case_prod_conv sum.case(2))

subsection \<open>Readers stay inside the buffer\<close>

text \<open>
  \<open>stays r\<close>: whatever the bytes, a read that starts inside the vector ends inside it, never
  before where it started, or throws.
\<close>

definition stays :: "'a reader \<Rightarrow> bool" where
  "stays r \<longleftrightarrow> (\<forall>data pos a p. pos \<le> length data \<longrightarrow> r data pos = Inr (a, p) \<longrightarrow>
     pos \<le> p \<and> p \<le> length data)"

named_theorems stays_intros "readers that stay inside the buffer"

lemma stays_rbind [stays_intros]: "stays r \<Longrightarrow> (\<And>a. stays (f a)) \<Longrightarrow> stays (rbind r f)"
  unfolding stays_def rbind_def
proof (intro allI impI)
  fix data pos b q
  assume r: "\<forall>data pos a p. pos \<le> length data \<longrightarrow> r data pos = Inr (a, p) \<longrightarrow> pos \<le> p \<and> p \<le> length data"
    and f: "\<And>a. \<forall>data pos b p. pos \<le> length data \<longrightarrow> f a data pos = Inr (b, p) \<longrightarrow>
      pos \<le> p \<and> p \<le> length data"
    and pos: "pos \<le> length data"
    and run: "(case r data pos of Inl e \<Rightarrow> Inl e | Inr (a, p) \<Rightarrow> f a data p) = Inr (b, q)"
  from run obtain a p where ap: "r data pos = Inr (a, p)" "f a data p = Inr (b, q)"
    by (auto split: sum.splits)
  then have "pos \<le> p" "p \<le> length data" using r pos by blast+
  then show "pos \<le> q \<and> q \<le> length data" using f [of a] ap(2) by (meson order_trans)
qed

lemma stays_rreturn [stays_intros]: "stays (rreturn v)"
  by (simp add: stays_def rreturn_def)

lemma stays_ReadBytes [stays_intros]: "stays (ReadBytes n)"
  by (auto simp: stays_def ReadBytes_def split: if_splits)

lemma stays_ReadUint8 [stays_intros]: "stays ReadUint8"
  by (auto simp: stays_def ReadUint8_def split: if_splits)

lemma stays_ReadUint16 [stays_intros]: "stays ReadUint16"
  unfolding ReadUint16_def by (intro stays_intros)

lemma stays_ReadUint32 [stays_intros]: "stays ReadUint32"
  unfolding ReadUint32_def by (intro stays_intros)

lemma stays_ReadInt64 [stays_intros]: "stays ReadInt64"
  unfolding ReadInt64_def by (intro stays_intros)

lemma stays_ReadString [stays_intros]: "stays ReadString"
  unfolding ReadString_def
  by (rule stays_rbind [OF stays_ReadUint16]) (auto simp: stays_def split: if_splits)

lemma stays_ReadStrings [stays_intros]: "stays (ReadStrings n)"
  by (induction n) (auto intro!: stays_intros)

lemma stays_ReadStringVector [stays_intros]: "stays ReadStringVector"
  unfolding ReadStringVector_def by (intro stays_intros)

subsection \<open>Truncated input\<close>

text \<open>
  \<open>extends r\<close>: bytes after the position where a successful read stopped do not change it.
  Together with \<open>stays\<close> this makes every proper prefix of an encoding fail: a read that
  succeeded on the prefix would succeed on the whole encoding too, and stop too early.
\<close>

definition extends :: "'a reader \<Rightarrow> bool" where
  "extends r \<longleftrightarrow> (\<forall>data pos a p ext. r data pos = Inr (a, p) \<longrightarrow> r (data @ ext) pos = Inr (a, p))"

named_theorems extends_intros "readers that ignore later bytes"

lemma extends_rbind [extends_intros]:
  assumes "extends r" and "\<And>a. extends (f a)"
  shows "extends (rbind r f)"
  unfolding extends_def rbind_def
proof (intro allI impI)
  fix data pos b q and ext :: bytes
  assume "(case r data pos of Inl e \<Rightarrow> Inl e | Inr (a, p) \<Rightarrow> f a data p) = Inr (b, q)"
  then obtain a p where ap: "r data pos = Inr (a, p)" "f a data p = Inr (b, q)"
    by (auto split: sum.splits)
  have "r (data @ ext) pos = Inr (a, p)" "f a (data @ ext) p = Inr (b, q)"
    using assms(1) assms(2) [of a] ap unfolding extends_def by blast+
  then show "(case r (data @ ext) pos of Inl e \<Rightarrow> Inl e | Inr (a, p) \<Rightarrow> f a (data @ ext) p) = Inr (b, q)"
    by simp
qed

lemma extends_rreturn [extends_intros]: "extends (rreturn v)"
  by (simp add: extends_def rreturn_def)

lemma extends_ReadBytes [extends_intros]: "extends (ReadBytes n)"
  by (auto simp: extends_def ReadBytes_def split: if_splits)

lemma extends_ReadUint16 [extends_intros]: "extends ReadUint16"
  unfolding ReadUint16_def by (intro extends_intros)

lemma extends_ReadUint32 [extends_intros]: "extends ReadUint32"
  unfolding ReadUint32_def by (intro extends_intros)

lemma extends_ReadInt64 [extends_intros]: "extends ReadInt64"
  unfolding ReadInt64_def by (intro extends_intros)

lemma extends_ReadString [extends_intros]: "extends ReadString"
  unfolding ReadString_def
  by (rule extends_rbind [OF extends_ReadUint16]) (auto simp: extends_def split: if_splits)

lemma extends_ReadStrings [extends_intros]: "extends (ReadStrings n)"
  by (induction n) (auto intro!: extends_intros)

lemma extends_ReadStringVector [extends_intros]: "extends ReadStringVector"
  unfolding ReadStringVector_def by (intro extends_intros)

lemma truncated_read_fails:
  assumes "reads r bs v" and "stays r" and "extends r" and "k < length bs"
  shows "\<exists>e. run_reader r (take k bs) = Inl e"
proof (cases "r (take k bs) 0")
  case (Inl e)
  then show ?thesis by (simp add: run_reader_def)
next
  case (Inr ap)
  obtain a p where ap: "r (take k bs) 0 = Inr (a, p)" using Inr by (cases ap) auto
  have "p \<le> k"
    using assms(2) [unfolded stays_def, rule_format, of 0 "take k bs" a p] ap by simp
  have "r (take k bs @ drop k bs) 0 = Inr (a, p)"
    using assms(3) ap unfolding extends_def by blast
  moreover have "r bs 0 = Inr (v, length bs)"
    using assms(1) [unfolded reads_def, rule_format, of "[]" "[]"] by simp
  ultimately have "p = length bs" by simp
  with \<open>p \<le> k\<close> assms(4) show ?thesis by simp
qed

section \<open>The message codecs\<close>

abbreviation short :: "string \<Rightarrow> bool" where
  "short s \<equiv> length s < 65536"

definition LoginMessage_ok :: "LoginMessage \<Rightarrow> bool" where
  "LoginMessage_ok m \<longleftrightarrow> short (lm_token m) \<and> short (lm_name m)"

definition LoginRespMessage_ok :: "LoginRespMessage \<Rightarrow> bool" where
  "LoginRespMessage_ok m \<longleftrightarrow> short (lr_status m) \<and> short (lr_name m) \<and> short (lr_message m)"

definition RegisterProxyMessage_ok :: "RegisterProxyMessage \<Rightarrow> bool" where
  "RegisterProxyMessage_ok m \<longleftrightarrow> short (rp_name m) \<and> short (rp_type m) \<and>
     list_all short (rp_custom_domains m) \<and> length (rp_custom_domains m) < 65536"

definition RegisterProxyRespMessage_ok :: "RegisterProxyRespMessage \<Rightarrow> bool" where
  "RegisterProxyRespMessage_ok m \<longleftrightarrow> short (rr_status m) \<and> short (rr_name m) \<and> short (rr_message m)"

definition NewUserConnMessage_ok :: "NewUserConnMessage \<Rightarrow> bool" where
  "NewUserConnMessage_ok m \<longleftrightarrow> short (nu_proxy_name m) \<and> short (nu_ticket m)"

definition UnregisterProxyMessage_ok :: "UnregisterProxyMessage \<Rightarrow> bool" where
  "UnregisterProxyMessage_ok m \<longleftrightarrow> short (up_name m)"

lemmas reads_fields =
  reads_bind reads_bind_return reads_ReadString reads_ReadUint16 reads_ReadInt64
  reads_ReadStringVector

interpretation login: codec LoginMessage_Serialize LoginMessage_Deserialize LoginMessage_ok
  unfolding LoginMessage_Serialize_def LoginMessage_Deserialize_def LoginMessage_ok_def
  by unfold_locales (rule run_reader_reads, (rule reads_fields | simp)+)

interpretation login_resp:
  codec LoginRespMessage_Serialize LoginRespMessage_Deserialize LoginRespMessage_ok
  unfolding LoginRespMessage_Serialize_def LoginRespMessage_Deserialize_def LoginRespMessage_ok_def
  by unfold_locales (rule run_reader_reads, (rule reads_fields | simp)+)

interpretation register_proxy:
  codec RegisterProxyMessage_Serialize RegisterProxyMessage_Deserialize RegisterProxyMessage_ok
  unfolding RegisterProxyMessage_Serialize_def RegisterProxyMessage_Deserialize_def
    RegisterProxyMessage_ok_def
  by unfold_locales (rule run_reader_reads, (rule reads_fields | simp)+)

interpretation register_proxy_resp:
  codec RegisterProxyRespMessage_Serialize RegisterProxyRespMessage_Deserialize
    RegisterProxyRespMessage_ok
  unfolding RegisterProxyRespMessage_Serialize_def RegisterProxyRespMessage_Deserialize_def
    RegisterProxyRespMessage_ok_def
  by unfold_locales (rule run_reader_reads, (rule reads_fields | simp)+)

interpretation new_user_conn:
  codec NewUserConnMessage_Serialize NewUserConnMessage_Deserialize NewUserConnMessage_ok
  unfolding NewUserConnMessage_Serialize_def NewUserConnMessage_Deserialize_def
    NewUserConnMessage_ok_def
  by unfold_locales (rule run_reader_reads, (rule reads_fields | simp)+)

interpretation unregister_proxy:
  codec UnregisterProxyMessage_Serialize UnregisterProxyMessage_Deserialize UnregisterProxyMessage_ok
  unfolding UnregisterProxyMessage_Serialize_def UnregisterProxyMessage_Deserialize_def
    UnregisterProxyMessage_ok_def
  by unfold_locales (rule run_reader_reads, (rule reads_fields | simp)+)

lemma byte_of_type_of_byte [simp]: "byte_of_type (type_of_byte b) = b"
  by (simp add: type_of_byte_def)

lemma type_of_byte_of_type [simp]:
  "(\<forall>b. t \<noteq> Other_type b) \<Longrightarrow> type_of_byte (byte_of_type t) = t"
  by (cases t) (simp_all add: type_of_byte_def)

lemma Message_Decode_Encode:
  "(\<forall>b. msg_type m \<noteq> Other_type b) \<Longrightarrow> Message_Decode (Message_Encode m) = Inr m"
  by (simp add: Message_Decode_def Message_Encode_def)

lemma Message_Encode_Decode: "Message_Decode data = Inr m \<Longrightarrow> Message_Encode m = data"
  by (auto simp: Message_Decode_def Message_Encode_def split: list.splits)

section \<open>Properties\<close>

text \<open>
  Deserializing a serialized \<open>RegisterProxyMessage\<close> returns the message, whatever bytes
  follow it, provided its strings and its domain list are shorter than 65536.
\<close>

theorem register_proxy_roundtrip:
  assumes "RegisterProxyMessage_ok m"
  shows "RegisterProxyMessage_Deserialize (RegisterProxyMessage_Serialize m @ trailing) = Inr m"
  by (rule register_proxy.deser_ser [OF assms])

definition sample_proxy :: RegisterProxyMessage where
  "sample_proxy = \<lparr>rp_name = ''web'', rp_type = ''http'', rp_remote_port = 0,
     rp_custom_domains = [''a.com'', ''b.com''], rp_bandwidth_limit = 1048576\<rparr>"

theorem register_proxy_roundtrip_witness:
  "RegisterProxyMessage_ok sample_proxy \<and>
   RegisterProxyMessage_Deserialize (RegisterProxyMessage_Serialize sample_proxy @ [7, 9]) =
     Inr sample_proxy"
proof -
  have ok: "RegisterProxyMessage_ok sample_proxy"
    by (simp add: RegisterProxyMessage_ok_def sample_proxy_def)
  show ?thesis using ok register_proxy_roundtrip [OF ok, of "[7, 9]"] by simp
qed

text \<open>
  The other five message bodies survive serialization and deserialization too, when their
  strings are shorter than 65536.
\<close>

theorem control_bodies_roundtrip:
  "(LoginMessage_ok l \<longrightarrow> LoginMessage_Deserialize (LoginMessage_Serialize l) = Inr l) \<and>
   (LoginRespMessage_ok r \<longrightarrow> LoginRespMessage_Deserialize (LoginRespMessage_Serialize r) = Inr r) \<and>
   (RegisterProxyRespMessage_ok p \<longrightarrow>
      RegisterProxyRespMessage_Deserialize (RegisterProxyRespMessage_Serialize p) = Inr p) \<and>
   (NewUserConnMessage_ok u \<longrightarrow>
      NewUserConnMessage_Deserialize (NewUserConnMessage_Serialize u) = Inr u) \<and>
   (UnregisterProxyMessage_ok n \<longrightarrow>
      UnregisterProxyMessage_Deserialize (UnregisterProxyMessage_Serialize n) = Inr n)"
  by (intro conjI impI login.roundtrip login_resp.roundtrip register_proxy_resp.roundtrip
        new_user_conn.roundtrip unregister_proxy.roundtrip)

theorem control_bodies_roundtrip_witness:
  "LoginMessage_Deserialize (LoginMessage_Serialize \<lparr>lm_token = ''t'', lm_name = ''n''\<rparr>) =
     Inr \<lparr>lm_token = ''t'', lm_name = ''n''\<rparr> \<and>
   NewUserConnMessage_Deserialize
     (NewUserConnMessage_Serialize \<lparr>nu_proxy_name = ''ssh'', nu_ticket = ''17''\<rparr>) =
     Inr \<lparr>nu_proxy_name = ''ssh'', nu_ticket = ''17''\<rparr>"
  using control_bodies_roundtrip
    [of "\<lparr>lm_token = ''t'', lm_name = ''n''\<rparr>" _ _ "\<lparr>nu_proxy_name = ''ssh'', nu_ticket = ''17''\<rparr>"]
  by (simp add: LoginMessage_ok_def NewUserConnMessage_ok_def)

text \<open>
  Truncation is detected: every proper prefix of a serialized \<open>RegisterProxyMessage\<close> makes
  \<open>Deserialize\<close> throw instead of returning a message.
\<close>

theorem register_proxy_truncated:
  assumes "RegisterProxyMessage_ok m" and "k < length (RegisterProxyMessage_Serialize m)"
  shows "\<exists>e. RegisterProxyMessage_Deserialize (take k (RegisterProxyMessage_Serialize m)) = Inl e"
  using assms(2) unfolding RegisterProxyMessage_Deserialize_def
proof (rule truncated_read_fails [rotated 3])
  show "reads (rbind ReadString (\<lambda>n. rbind ReadString (\<lambda>t. rbind ReadUint16 (\<lambda>p.
      rbind ReadStringVector (\<lambda>d. rbind ReadInt64 (\<lambda>b.
        rreturn \<lparr>rp_name = n, rp_type = t, rp_remote_port = p, rp_custom_domains = d,
                 rp_bandwidth_limit = b\<rparr>))))))
     (RegisterProxyMessage_Serialize m) m"
    using assms(1) unfolding RegisterProxyMessage_Serialize_def RegisterProxyMessage_ok_def
    by - ((rule reads_fields | simp)+)
qed (intro stays_intros extends_intros)+

theorem register_proxy_truncated_witness:
  "\<exists>e. RegisterProxyMessage_Deserialize (take 5 (RegisterProxyMessage_Serialize sample_proxy)) = Inl e"
  by (rule register_proxy_truncated)
     (simp_all add: RegisterProxyMessage_ok_def RegisterProxyMessage_Serialize_def sample_proxy_def
        WriteString_def WriteUint16_def)

text \<open>
  What the reader gets back for a string of any length: \<open>WriteString\<close> stores the length
  modulo 65536 but appends every byte, so a string of 65536 bytes or more is read back cut to
  the remainder, and the reader's position is left inside its bytes.
\<close>

theorem write_string_length_wraps:
  "ReadString (pre @ WriteString s @ post) (length pre) =
     Inr (take (length s mod 65536) s, length pre + 2 + length s mod 65536)"
  by (rule ReadString_after_WriteString)

text \<open>
  The envelope: decoding an encoded message of one of the eight declared types returns it,
  and whatever \<open>Decode\<close> accepts re-encodes to the same bytes; only the empty vector is refused.
\<close>

theorem message_envelope:
  "((\<forall>b. msg_type m \<noteq> Other_type b) \<longrightarrow> Message_Decode (Message_Encode m) = Inr m) \<and>
   (Message_Decode data = Inr m' \<longrightarrow> Message_Encode m' = data) \<and>
   (Message_Decode data = Inl Empty_message \<longleftrightarrow> data = [])"
  using Message_Decode_Encode Message_Encode_Decode
  by (auto simp: Message_Decode_def split: list.splits)

theorem message_envelope_witness:
  "Message_Decode (Message_Encode \<lparr>msg_type = Login, msg_body = [1, 2]\<rparr>) =
     Inr \<lparr>msg_type = Login, msg_body = [1, 2]\<rparr> \<and>
   Message_Encode \<lparr>msg_type = Other_type 200, msg_body = [5]\<rparr> = [200, 5]"
  using message_envelope [of "\<lparr>msg_type = Login, msg_body = [1, 2]\<rparr>"]
    message_envelope [of _ "[200, 5]" "\<lparr>msg_type = Other_type 200, msg_body = [5]\<rparr>"]
  by (simp add: Message_Decode_def type_of_byte_def)

end
