(* ===== verification/Mux_Frame.thy ===== *)
theory Mux_Frame
  imports Protocol
begin

text \<open>
  The frame header of the multiplexer (\<open>mux::Header\<close>, \<open>Type\<close> and \<open>Flags\<close> in
  \<open>src/common/mux.h\<close> and \<open>mux.cpp\<close>) and the queue of received blocks from which
  \<open>MuxStream\<close> serves its reads.
\<close>

section \<open>Frame header\<close>

definition Type_Data :: byte where "Type_Data = 0x0"
definition Type_WindowUpdate :: byte where "Type_WindowUpdate = 0x1"
definition Type_Ping :: byte where "Type_Ping = 0x2"
definition Type_GoAway :: byte where "Type_GoAway = 0x3"

lemmas frame_types = Type_Data_def Type_WindowUpdate_def Type_Ping_def Type_GoAway_def

definition Flags_SYN :: "16 word" where "Flags_SYN = 0x1"
definition Flags_ACK :: "16 word" where "Flags_ACK = 0x2"
definition Flags_FIN :: "16 word" where "Flags_FIN = 0x4"
definition Flags_RST :: "16 word" where "Flags_RST = 0x8"

lemmas frame_flags = Flags_SYN_def Flags_ACK_def Flags_FIN_def Flags_RST_def

record Header =
  h_version :: byte
  h_type :: byte
  h_flags :: "16 word"
  h_stream_id :: "32 word"
  h_length :: "32 word"

definition Header_size :: nat where "Header_size = 12"

definition Header_encode :: "Header \<Rightarrow> bytes" where
  "Header_encode h =
     [h_version h, h_type h] @ be16 (h_flags h) @ be32 (h_stream_id h) @ be32 (h_length h)"

definition Header_decode :: "bytes \<Rightarrow> Header" where
  "Header_decode buf =
     \<lparr>h_version = buf ! 0, h_type = buf ! 1, h_flags = of_be16 (take 2 (drop 2 buf)),
      h_stream_id = of_be32 (take 4 (drop 4 buf)), h_length = of_be32 (take 4 (drop 8 buf))\<rparr>"

lemma length_Header_encode [simp]: "length (Header_encode h) = Header_size"
  by (simp add: Header_encode_def Header_size_def)

lemma Header_decode_encode [simp]: "Header_decode (Header_encode h @ xs) = h"
  by (simp add: Header_decode_def Header_encode_def numeral_2_eq_2 numeral_eq_Suc)

lemma Header_encode_eq_Cons: "\<exists>b bs. Header_encode h = b # bs"
  by (simp add: Header_encode_def)

section \<open>The read queue\<close>

text \<open>
  \<open>read_copy remaining q off acc\<close> is the inner copy loop of \<open>do_read_from_buffer\<close>: blocks of
  the queue \<open>q\<close>, the first already read up to \<open>off\<close>, are copied into a buffer with
  \<open>remaining\<close> free bytes; \<open>acc\<close> is what was copied so far. The subtraction
  \<open>block.length - read_queue_offset_\<close> is a \<open>size_t\<close> subtraction and is not guarded. A
  \<open>memcpy\<close> that would read past the end of a block is undefined behaviour: \<open>None\<close>.
\<close>

function read_copy :: "nat \<Rightarrow> bytes list \<Rightarrow> nat \<Rightarrow> bytes \<Rightarrow> (bytes \<times> bytes list \<times> nat) option" where
  "read_copy remaining q off acc =
     (case q of
        [] \<Rightarrow> Some (acc, q, off)
      | block # rest \<Rightarrow>
          if remaining = 0 then Some (acc, q, off)
          else
            (let to_copy = min remaining (sub64 (length block) off)
             in if length block < off + to_copy then None
                else
                  (let acc' = acc @ take to_copy (drop off block)
                   in if off + to_copy = length block
                      then read_copy (remaining - to_copy) rest 0 acc'
                      else read_copy (remaining - to_copy) q (off + to_copy) acc')))"
  by pat_completeness auto
termination
  by (relation "measure (\<lambda>(remaining, q, off, acc). length q + remaining)")
     (auto simp: sub64_def min_def split: if_splits)

declare read_copy.simps [simp del]

definition unread_queue :: "bytes list \<Rightarrow> nat \<Rightarrow> bytes" where
  "unread_queue q off = drop off (concat q)"

definition queue_ok :: "bytes list \<Rightarrow> nat \<Rightarrow> bool" where
  "queue_ok q off \<longleftrightarrow> list_all (\<lambda>b. b \<noteq> []) q \<and>
     (case q of [] \<Rightarrow> off = 0 | b # _ \<Rightarrow> off < length b)"

lemma queue_ok_Nil [simp]: "queue_ok [] off \<longleftrightarrow> off = 0"
  by (simp add: queue_ok_def)

lemma queue_ok_tl: "queue_ok (b # q) off \<Longrightarrow> queue_ok q 0"
  by (cases q) (auto simp: queue_ok_def)

lemma queue_ok_snoc: "queue_ok q off \<Longrightarrow> b \<noteq> [] \<Longrightarrow> queue_ok (q @ [b]) off"
  by (cases q) (auto simp: queue_ok_def)

lemma unread_queue_Nil [simp]: "unread_queue [] off = []"
  by (simp add: unread_queue_def)

lemma unread_queue_snoc:
  "queue_ok q off \<Longrightarrow> unread_queue (q @ [b]) off = unread_queue q off @ b"
  by (cases q) (auto simp: queue_ok_def unread_queue_def)

lemma unread_queue_eq_Nil: "queue_ok q off \<Longrightarrow> unread_queue q off = [] \<longleftrightarrow> q = []"
  by (cases q) (auto simp: queue_ok_def unread_queue_def)

lemma length_unread_queue:
  "length (unread_queue q off) = sum_list (map length q) - off"
  by (simp add: unread_queue_def length_concat)

text \<open>
  The loop moves exactly the first \<open>remaining\<close> unread bytes, never reads outside a block, and
  leaves a queue whose first block has been read up to a place inside it, also when there are
  empty blocks.
\<close>

definition queue_fits :: "bytes list \<Rightarrow> nat \<Rightarrow> bool" where
  "queue_fits q off \<longleftrightarrow> off = 0 \<or> (case q of [] \<Rightarrow> False | b # _ \<Rightarrow> off < length b)"

lemma queue_fits_0 [simp]: "queue_fits q 0"
  by (simp add: queue_fits_def)

lemma queue_ok_fits: "queue_ok q off \<longleftrightarrow> list_all (\<lambda>b. b \<noteq> []) q \<and> queue_fits q off"
  by (cases q) (auto simp: queue_ok_def queue_fits_def)

lemma queue_fits_snoc: "queue_fits q off \<Longrightarrow> queue_fits (q @ [b]) off"
  by (cases q) (auto simp: queue_fits_def)

lemma unread_queue_fits_snoc:
  "queue_fits q off \<Longrightarrow> unread_queue (q @ [b]) off = unread_queue q off @ b"
  by (cases q) (auto simp: queue_fits_def unread_queue_def)

lemma read_copy_fits:
  assumes "queue_fits q off"
  shows "\<exists>p q' off'. read_copy remaining q off acc = Some (acc @ take remaining (unread_queue q off), q', off')
     \<and> q = p @ q' \<and> queue_fits q' off' \<and> unread_queue q' off' = drop remaining (unread_queue q off)"
  using assms
proof (induction remaining q off acc rule: read_copy.induct)
  case (1 remaining q off acc)
  show ?case
  proof (cases q)
    case Nil
    with "1.prems" show ?thesis by (subst read_copy.simps) (simp add: queue_fits_def)
  next
    case (Cons block rest)
    let ?k = "min remaining (length block - off)"
    have off: "off \<le> length block" using "1.prems" Cons by (auto simp: queue_fits_def)
    have unread: "unread_queue q off = drop off block @ unread_queue rest 0"
      using off Cons by (simp add: unread_queue_def)
    show ?thesis
    proof (cases "remaining = 0")
      case True
      with Cons "1.prems" show ?thesis by (subst read_copy.simps) simp
    next
      case rem: False
      show ?thesis
      proof (cases "off + ?k = length block")
        case True
        from "1.IH"(1) [OF Cons rem refl _ refl, of] True off Cons
        obtain p q' off' where
          "read_copy (remaining - ?k) rest 0 (acc @ take ?k (drop off block)) =
             Some (acc @ take ?k (drop off block) @ take (remaining - ?k) (unread_queue rest 0), q', off')"
          "rest = p @ q'" "queue_fits q' off'"
          "unread_queue q' off' = drop (remaining - ?k) (unread_queue rest 0)"
          by auto
        moreover from this(2) have "q = (block # p) @ q'" using Cons by simp
        moreover have "?k = length block - off" "length block - off \<le> remaining" using True by linarith+
        ultimately show ?thesis
          using True off rem Cons unread by (subst read_copy.simps) (simp add: Let_def)
      next
        case False
        then have k: "?k = remaining" "off + remaining < length block" using off by linarith+
        have ok: "queue_fits q (off + remaining)" using Cons k by (simp add: queue_fits_def)
        have "read_copy 0 q (off + remaining) (acc @ take remaining (drop off block)) =
            Some (acc @ take remaining (drop off block), q, off + remaining)"
          using Cons by (subst read_copy.simps) simp
        then have "read_copy remaining q off acc =
            Some (acc @ take remaining (drop off block), q, off + remaining)"
          using False off rem Cons k by (subst read_copy.simps) (simp add: Let_def)
        moreover have "take remaining (drop off block) = take remaining (unread_queue q off)"
          using unread k by simp
        moreover have "unread_queue q (off + remaining) = drop remaining (unread_queue q off)"
          by (simp add: unread_queue_def add.commute)
        ultimately show ?thesis using ok by simp
      qed
    qed
  qed
qed

lemma read_copy_spec:
  assumes "queue_ok q off"
  shows "\<exists>q' off'. read_copy remaining q off acc = Some (acc @ take remaining (unread_queue q off), q', off')
     \<and> queue_ok q' off' \<and> unread_queue q' off' = drop remaining (unread_queue q off)"
  using read_copy_fits [of q off remaining acc] assms by (auto simp: queue_ok_fits)

end
