(* ===== verification/Mux_Stream.thy ===== *)
theory Mux_Stream
  imports Mux_Frame
begin

text \<open>
  \<open>mux::MuxStream\<close> (\<open>src/common/mux.h\<close>, \<open>mux.cpp\<close>): one multiplexed stream with its flow
  control window, its queue of received blocks and its queues of pending reads and writes.

  Every method runs on the stream's strand (off the strand it posts itself), so a method is an
  atomic function from the state to the new state and the list of effects, in order. Effects
  are the posted completion handlers, the frames handed to \<open>Session::async_send_frame\<close> with
  the completion callback that goes along, and the call of \<open>Session::remove_stream\<close>. A handler
  is a number chosen by the caller; for a read the completion carries the bytes that were copied
  into the caller's buffer. \<open>ms_session\<close> tells whether \<open>session_.lock()\<close> succeeds.
\<close>

section \<open>State\<close>

record pending_read =
  pr_size :: nat
  pr_handler :: nat
  pr_read_all :: bool

record pending_write =
  pw_buffers :: "bytes list"
  pw_handler :: nat

record mux_stream =
  ms_id :: "32 word"
  ms_session :: bool
  local_window_size :: nat
  remote_window_size :: nat
  consumed_since_last_update :: nat
  read_queue :: "bytes list"
  read_queue_offset :: nat
  pending_reads :: "pending_read list"
  pending_writes :: "pending_write list"
  local_closed :: bool
  remote_closed :: bool

text \<open>The callback given with a frame: none, that of a partial send, that of a full send.\<close>

datatype send_cb = No_cb | Partial_cb | Full_cb nat nat

datatype stream_action =
    Post nat error_code nat bytes
  | Send_frame Header bytes send_cb
  | Remove_stream "32 word"

definition kMuxStreamMaxPendingReads :: nat where "kMuxStreamMaxPendingReads = 1024"
definition kMuxStreamMaxPendingWrites :: nat where "kMuxStreamMaxPendingWrites = 1024"

definition new_stream :: "32 word \<Rightarrow> mux_stream" where
  "new_stream sid =
     \<lparr>ms_id = sid, ms_session = True, local_window_size = 128 * 1024,
      remote_window_size = 128 * 1024, consumed_since_last_update = 0, read_queue = [],
      read_queue_offset = 0, pending_reads = [], pending_writes = [],
      local_closed = False, remote_closed = False\<rparr>"

definition mk_header :: "byte \<Rightarrow> 16 word \<Rightarrow> 32 word \<Rightarrow> 32 word \<Rightarrow> Header" where
  "mk_header ty fl sid len =
     \<lparr>h_version = 0, h_type = ty, h_flags = fl, h_stream_id = sid, h_length = len\<rparr>"

section \<open>Writing\<close>

text \<open>Slicing a scatter-gather list: the first \<open>n\<close> bytes, and what is left after them.\<close>

fun slice_buffers :: "nat \<Rightarrow> bytes list \<Rightarrow> bytes list" where
  "slice_buffers n [] = []"
| "slice_buffers n (b # bs) =
     (if n = 0 then []
      else take (min n (length b)) b # slice_buffers (n - min n (length b)) bs)"

fun skip_buffers :: "nat \<Rightarrow> bytes list \<Rightarrow> bytes list" where
  "skip_buffers n [] = []"
| "skip_buffers n (b # bs) =
     (if length b \<le> n then skip_buffers (n - length b) bs else drop n b # skip_buffers 0 bs)"

text \<open>One iteration of the loop of \<open>MuxStream::do_write\<close>; \<open>None\<close> when the loop ends.\<close>

definition do_write_step :: "mux_stream \<Rightarrow> (mux_stream \<times> stream_action) option" where
  "do_write_step s =
     (case pending_writes s of
        [] \<Rightarrow> None
      | pw # rest \<Rightarrow>
          if remote_window_size s = 0 then None
          else
            (let total_length = sum_list (map length (pw_buffers pw))
             in if total_length = 0
                then Some (s\<lparr>pending_writes := rest\<rparr>, Post (pw_handler pw) Success 0 [])
                else if \<not> ms_session s
                then Some (s\<lparr>pending_writes := rest\<rparr>, Post (pw_handler pw) Connection_reset 0 [])
                else
                  (let to_send = min total_length (min (remote_window_size s) MAX_MESSAGE_SIZE);
                       h = mk_header Type_Data 0 (ms_id s) (word_of_nat to_send);
                       body = concat (slice_buffers to_send (pw_buffers pw));
                       s' = s\<lparr>remote_window_size := remote_window_size s - to_send\<rparr>
                   in if to_send < total_length
                      then Some
                        (s'\<lparr>pending_writes :=
                             pw\<lparr>pw_buffers := skip_buffers to_send (pw_buffers pw)\<rparr> # rest\<rparr>,
                         Send_frame h body Partial_cb)
                      else Some
                        (s'\<lparr>pending_writes := rest\<rparr>,
                         Send_frame h body (Full_cb (pw_handler pw) to_send)))))"

lemma do_write_step_measure:
  assumes "do_write_step s = Some (s', a)"
  shows "length (pending_writes s') + remote_window_size s' <
         length (pending_writes s) + remote_window_size s"
  using assms
  by (auto simp: do_write_step_def Let_def MAX_MESSAGE_SIZE_def min_def
        split: list.splits if_splits)

function stream_do_write :: "mux_stream \<Rightarrow> mux_stream \<times> stream_action list" where
  "stream_do_write s =
     (case do_write_step s of
        None \<Rightarrow> (s, [])
      | Some (s', a) \<Rightarrow> (case stream_do_write s' of (t, as) \<Rightarrow> (t, a # as)))"
  by pat_completeness auto
termination
  by (relation "measure (\<lambda>s. length (pending_writes s) + remote_window_size s)")
     (auto dest: do_write_step_measure)

declare stream_do_write.simps [simp del]

definition stream_async_write :: "bytes list \<Rightarrow> nat \<Rightarrow> mux_stream \<Rightarrow> mux_stream \<times> stream_action list" where
  "stream_async_write buffers handler s =
     (if kMuxStreamMaxPendingWrites \<le> length (pending_writes s)
      then (s, [Post handler No_buffer_space 0 []])
      else stream_do_write
        (s\<lparr>pending_writes := pending_writes s @ [\<lparr>pw_buffers = buffers, pw_handler = handler\<rparr>]\<rparr>))"

text \<open>
  The callbacks that \<open>Session\<close> runs when a frame has been written (or failed): a failed partial
  send aborts everything still pending with the error; a full send completes its write.
\<close>

fun stream_frame_sent :: "send_cb \<Rightarrow> error_code \<Rightarrow> mux_stream \<Rightarrow> mux_stream \<times> stream_action list" where
  "stream_frame_sent No_cb ec s = (s, [])"
| "stream_frame_sent Partial_cb ec s =
     (if ec = Success then (s, [])
      else (s\<lparr>pending_writes := []\<rparr>,
            map (\<lambda>pw. Post (pw_handler pw) ec 0 []) (pending_writes s)))"
| "stream_frame_sent (Full_cb handler n) ec s =
     (s, [Post handler ec (if ec = Success then n else 0) []])"

section \<open>Reading\<close>

definition check_cleanup :: "mux_stream \<Rightarrow> stream_action list" where
  "check_cleanup s =
     (if local_closed s \<and> remote_closed s \<and> read_queue s = [] \<and> ms_session s
      then [Remove_stream (ms_id s)] else [])"

definition window_update_threshold :: nat where
  "window_update_threshold = 32 * 1024"

text \<open>Accounting after a read of \<open>n\<close> bytes: grant the peer new window when 32 KiB are reached.\<close>

definition account_read :: "nat \<Rightarrow> mux_stream \<Rightarrow> mux_stream \<times> stream_action list" where
  "account_read n s =
     (let c = consumed_since_last_update s + n
      in if window_update_threshold \<le> c \<and> ms_session s
         then (s\<lparr>consumed_since_last_update := 0\<rparr>,
               [Send_frame (mk_header Type_WindowUpdate 0 (ms_id s) (word_of_nat c)) [] No_cb])
         else (s\<lparr>consumed_since_last_update := c\<rparr>, []))"

text \<open>
  One iteration of the outer loop of \<open>do_read_from_buffer\<close>: leave the loop, go on, or undefined
  behaviour in the copy loop.
\<close>

datatype read_iter = Break | Iterate mux_stream "stream_action list" | Out_of_bounds

definition do_read_step :: "mux_stream \<Rightarrow> read_iter" where
  "do_read_step s =
     (case pending_reads s of
        [] \<Rightarrow> Break
      | pr # rest \<Rightarrow>
          if read_queue s = []
          then (if remote_closed s
                then Iterate (s\<lparr>pending_reads := rest\<rparr>) [Post (pr_handler pr) Eof 0 []]
                else Break)
          else if pr_read_all pr \<and>
                  sub64 (sum_list (map length (read_queue s))) (read_queue_offset s) < pr_size pr \<and>
                  \<not> remote_closed s
          then Break
          else
            (case read_copy (pr_size pr) (read_queue s) (read_queue_offset s) [] of
               None \<Rightarrow> Out_of_bounds
             | Some (d, q, off) \<Rightarrow>
                 (case account_read (length d)
                     (s\<lparr>pending_reads := rest, read_queue := q, read_queue_offset := off\<rparr>) of
                    (s', acts) \<Rightarrow> Iterate s' (Post (pr_handler pr) Success (length d) d # acts))))"

lemma account_read_pending [simp]: "pending_reads (fst (account_read n s)) = pending_reads s"
  by (simp add: account_read_def Let_def)

lemma do_read_step_pending:
  "do_read_step s = Iterate s' acts \<Longrightarrow> length (pending_reads s') < length (pending_reads s)"
  by (auto simp: do_read_step_def account_read_def Let_def
        split: list.splits if_splits option.splits prod.splits)

function stream_do_read :: "mux_stream \<Rightarrow> (mux_stream \<times> stream_action list) option" where
  "stream_do_read s =
     (case do_read_step s of
        Break \<Rightarrow> Some (s, check_cleanup s)
      | Out_of_bounds \<Rightarrow> None
      | Iterate s' acts \<Rightarrow> map_option (\<lambda>(t, as). (t, acts @ as)) (stream_do_read s'))"
  by pat_completeness auto
termination
  by (relation "measure (\<lambda>s. length (pending_reads s))") (auto dest: do_read_step_pending)

declare stream_do_read.simps [simp del]

text \<open>\<open>async_read_some\<close> (\<open>read_all\<close> false) and \<open>async_read\<close> (\<open>read_all\<close> true).\<close>

definition stream_async_read ::
    "bool \<Rightarrow> nat \<Rightarrow> nat \<Rightarrow> mux_stream \<Rightarrow> (mux_stream \<times> stream_action list) option" where
  "stream_async_read read_all sz handler s =
     (if kMuxStreamMaxPendingReads \<le> length (pending_reads s)
      then Some (s, [Post handler No_buffer_space 0 []])
      else stream_do_read
        (s\<lparr>pending_reads := pending_reads s @
            [\<lparr>pr_size = sz, pr_handler = handler, pr_read_all = read_all\<rparr>]\<rparr>))"

section \<open>Events from the session\<close>

definition stream_handle_data :: "bytes \<Rightarrow> mux_stream \<Rightarrow> (mux_stream \<times> stream_action list) option" where
  "stream_handle_data data s = stream_do_read (s\<lparr>read_queue := read_queue s @ [data]\<rparr>)"

definition stream_handle_window_update :: "32 word \<Rightarrow> mux_stream \<Rightarrow> mux_stream \<times> stream_action list" where
  "stream_handle_window_update delta s =
     stream_do_write
       (s\<lparr>remote_window_size := min (remote_window_size s + unat delta) MAX_MESSAGE_SIZE\<rparr>)"

definition stream_handle_close :: "mux_stream \<Rightarrow> (mux_stream \<times> stream_action list) option" where
  "stream_handle_close s =
     map_option (\<lambda>(t, as). (t, as @ check_cleanup t)) (stream_do_read (s\<lparr>remote_closed := True\<rparr>))"

section \<open>Closing\<close>

definition abort_pending :: "mux_stream \<Rightarrow> stream_action list" where
  "abort_pending s =
     map (\<lambda>pr. Post (pr_handler pr) Operation_aborted 0 []) (pending_reads s) @
     map (\<lambda>pw. Post (pw_handler pw) Operation_aborted 0 []) (pending_writes s)"

definition stream_close :: "mux_stream \<Rightarrow> mux_stream \<times> stream_action list" where
  "stream_close s =
     (if local_closed s then (s, [])
      else
        (let s' = s\<lparr>local_closed := True, pending_reads := [], pending_writes := [], read_queue := []\<rparr>
         in (s',
             (if ms_session s
              then [Send_frame (mk_header Type_Data Flags_FIN (ms_id s) 0) [] No_cb] else []) @
             abort_pending s @ check_cleanup s')))"

definition stream_destroy :: "mux_stream \<Rightarrow> mux_stream \<times> stream_action list" where
  "stream_destroy s =
     (s\<lparr>local_closed := True, pending_reads := [], pending_writes := []\<rparr>, abort_pending s)"

section \<open>Lemmas on the write side\<close>

lemma concat_slice_buffers: "concat (slice_buffers n bs) = take n (concat bs)"
  by (induction n bs rule: slice_buffers.induct) (auto simp: min_def)

lemma concat_skip_buffers: "concat (skip_buffers n bs) = drop n (concat bs)"
  by (induction n bs rule: skip_buffers.induct) auto

lemma sum_list_lengths: "sum_list (map length bs) = length (concat bs)"
  by (simp add: length_concat)

text \<open>The bytes still to be written, and the bytes that a list of effects sends.\<close>

definition pending_bytes :: "mux_stream \<Rightarrow> bytes" where
  "pending_bytes s = concat (map (\<lambda>pw. concat (pw_buffers pw)) (pending_writes s))"

fun sent_bytes :: "stream_action list \<Rightarrow> bytes" where
  "sent_bytes [] = []"
| "sent_bytes (Send_frame h body cb # as) =
     (if h_type h = Type_Data then body else []) @ sent_bytes as"
| "sent_bytes (_ # as) = sent_bytes as"

fun data_frame_ok :: "mux_stream \<Rightarrow> stream_action \<Rightarrow> bool" where
  "data_frame_ok s (Send_frame h body cb) =
     (h = mk_header Type_Data 0 (ms_id s) (word_of_nat (length body)) \<and>
      0 < length body \<and> length body \<le> MAX_MESSAGE_SIZE)"
| "data_frame_ok s _ = True"

lemma do_write_step_None:
  "do_write_step s = None \<longleftrightarrow> pending_writes s = [] \<or> remote_window_size s = 0"
  by (auto simp: do_write_step_def Let_def split: list.splits)

lemma do_write_step_data:
  assumes "do_write_step s = Some (s', a)" and "ms_session s"
  shows "sent_bytes [a] @ pending_bytes s' = pending_bytes s"
    and "remote_window_size s' + length (sent_bytes [a]) = remote_window_size s"
    and "data_frame_ok s a"
    and "s' = s\<lparr>remote_window_size := remote_window_size s', pending_writes := pending_writes s'\<rparr>"
proof -
  obtain pw rest where pw: "pending_writes s = pw # rest" and w: "remote_window_size s \<noteq> 0"
    using assms(1) by (auto simp: do_write_step_def split: list.splits if_splits)
  define n where "n = min (length (concat (pw_buffers pw))) (min (remote_window_size s) MAX_MESSAGE_SIZE)"
  have small: "n \<le> MAX_MESSAGE_SIZE" "n \<le> length (concat (pw_buffers pw))" "n \<le> remote_window_size s"
    by (simp_all add: n_def)
  have pos: "concat (pw_buffers pw) \<noteq> [] \<Longrightarrow> 0 < n"
    using w by (simp add: n_def MAX_MESSAGE_SIZE_def)
  have all: "\<not> n < length (concat (pw_buffers pw)) \<Longrightarrow> n = length (concat (pw_buffers pw))"
    using small by linarith
  show "sent_bytes [a] @ pending_bytes s' = pending_bytes s"
    "remote_window_size s' + length (sent_bytes [a]) = remote_window_size s"
    "data_frame_ok s a"
    "s' = s\<lparr>remote_window_size := remote_window_size s', pending_writes := pending_writes s'\<rparr>"
    using assms pw w small pos all
    by (auto simp: do_write_step_def Let_def sum_list_lengths concat_slice_buffers concat_skip_buffers
          pending_bytes_def mk_header_def n_def [symmetric] min_absorb2 split: if_splits)
qed

lemma sent_bytes_append [simp]: "sent_bytes (as @ bs) = sent_bytes as @ sent_bytes bs"
  by (induction as rule: sent_bytes.induct) auto

lemma stream_do_write_data:
  assumes "ms_session s" and "stream_do_write s = (t, acts)"
  shows "sent_bytes acts @ pending_bytes t = pending_bytes s \<and>
     remote_window_size t + length (sent_bytes acts) = remote_window_size s \<and>
     list_all (data_frame_ok s) acts \<and>
     t = s\<lparr>remote_window_size := remote_window_size t, pending_writes := pending_writes t\<rparr> \<and>
     (pending_writes t = [] \<or> remote_window_size t = 0)"
  using assms
proof (induction s arbitrary: t acts rule: stream_do_write.induct)
  case (1 s)
  show ?case
  proof (cases "do_write_step s")
    case None
    then have "t = s" "acts = []" using "1.prems"(2) by (simp_all add: stream_do_write.simps)
    with None show ?thesis by (simp add: do_write_step_None)
  next
    case (Some sa)
    obtain s' a where a: "do_write_step s = Some (s', a)" using Some by (cases sa) auto
    obtain as where run: "stream_do_write s' = (t, as)" and acts: "acts = a # as"
      using "1.prems"(2) a by (subst (asm) stream_do_write.simps) (auto split: prod.splits)
    note step = do_write_step_data [OF a "1.prems"(1)]
    have alive: "ms_session s'" and mid: "ms_id s' = ms_id s"
      using "1.prems"(1) by (subst step(4), simp)+
    have same: "data_frame_ok s' = data_frame_ok s"
    proof
      fix x show "data_frame_ok s' x = data_frame_ok s x" by (cases x) (simp_all add: mid)
    qed
    note IH = "1.IH" [OF a refl alive run]
    have "sent_bytes acts = sent_bytes [a] @ sent_bytes as"
      using acts sent_bytes_append [of "[a]" as] by simp
    moreover have "t = s\<lparr>remote_window_size := remote_window_size t, pending_writes := pending_writes t\<rparr>"
      using IH step(4) by (metis (no_types, lifting) mux_stream.surjective mux_stream.update_convs(4,9))
    ultimately show ?thesis using IH step(1-3) acts same by auto
  qed
qed

section \<open>Lemmas on the read side\<close>

lemma stream_do_write_sent:
  assumes "ms_session s" and "stream_do_write s = (t, acts)"
  shows "sent_bytes acts @ pending_bytes t = pending_bytes s"
    and "remote_window_size t + length (sent_bytes acts) = remote_window_size s"
    and "list_all (data_frame_ok s) acts"
    and "pending_writes t = [] \<or> remote_window_size t = 0"
  by (rule stream_do_write_data [OF assms, THEN conjunct1],
      rule stream_do_write_data [OF assms, THEN conjunct2, THEN conjunct1],
      rule stream_do_write_data [OF assms, THEN conjunct2, THEN conjunct2, THEN conjunct1],
      rule stream_do_write_data [OF assms, THEN conjunct2, THEN conjunct2, THEN conjunct2, THEN conjunct2])

text \<open>
  \<open>received_bytes\<close> is what a list of effects delivers to readers; \<open>granted\<close> is the window it
  grants to the peer.
\<close>

fun received_bytes :: "stream_action list \<Rightarrow> bytes" where
  "received_bytes [] = []"
| "received_bytes (Post h ec n d # as) = d @ received_bytes as"
| "received_bytes (_ # as) = received_bytes as"

fun granted :: "stream_action list \<Rightarrow> nat" where
  "granted [] = 0"
| "granted (Send_frame h body cb # as) =
     (if h_type h = Type_WindowUpdate then unat (h_length h) else 0) + granted as"
| "granted (_ # as) = granted as"

lemma received_bytes_append [simp]: "received_bytes (as @ bs) = received_bytes as @ received_bytes bs"
  by (induction as rule: received_bytes.induct) auto

lemma granted_append [simp]: "granted (as @ bs) = granted as + granted bs"
  by (induction as rule: granted.induct) auto

lemma check_cleanup_effects [simp]:
  "received_bytes (check_cleanup s) = []" "granted (check_cleanup s) = 0"
  "sent_bytes (check_cleanup s) = []"
  by (simp_all add: check_cleanup_def)

abbreviation unread :: "mux_stream \<Rightarrow> bytes" where
  "unread s \<equiv> unread_queue (read_queue s) (read_queue_offset s)"

abbreviation rq_ok :: "mux_stream \<Rightarrow> bool" where
  "rq_ok s \<equiv> queue_ok (read_queue s) (read_queue_offset s)"

text \<open>The fields that reading leaves alone.\<close>

definition same_but_reads :: "mux_stream \<Rightarrow> mux_stream \<Rightarrow> bool" where
  "same_but_reads s t \<longleftrightarrow>
     ms_id t = ms_id s \<and> ms_session t = ms_session s \<and>
     local_window_size t = local_window_size s \<and> remote_window_size t = remote_window_size s \<and>
     pending_writes t = pending_writes s \<and> local_closed t = local_closed s \<and>
     remote_closed t = remote_closed s"

lemma same_but_reads_refl [simp]: "same_but_reads s s"
  by (simp add: same_but_reads_def)

lemma same_but_reads_trans: "same_but_reads s t \<Longrightarrow> same_but_reads t u \<Longrightarrow> same_but_reads s u"
  by (simp add: same_but_reads_def)

text \<open>
  One iteration on a well-formed queue: no undefined behaviour, the bytes delivered are the
  next unread ones, and every byte delivered is accounted for as consumed or granted.
\<close>

lemma do_read_step_ok:
  assumes "rq_ok s"
  shows "do_read_step s \<noteq> Out_of_bounds"
    and "do_read_step s = Iterate s' acts \<Longrightarrow>
      rq_ok s' \<and> received_bytes acts @ unread s' = unread s \<and> sent_bytes acts = [] \<and>
      same_but_reads s s' \<and>
      (consumed_since_last_update s + length (unread s) < 2 ^ 32 \<longrightarrow>
        consumed_since_last_update s' + granted acts =
          consumed_since_last_update s + length (received_bytes acts))"
proof -
  have copy: "\<exists>q' off'. read_copy n (read_queue s) (read_queue_offset s) [] =
      Some (take n (unread s), q', off') \<and> queue_ok q' off' \<and> unread_queue q' off' = drop n (unread s)" for n
    using read_copy_spec [OF assms, of n "[]"] by simp
  have copies: "(read_copy n (read_queue s) (read_queue_offset s) [] = None) = False" for n
    using copy [of n] by auto
  show "do_read_step s \<noteq> Out_of_bounds"
    by (auto simp: do_read_step_def copies split: list.splits if_splits option.splits prod.splits)
  assume it: "do_read_step s = Iterate s' acts"
  then obtain pr rest where pr: "pending_reads s = pr # rest"
    by (auto simp: do_read_step_def split: list.splits)
  obtain q' off' where q: "read_copy (pr_size pr) (read_queue s) (read_queue_offset s) [] =
      Some (take (pr_size pr) (unread s), q', off')" "queue_ok q' off'"
    "unread_queue q' off' = drop (pr_size pr) (unread s)"
    using copy by blast
  show "rq_ok s' \<and> received_bytes acts @ unread s' = unread s \<and> sent_bytes acts = [] \<and>
      same_but_reads s s' \<and>
      (consumed_since_last_update s + length (unread s) < 2 ^ 32 \<longrightarrow>
        consumed_since_last_update s' + granted acts =
          consumed_since_last_update s + length (received_bytes acts))"
  proof (cases "read_queue s = []")
    case True
    then have "acts = [Post (pr_handler pr) Eof 0 []]" "s' = s\<lparr>pending_reads := rest\<rparr>"
      using it pr by (auto simp: do_read_step_def split: if_splits)
    with assms show ?thesis by (simp add: same_but_reads_def)
  next
    case False
    define n where "n = min (length (unread s)) (pr_size pr)"
    have "consumed_since_last_update s + length (unread s) < 2 ^ 32 \<Longrightarrow>
        unat (word_of_nat (consumed_since_last_update s + n) :: 32 word) = consumed_since_last_update s + n"
      by (rule unat_word32) (simp add: n_def)
    then show ?thesis
      using it pr False q
      by (auto simp: do_read_step_def account_read_def Let_def same_but_reads_def mk_header_def
            frame_types n_def [symmetric] simp del: of_nat_add split: if_splits)
  qed
qed

lemma stream_do_read_ok:
  assumes "rq_ok s"
  shows "\<exists>t acts. stream_do_read s = Some (t, acts) \<and> rq_ok t \<and>
     received_bytes acts @ unread t = unread s \<and> sent_bytes acts = [] \<and> same_but_reads s t \<and>
     do_read_step t = Break \<and>
     (consumed_since_last_update s + length (unread s) < 2 ^ 32 \<longrightarrow>
        consumed_since_last_update t + granted acts =
          consumed_since_last_update s + length (received_bytes acts))"
  using assms
proof (induction s rule: stream_do_read.induct)
  case (1 s)
  show ?case
  proof (cases "do_read_step s")
    case Break
    with "1.prems" show ?thesis by (subst stream_do_read.simps) simp
  next
    case (Iterate s' acts)
    note step = do_read_step_ok(2) [OF "1.prems" Iterate]
    obtain t as where IH: "stream_do_read s' = Some (t, as)" "rq_ok t"
      "received_bytes as @ unread t = unread s'" "sent_bytes as = []" "same_but_reads s' t"
      "do_read_step t = Break"
      "consumed_since_last_update s' + length (unread s') < 2 ^ 32 \<longrightarrow>
        consumed_since_last_update t + granted as =
          consumed_since_last_update s' + length (received_bytes as)"
      using "1.IH" [OF Iterate] step by blast
    have run: "stream_do_read s = Some (t, acts @ as)"
      using Iterate IH(1) by (subst stream_do_read.simps) simp
    have len: "length (received_bytes acts) + length (unread s') = length (unread s)"
      using step by (metis length_append)
    have "same_but_reads s t" using step IH(5) same_but_reads_trans by blast
    moreover have "received_bytes (acts @ as) @ unread t = unread s" using step IH(3) by simp
    moreover have "consumed_since_last_update s + length (unread s) < 2 ^ 32 \<longrightarrow>
        consumed_since_last_update t + granted (acts @ as) =
          consumed_since_last_update s + length (received_bytes (acts @ as))"
      using step IH(7) len by auto
    ultimately show ?thesis using run IH(2,4,6) step by simp
  next
    case Out_of_bounds
    with do_read_step_ok(1) [OF "1.prems"] show ?thesis by simp
  qed
qed

section \<open>Reachable states\<close>

text \<open>
  Everything that can happen to a stream, as one event each; \<open>Ev_session_gone\<close> is the session
  being destroyed. \<open>Session::handle_frame\<close> calls \<open>handle_data\<close> only with a positive length.
\<close>

datatype stream_event =
    Ev_write "bytes list" nat
  | Ev_read bool nat nat
  | Ev_data bytes
  | Ev_window "32 word"
  | Ev_remote_close
  | Ev_close
  | Ev_sent send_cb error_code
  | Ev_session_gone

fun stream_step :: "stream_event \<Rightarrow> mux_stream \<Rightarrow> (mux_stream \<times> stream_action list) option" where
  "stream_step (Ev_write buffers h) s = Some (stream_async_write buffers h s)"
| "stream_step (Ev_read all n h) s = stream_async_read all n h s"
| "stream_step (Ev_data d) s = stream_handle_data d s"
| "stream_step (Ev_window delta) s = Some (stream_handle_window_update delta s)"
| "stream_step Ev_remote_close s = stream_handle_close s"
| "stream_step Ev_close s = Some (stream_close s)"
| "stream_step (Ev_sent cb ec) s = Some (stream_frame_sent cb ec s)"
| "stream_step Ev_session_gone s = Some (s\<lparr>ms_session := False\<rparr>, [])"

fun event_ok :: "stream_event \<Rightarrow> bool" where
  "event_ok (Ev_data d) = (d \<noteq> [])"
| "event_ok _ = True"

fun stream_run :: "stream_event list \<Rightarrow> mux_stream \<Rightarrow> (mux_stream \<times> stream_action list) option" where
  "stream_run [] s = Some (s, [])"
| "stream_run (e # es) s =
     (case stream_step e s of
        None \<Rightarrow> None
      | Some (t, as) \<Rightarrow> map_option (\<lambda>(u, bs). (u, as @ bs)) (stream_run es t))"

inductive stream_reach :: "mux_stream \<Rightarrow> bool" where
  reach_new: "stream_reach (new_stream sid)"
| reach_step: "\<lbrakk>stream_reach s; event_ok e; stream_step e s = Some (t, acts)\<rbrakk> \<Longrightarrow> stream_reach t"

definition stream_inv :: "mux_stream \<Rightarrow> bool" where
  "stream_inv s \<longleftrightarrow>
     (\<not> local_closed s \<longrightarrow> rq_ok s) \<and>
     remote_window_size s \<le> MAX_MESSAGE_SIZE \<and>
     length (pending_reads s) \<le> kMuxStreamMaxPendingReads \<and>
     length (pending_writes s) \<le> kMuxStreamMaxPendingWrites \<and>
     (pending_writes s \<noteq> [] \<longrightarrow> remote_window_size s = 0) \<and>
     do_read_step s = Break"

lemma do_write_step_frame:
  assumes "do_write_step s = Some (s', a)"
  shows "s' = s\<lparr>remote_window_size := remote_window_size s', pending_writes := pending_writes s'\<rparr>
    \<and> remote_window_size s' \<le> remote_window_size s
    \<and> length (pending_writes s') \<le> length (pending_writes s)"
  using assms
  by (auto simp: do_write_step_def Let_def split: list.splits if_splits)

lemma stream_do_write_frame:
  "stream_do_write s = (t, acts) \<Longrightarrow>
     t = s\<lparr>remote_window_size := remote_window_size t, pending_writes := pending_writes t\<rparr> \<and>
     remote_window_size t \<le> remote_window_size s \<and>
     length (pending_writes t) \<le> length (pending_writes s) \<and> do_write_step t = None"
proof (induction s arbitrary: t acts rule: stream_do_write.induct)
  case (1 s)
  show ?case
  proof (cases "do_write_step s")
    case None
    then have "t = s" using "1.prems" by (simp add: stream_do_write.simps)
    with None show ?thesis by simp
  next
    case (Some sa)
    obtain s' a where a: "do_write_step s = Some (s', a)" using Some by (cases sa) auto
    obtain as where run: "stream_do_write s' = (t, as)"
      using "1.prems" a by (subst (asm) stream_do_write.simps) (auto split: prod.splits)
    from "1.IH" [OF a refl run] do_write_step_frame [OF a] show ?thesis
      by (metis (no_types, lifting) le_trans mux_stream.surjective mux_stream.update_convs(4,9))
  qed
qed

lemma do_read_step_cong:
  "\<lbrakk>pending_reads t = pending_reads s; read_queue t = read_queue s;
    read_queue_offset t = read_queue_offset s; remote_closed t = remote_closed s\<rbrakk>
   \<Longrightarrow> (do_read_step t = Break) = (do_read_step s = Break)"
  by (auto simp: do_read_step_def split: list.splits option.splits prod.splits)

lemma do_read_step_frame:
  "do_read_step s = Iterate s' acts \<Longrightarrow>
     same_but_reads s s' \<and> length (pending_reads s') \<le> length (pending_reads s)"
  by (auto simp: do_read_step_def account_read_def Let_def same_but_reads_def
        split: list.splits if_splits option.splits prod.splits)

lemma stream_do_read_frame:
  "stream_do_read s = Some (t, acts) \<Longrightarrow>
     same_but_reads s t \<and> length (pending_reads t) \<le> length (pending_reads s) \<and>
     do_read_step t = Break"
proof (induction s arbitrary: acts rule: stream_do_read.induct)
  case (1 s)
  show ?case
  proof (cases "do_read_step s")
    case Break
    then show ?thesis using "1.prems" by (subst (asm) stream_do_read.simps) simp
  next
    case (Iterate s' as)
    obtain bs where "stream_do_read s' = Some (t, bs)"
      using "1.prems" Iterate by (subst (asm) stream_do_read.simps) auto
    from "1.IH" [OF Iterate this] do_read_step_frame [OF Iterate] show ?thesis
      using same_but_reads_trans le_trans by blast
  next
    case Out_of_bounds
    then show ?thesis using "1.prems" by (subst (asm) stream_do_read.simps) simp
  qed
qed

lemma stream_inv_new: "stream_inv (new_stream sid)"
  by (simp add: stream_inv_def new_stream_def MAX_MESSAGE_SIZE_def kMuxStreamMaxPendingReads_def
        kMuxStreamMaxPendingWrites_def do_read_step_def)

lemma inv_after_write:
  assumes "stream_do_write s = (t, acts)"
    and "\<not> local_closed s \<longrightarrow> rq_ok s" and "remote_window_size s \<le> MAX_MESSAGE_SIZE"
    and "length (pending_reads s) \<le> kMuxStreamMaxPendingReads"
    and "length (pending_writes s) \<le> kMuxStreamMaxPendingWrites"
    and "do_read_step s = Break"
  shows "stream_inv t"
proof -
  note frame = stream_do_write_frame [OF assms(1)]
  then obtain w p where t: "t = s\<lparr>remote_window_size := w, pending_writes := p\<rparr>" by blast
  have "do_read_step t = Break" using do_read_step_cong [of t s] assms(6) t by simp
  then show ?thesis
    using frame assms(2-5) t by (auto simp: stream_inv_def do_write_step_None)
qed

lemma inv_after_read:
  assumes "stream_do_read s = Some (t, acts)"
    and "\<not> local_closed s \<longrightarrow> rq_ok s" and "remote_window_size s \<le> MAX_MESSAGE_SIZE"
    and "length (pending_reads s) \<le> kMuxStreamMaxPendingReads"
    and "length (pending_writes s) \<le> kMuxStreamMaxPendingWrites"
    and "pending_writes s \<noteq> [] \<longrightarrow> remote_window_size s = 0"
  shows "stream_inv t"
proof -
  note frame = stream_do_read_frame [OF assms(1)]
  have "\<not> local_closed s \<Longrightarrow> rq_ok t"
    using stream_do_read_ok [of s] assms(1,2) by auto
  with frame assms show ?thesis
    by (auto simp: stream_inv_def same_but_reads_def)
qed

lemma stream_step_inv:
  assumes "stream_inv s" and "event_ok e" and "stream_step e s = Some (t, acts)"
  shows "stream_inv t"
proof -
  have inv: "\<not> local_closed s \<longrightarrow> rq_ok s" "remote_window_size s \<le> MAX_MESSAGE_SIZE"
    "length (pending_reads s) \<le> kMuxStreamMaxPendingReads"
    "length (pending_writes s) \<le> kMuxStreamMaxPendingWrites"
    "pending_writes s \<noteq> [] \<longrightarrow> remote_window_size s = 0" "do_read_step s = Break"
    using assms(1) by (auto simp: stream_inv_def)
  show ?thesis
  proof (cases e)
    case (Ev_write buffers h)
    show ?thesis
    proof (cases "kMuxStreamMaxPendingWrites \<le> length (pending_writes s)")
      case True
      with Ev_write assms show ?thesis by (simp add: stream_async_write_def)
    next
      case False
      let ?s = "s\<lparr>pending_writes := pending_writes s @ [\<lparr>pw_buffers = buffers, pw_handler = h\<rparr>]\<rparr>"
      have "stream_do_write ?s = (t, acts)"
        using Ev_write assms(3) False by (simp add: stream_async_write_def)
      moreover have "do_read_step ?s = Break" using do_read_step_cong [of ?s s] inv(6) by simp
      ultimately show ?thesis using inv False by (intro inv_after_write [of ?s]) auto
    qed
  next
    case (Ev_read all n h)
    show ?thesis
    proof (cases "kMuxStreamMaxPendingReads \<le> length (pending_reads s)")
      case True
      with Ev_read assms show ?thesis by (simp add: stream_async_read_def)
    next
      case False
      with Ev_read assms(3) inv show ?thesis
        by (auto simp: stream_async_read_def intro!: inv_after_read)
    qed
  next
    case (Ev_data d)
    then have "\<not> local_closed s \<longrightarrow> queue_ok (read_queue s @ [d]) (read_queue_offset s)"
      using inv(1) assms(2) by (simp add: queue_ok_snoc)
    with Ev_data assms(3) inv show ?thesis
      by (auto simp: stream_handle_data_def intro!: inv_after_read)
  next
    case (Ev_window delta)
    let ?s = "s\<lparr>remote_window_size := min (remote_window_size s + unat delta) MAX_MESSAGE_SIZE\<rparr>"
    have "stream_do_write ?s = (t, acts)"
      using Ev_window assms(3) by (simp add: stream_handle_window_update_def)
    moreover have "do_read_step ?s = Break" using do_read_step_cong [of ?s s] inv(6) by simp
    ultimately show ?thesis using inv by (intro inv_after_write [of ?s]) auto
  next
    case Ev_remote_close
    with assms(3) inv show ?thesis
      by (auto simp: stream_handle_close_def intro!: inv_after_read)
  next
    case Ev_close
    with assms inv show ?thesis
      by (auto simp: stream_close_def Let_def stream_inv_def do_read_step_def split: if_splits)
  next
    case (Ev_sent cb ec)
    have "do_read_step (s\<lparr>pending_writes := []\<rparr>) = Break"
      using do_read_step_cong [of "s\<lparr>pending_writes := []\<rparr>" s] inv(6) by simp
    with Ev_sent assms inv show ?thesis
      by (cases cb) (auto simp: stream_inv_def split: if_splits)
  next
    case Ev_session_gone
    have "do_read_step (s\<lparr>ms_session := False\<rparr>) = Break"
      using do_read_step_cong [of "s\<lparr>ms_session := False\<rparr>" s] inv(6) by simp
    with Ev_session_gone assms inv show ?thesis by (auto simp: stream_inv_def)
  qed
qed

lemma stream_reach_inv: "stream_reach s \<Longrightarrow> stream_inv s"
  by (induction rule: stream_reach.induct) (auto intro: stream_inv_new stream_step_inv)

lemma stream_step_defined:
  assumes "rq_ok s" and "event_ok e"
  shows "stream_step e s \<noteq> None"
proof (cases e)
  case (Ev_read all n h)
  let ?s = "s\<lparr>pending_reads := pending_reads s @
      [\<lparr>pr_size = n, pr_handler = h, pr_read_all = all\<rparr>]\<rparr>"
  have "rq_ok ?s" using assms by simp
  from stream_do_read_ok [OF this] have "stream_do_read ?s \<noteq> None" by auto
  with Ev_read show ?thesis by (simp add: stream_async_read_def)
next
  case (Ev_data d)
  with assms have "rq_ok (s\<lparr>read_queue := read_queue s @ [d]\<rparr>)" by (simp add: queue_ok_snoc)
  from stream_do_read_ok [OF this] Ev_data show ?thesis by (auto simp: stream_handle_data_def)
next
  case Ev_remote_close
  have "rq_ok (s\<lparr>remote_closed := True\<rparr>)" using assms by simp
  from stream_do_read_ok [OF this] Ev_remote_close show ?thesis
    by (auto simp: stream_handle_close_def)
qed simp_all

section \<open>The stream as a byte source\<close>

lemma read_some_nonempty:
  assumes "rq_ok s" and "pending_reads s = []" and "read_queue s \<noteq> []"
  shows "\<exists>t acts. stream_async_read False n h s = Some (t, acts) \<and>
     received_bytes acts = take n (unread s) \<and> unread t = drop n (unread s) \<and>
     rq_ok t \<and> pending_reads t = []"
proof -
  let ?s = "s\<lparr>pending_reads := [\<lparr>pr_size = n, pr_handler = h, pr_read_all = False\<rparr>]\<rparr>"
  obtain q off where q: "read_copy n (read_queue s) (read_queue_offset s) [] =
      Some (take n (unread s), q, off)" "queue_ok q off" "unread_queue q off = drop n (unread s)"
    using read_copy_spec [OF assms(1), of n "[]"] by auto
  let ?t = "s\<lparr>pending_reads := [], read_queue := q, read_queue_offset := off\<rparr>"
  obtain t acts where acc: "account_read (length (take n (unread s))) ?t = (t, acts)" by force
  have t: "pending_reads t = []" "read_queue t = q" "read_queue_offset t = off"
    and acts: "received_bytes acts = []"
    using acc by (auto simp: account_read_def Let_def split: if_splits)
  have first: "do_read_step ?s = Iterate t (Post h Success (length (take n (unread s))) (take n (unread s)) # acts)"
    using assms(3) q(1) acc by (simp add: do_read_step_def)
  have last: "do_read_step t = Break" using t(1) by (simp add: do_read_step_def)
  have "stream_do_read ?s =
      Some (t, (Post h Success (length (take n (unread s))) (take n (unread s)) # acts) @ check_cleanup t)"
    by (subst stream_do_read.simps) (simp add: first, subst stream_do_read.simps, simp add: last)
  then show ?thesis
    using assms(2) q t acts by (simp add: stream_async_read_def kMuxStreamMaxPendingReads_def)
qed

definition mux_rd :: "mux_stream \<Rightarrow> nat \<Rightarrow> bytes \<times> mux_stream" where
  "mux_rd s n =
     (if read_queue s = [] then ([], s)
      else (case stream_async_read False n 0 s of
              None \<Rightarrow> ([], s) | Some (t, acts) \<Rightarrow> (received_bytes acts, t)))"

interpretation mux_source:
  byte_source unread "\<lambda>s. rq_ok s \<and> pending_reads s = []" mux_rd
proof
  fix s n
  assume inv: "rq_ok s \<and> pending_reads s = []"
  show "rq_ok (snd (mux_rd s n)) \<and> pending_reads (snd (mux_rd s n)) = []"
    "unread s = fst (mux_rd s n) @ unread (snd (mux_rd s n))"
    "length (fst (mux_rd s n)) \<le> n"
    using inv read_some_nonempty [of s n 0]
    by (auto simp: mux_rd_def split: option.splits)
  assume n: "0 < n" and some: "unread s \<noteq> []"
  have q: "read_queue s \<noteq> []" using some by auto
  obtain t acts where "stream_async_read False n 0 s = Some (t, acts)"
    "received_bytes acts = take n (unread s)"
    using inv q read_some_nonempty [of s n 0] by blast
  with n some q show "fst (mux_rd s n) \<noteq> []" by (simp add: mux_rd_def)
qed

section \<open>Properties\<close>

text \<open>
  C13: In every reachable state of a stream: the peer's window never exceeds the largest frame
  the receiver accepts; both pending queues stay within 1024 entries; a write waits only while
  the window is exhausted; and a read waits only while the peer has not closed and either
  nothing is buffered or an exact-length read lacks bytes.
\<close>

theorem mux_stream_invariant:
  assumes "stream_reach s"
  shows "remote_window_size s \<le> MAX_MESSAGE_SIZE \<and>
     length (pending_reads s) \<le> 1024 \<and> length (pending_writes s) \<le> 1024 \<and>
     (pending_writes s \<noteq> [] \<longrightarrow> remote_window_size s = 0) \<and>
     (pending_reads s = pr # prs \<longrightarrow> \<not> remote_closed s \<and>
        (read_queue s = [] \<or>
         pr_read_all pr \<and>
         sub64 (sum_list (map length (read_queue s))) (read_queue_offset s) < pr_size pr))"
proof -
  have "stream_inv s" using assms by (rule stream_reach_inv)
  then show ?thesis
    by (auto simp: stream_inv_def kMuxStreamMaxPendingReads_def kMuxStreamMaxPendingWrites_def
          do_read_step_def split: if_splits option.splits prod.splits)
qed

lemma reach_example: "stream_reach (fst (the (stream_step (Ev_read True 4 1) (new_stream 3))))"
proof -
  have "stream_step (Ev_read True 4 1) (new_stream 3) =
      Some (new_stream 3\<lparr>pending_reads := [\<lparr>pr_size = 4, pr_handler = 1, pr_read_all = True\<rparr>]\<rparr>, [])"
    by (simp add: stream_async_read_def new_stream_def kMuxStreamMaxPendingReads_def
          stream_do_read.simps do_read_step_def check_cleanup_def)
  then show ?thesis
    using reach_step [OF reach_new [of 3], of "Ev_read True 4 1"] by simp
qed

theorem mux_stream_invariant_witness:
  "remote_window_size (fst (the (stream_step (Ev_read True 4 1) (new_stream 3)))) \<le> MAX_MESSAGE_SIZE"
  using mux_stream_invariant [OF reach_example] by simp

text \<open>
  C14: As long as a stream has not been closed locally, no event makes its read loop copy outside
  a received block: every step from such a reachable state is defined.
\<close>

theorem open_stream_memory_safe:
  assumes "stream_reach s" and "\<not> local_closed s" and "event_ok e"
  shows "\<exists>t acts. stream_step e s = Some (t, acts)"
proof -
  have "rq_ok s" using stream_reach_inv [OF assms(1)] assms(2) by (simp add: stream_inv_def)
  from stream_step_defined [OF this assms(3)] show ?thesis by auto
qed

theorem open_stream_memory_safe_witness:
  "\<exists>t acts. stream_step (Ev_data [1, 2, 3]) (new_stream 5) = Some (t, acts)"
  by (rule open_stream_memory_safe [OF reach_new]) (simp_all add: new_stream_def)

text \<open>
  After a local close this protection is gone: \<open>close()\<close> empties the read queue but keeps the
  read offset, and neither \<open>async_read_some\<close> nor \<open>handle_data\<close> tests \<open>local_closed_\<close>. If five
  of ten buffered bytes had been read when the stream was closed, a read issued afterwards that
  meets a block of three bytes copies from outside that block.
\<close>

theorem read_after_close_out_of_bounds:
  "stream_run
     [Ev_data [0, 1, 2, 3, 4, 5, 6, 7, 8, 9], Ev_read False 5 1, Ev_close, Ev_read False 5 2]
     (new_stream 2) \<noteq> None \<and>
   stream_run
     [Ev_data [0, 1, 2, 3, 4, 5, 6, 7, 8, 9], Ev_read False 5 1, Ev_close, Ev_read False 5 2,
      Ev_data [10, 11, 12]]
     (new_stream 2) = None"
  by (simp add: new_stream_def stream_handle_data_def stream_async_read_def stream_do_read.simps
        do_read_step_def kMuxStreamMaxPendingReads_def check_cleanup_def read_copy.simps
        account_read_def window_update_threshold_def stream_close_def sub64_def Let_def)

text \<open>
  The write loop on a live session: the payloads of the data frames it emits, followed by the
  bytes still pending, are exactly the bytes that were pending, in order; each frame carries its
  payload's length, is not empty and is within the receiver's limit; the window shrinks by what
  was sent and never below zero; and the loop stops only when nothing is pending or the window
  is used up.
\<close>

theorem do_write_sends_in_order:
  assumes "ms_session s" and "stream_do_write s = (t, acts)"
  shows "sent_bytes acts @ pending_bytes t = pending_bytes s \<and>
     list_all (data_frame_ok s) acts \<and>
     remote_window_size t + length (sent_bytes acts) = remote_window_size s \<and>
     (pending_writes t = [] \<or> remote_window_size t = 0)"
  using stream_do_write_sent [OF assms] by simp

theorem do_write_sends_in_order_witness:
  "sent_bytes (snd (stream_do_write
     (new_stream 1\<lparr>pending_writes := [\<lparr>pw_buffers = [[1, 2], [3]], pw_handler = 9\<rparr>],
                   remote_window_size := 2\<rparr>))) = [1, 2]"
proof -
  let ?s = "new_stream 1\<lparr>pending_writes := [\<lparr>pw_buffers = [[1, 2], [3]], pw_handler = 9\<rparr>],
                   remote_window_size := 2\<rparr>"
  have "ms_session ?s" by (simp add: new_stream_def)
  from do_write_sends_in_order [OF this, of "fst (stream_do_write ?s)" "snd (stream_do_write ?s)"]
  have eq: "sent_bytes (snd (stream_do_write ?s)) @ pending_bytes (fst (stream_do_write ?s)) = [1, 2, 3]"
    and w: "remote_window_size (fst (stream_do_write ?s)) + length (sent_bytes (snd (stream_do_write ?s))) = 2"
    and stop: "pending_writes (fst (stream_do_write ?s)) = [] \<or> remote_window_size (fst (stream_do_write ?s)) = 0"
    by (simp_all add: pending_bytes_def)
  have "pending_bytes (fst (stream_do_write ?s)) \<noteq> []" using eq w by auto
  with stop have "remote_window_size (fst (stream_do_write ?s)) = 0" by (auto simp: pending_bytes_def)
  with w have "length (sent_bytes (snd (stream_do_write ?s))) = 2" by simp
  with arg_cong [OF eq, of "take 2"] show ?thesis by simp
qed

text \<open>The same stream, with every pending write gathered into one buffer.\<close>

definition gathered :: "mux_stream \<Rightarrow> mux_stream" where
  "gathered s = s\<lparr>pending_writes :=
     map (\<lambda>pw. pw\<lparr>pw_buffers := [concat (pw_buffers pw)]\<rparr>) (pending_writes s)\<rparr>"

lemma do_write_step_gathered:
  "do_write_step (gathered s) = map_option (\<lambda>(t, a). (gathered t, a)) (do_write_step s)"
proof (cases "pending_writes s")
  case Nil
  then show ?thesis by (simp add: do_write_step_def gathered_def)
next
  case (Cons pw rest)
  have slice: "concat (slice_buffers n [concat bs]) = concat (slice_buffers n bs)" for n bs
    unfolding concat_slice_buffers by simp
  have skip: "n < length (concat bs) \<Longrightarrow> skip_buffers n [concat bs] = [concat (skip_buffers n bs)]" for n bs
    by (simp add: concat_skip_buffers)
  show ?thesis
    using Cons by (auto simp: do_write_step_def gathered_def Let_def sum_list_lengths slice skip
        simp del: slice_buffers.simps skip_buffers.simps)
qed

text \<open>
  C34: Scatter-gather is equivalent to writing one buffer: a stream whose writes are lists of buffers
  emits the same frames and completions, in the same order, as one whose writes are the
  concatenations.
\<close>

theorem scatter_gather_equivalent:
  "stream_do_write (gathered s) = map_prod gathered id (stream_do_write s)"
proof (induction s rule: stream_do_write.induct)
  case (1 s)
  show ?case
  proof (cases "do_write_step s")
    case None
    then show ?thesis
      using do_write_step_gathered [of s] by (subst (1 2) stream_do_write.simps) simp
  next
    case (Some r)
    obtain s' a where r: "r = (s', a)" by force
    obtain t as where t: "stream_do_write s' = (t, as)" by force
    from 1 [OF Some r [symmetric]] t have "stream_do_write (gathered s') = (gathered t, as)" by simp
    with Some r t do_write_step_gathered [of s] show ?thesis
      by (subst (1 2) stream_do_write.simps) simp
  qed
qed

text \<open>
  Reads deliver the received bytes in order, without loss or duplication: over any sequence of
  buffer sizes, what the reads return followed by what stays buffered is what was buffered.
\<close>

theorem mux_reads_in_order:
  assumes "rq_ok s" and "pending_reads s = []"
  shows "concat (fst (read_many mux_rd s ns)) @ unread (snd (read_many mux_rd s ns)) = unread s"
  using mux_source.read_many_in_order [of s ns] assms by simp

theorem mux_reads_in_order_witness:
  "concat (fst (read_many mux_rd (new_stream 1\<lparr>read_queue := [[1, 2], [3, 4, 5]]\<rparr>) [3, 1])) @
   unread (snd (read_many mux_rd (new_stream 1\<lparr>read_queue := [[1, 2], [3, 4, 5]]\<rparr>) [3, 1])) =
   [1, 2, 3, 4, 5]"
  using mux_reads_in_order [of "new_stream 1\<lparr>read_queue := [[1, 2], [3, 4, 5]]\<rparr>" "[3, 1]"]
  by (simp add: new_stream_def queue_ok_def unread_queue_def)

text \<open>The events that only the peer causes, and that they leave buffered data alone.\<close>

fun peer_event :: "stream_event \<Rightarrow> bool" where
  "peer_event (Ev_data d) = True"
| "peer_event (Ev_window delta) = True"
| "peer_event Ev_remote_close = True"
| "peer_event _ = False"

lemma stream_do_write_no_remove:
  "stream_do_write s = (t, acts) \<Longrightarrow> Remove_stream sid \<notin> set acts"
proof (induction s arbitrary: t acts rule: stream_do_write.induct)
  case (1 s)
  show ?case
  proof (cases "do_write_step s")
    case None
    then show ?thesis using "1.prems" by (simp add: stream_do_write.simps)
  next
    case (Some sa)
    obtain s' a where a: "do_write_step s = Some (s', a)" using Some by (cases sa) auto
    obtain as where run: "stream_do_write s' = (t, as)" and acts: "acts = a # as"
      using "1.prems" a by (subst (asm) stream_do_write.simps) (auto split: prod.splits)
    have "a \<noteq> Remove_stream sid"
      using a by (auto simp: do_write_step_def Let_def split: list.splits if_splits)
    with "1.IH" [OF a refl run] acts show ?thesis by simp
  qed
qed

lemma peer_event_keeps_queue:
  assumes "peer_event e" and "read_queue s \<noteq> []" and "pending_reads s = []"
    and "stream_step e s = Some (t, acts)"
  shows "read_queue t \<noteq> [] \<and> pending_reads t = [] \<and> Remove_stream sid \<notin> set acts"
proof (cases e)
  case (Ev_window delta)
  let ?s = "s\<lparr>remote_window_size := min (remote_window_size s + unat delta) MAX_MESSAGE_SIZE\<rparr>"
  have run: "stream_do_write ?s = (t, acts)"
    using Ev_window assms(4) by (simp add: stream_handle_window_update_def)
  obtain w p where "t = ?s\<lparr>remote_window_size := w, pending_writes := p\<rparr>"
    using stream_do_write_frame [OF run] by blast
  with stream_do_write_no_remove [OF run] assms(2,3) show ?thesis by simp
qed (use assms in \<open>auto simp: stream_handle_data_def stream_handle_close_def stream_do_read.simps
        do_read_step_def check_cleanup_def\<close>)

text \<open>
  A stream that was closed locally and then received data is never cleaned up: with a block
  left in the read queue and no read pending, no further data, window update or remote close
  makes it call \<open>remove_stream\<close>.
\<close>

theorem closed_stream_with_data_leaks:
  assumes "list_all peer_event es" and "read_queue s \<noteq> []" and "pending_reads s = []"
    and "stream_run es s = Some (t, acts)"
  shows "Remove_stream sid \<notin> set acts"
  using assms
proof (induction es arbitrary: s acts)
  case Nil
  then show ?case by simp
next
  case (Cons e es)
  then obtain u as bs where step: "stream_step e s = Some (u, as)"
    and rest: "stream_run es u = Some (t, bs)" and acts: "acts = as @ bs"
    by (auto split: option.splits prod.splits)
  from Cons.prems step have "read_queue u \<noteq> [] \<and> pending_reads u = [] \<and> Remove_stream sid \<notin> set as"
    by (intro peer_event_keeps_queue) auto
  with Cons.IH [OF _ _ _ rest] Cons.prems(1) acts show ?case by auto
qed

theorem closed_stream_with_data_leaks_witness:
  "stream_run [Ev_close, Ev_data [1]] (new_stream 2) =
     Some (fst (the (stream_run [Ev_close, Ev_data [1]] (new_stream 2))),
           [Send_frame (mk_header Type_Data Flags_FIN 2 0) [] No_cb]) \<and>
   Remove_stream 2 \<notin> set (snd (the (stream_run [Ev_remote_close]
     (fst (the (stream_run [Ev_close, Ev_data [1]] (new_stream 2)))))))"
proof -
  let ?s = "fst (the (stream_run [Ev_close, Ev_data [1]] (new_stream 2)))"
  have run: "stream_run [Ev_close, Ev_data [1]] (new_stream 2) =
      Some (?s, [Send_frame (mk_header Type_Data Flags_FIN 2 0) [] No_cb])"
    and q: "read_queue ?s \<noteq> []" "pending_reads ?s = []"
    by (simp_all add: new_stream_def stream_close_def stream_handle_data_def stream_do_read.simps
          do_read_step_def check_cleanup_def abort_pending_def Let_def)
  have close: "stream_run [Ev_remote_close] ?s = Some (?s\<lparr>remote_closed := True\<rparr>, [])"
    using q by (simp add: stream_handle_close_def stream_do_read.simps do_read_step_def check_cleanup_def)
  have "Remove_stream 2 \<notin> set []"
    by (rule closed_stream_with_data_leaks [OF _ q close]) simp
  with run close show ?thesis by simp
qed

text \<open>
  An exact-length read (\<open>async_read\<close>) that the peer's close leaves short completes with
  success and the bytes that were there, not with an end-of-file error.
\<close>

theorem exact_read_short_on_close:
  assumes "rq_ok s" and "read_queue s \<noteq> []" and "length (unread s) < n"
    and "pending_reads s = [\<lparr>pr_size = n, pr_handler = h, pr_read_all = True\<rparr>]"
  shows "\<exists>t acts. stream_handle_close s =
     Some (t, Post h Success (length (unread s)) (unread s) # acts)"
proof -
  obtain q off where q: "read_copy n (read_queue s) (read_queue_offset s) [] =
      Some (unread s, q, off)"
    using read_copy_spec [OF assms(1), of n "[]"] assms(3) by auto
  let ?t = "s\<lparr>remote_closed := True, pending_reads := [], read_queue := q, read_queue_offset := off\<rparr>"
  obtain t acts where acc: "account_read (length (unread s)) ?t = (t, acts)" by force
  have "pending_reads t = []"
    using acc by (auto simp: account_read_def Let_def split: if_splits)
  then have last: "do_read_step t = Break" by (simp add: do_read_step_def)
  have first: "do_read_step (s\<lparr>remote_closed := True\<rparr>) =
      Iterate t (Post h Success (length (unread s)) (unread s) # acts)"
    using assms(2,4) q acc by (simp add: do_read_step_def)
  show ?thesis
    by (simp add: stream_handle_close_def, subst stream_do_read.simps, simp add: first,
        subst stream_do_read.simps, simp add: last)
qed

theorem exact_read_short_on_close_witness:
  "\<exists>t acts. stream_handle_close
     (new_stream 1\<lparr>read_queue := [[7]],
        pending_reads := [\<lparr>pr_size = 4, pr_handler = 3, pr_read_all = True\<rparr>]\<rparr>) =
     Some (t, Post 3 Success 1 [7] # acts)"
  using exact_read_short_on_close [of "new_stream 1\<lparr>read_queue := [[7]],
        pending_reads := [\<lparr>pr_size = 4, pr_handler = 3, pr_read_all = True\<rparr>]\<rparr>" 4 3]
  by (simp add: new_stream_def queue_ok_def unread_queue_def)

end
