(* ===== verification/Mux_Flow.thy ===== *)
theory Mux_Flow
  imports Mux_Stream
begin

text \<open>
  Two \<open>MuxStream\<close> objects with the same identifier, one at each end of a session, and the two
  byte pipes between them. \<open>Session::async_send_frame\<close> keeps the order of the frames of a
  stream, and the frames are cut apart again by the reader, so each direction is a queue of
  frames. The applications write and read at both ends; neither end closes. The step relation
  interleaves both ends freely.

  The result is end-to-end: bytes arrive in order, the credit of each direction is conserved, the
  receiver never buffers more than the initial window, and a drained connection never leaves a
  writer waiting.
\<close>

section \<open>The system\<close>

type_synonym frame = "Header \<times> bytes"

fun frames_of :: "stream_action list \<Rightarrow> frame list" where
  "frames_of [] = []"
| "frames_of (Send_frame h body cb # as) = (h, body) # frames_of as"
| "frames_of (_ # as) = frames_of as"

record flow =
  fl_a :: mux_stream
  fl_b :: mux_stream
  wire_ab :: "frame list"
  wire_ba :: "frame list"
  put_a :: bytes
  put_b :: bytes
  got_a :: bytes
  got_b :: bytes

definition swap :: "flow \<Rightarrow> flow" where
  "swap f = \<lparr>fl_a = fl_b f, fl_b = fl_a f, wire_ab = wire_ba f, wire_ba = wire_ab f,
     put_a = put_b f, put_b = put_a f, got_a = got_b f, got_b = got_a f\<rparr>"

definition flow_init :: "32 word \<Rightarrow> flow" where
  "flow_init sid = \<lparr>fl_a = new_stream sid, fl_b = new_stream sid, wire_ab = [], wire_ba = [],
     put_a = [], put_b = [], got_a = [], got_b = []\<rparr>"

text \<open>The dispatch of \<open>Session::handle_frame\<close> for a frame of a stream that is registered.\<close>

definition frame_event :: "frame \<Rightarrow> stream_event option" where
  "frame_event fr =
     (case fr of (h, body) \<Rightarrow>
        if h_type h = Type_Data then (if body = [] then None else Some (Ev_data body))
        else if h_type h = Type_WindowUpdate then Some (Ev_window (h_length h))
        else None)"

fun app_event :: "stream_event \<Rightarrow> bool" where
  "app_event (Ev_write bs h) = True"
| "app_event (Ev_read all n h) = True"
| "app_event _ = False"

text \<open>What a write adds to the bytes the stream has accepted: nothing when it is refused.\<close>

fun accepted :: "stream_event \<Rightarrow> mux_stream \<Rightarrow> bytes" where
  "accepted (Ev_write bs h) s =
     (if kMuxStreamMaxPendingWrites \<le> length (pending_writes s) then [] else concat bs)"
| "accepted _ s = []"

definition after_step :: "stream_event \<Rightarrow> mux_stream \<times> stream_action list \<Rightarrow> flow \<Rightarrow> flow" where
  "after_step e r f =
     f\<lparr>fl_a := fst r, wire_ab := wire_ab f @ frames_of (snd r),
       put_a := put_a f @ accepted e (fl_a f), got_a := got_a f @ received_bytes (snd r)\<rparr>"

inductive flow_step :: "flow \<Rightarrow> flow \<Rightarrow> bool" where
  app: "\<lbrakk>app_event e; stream_step e (fl_a f) = Some r\<rbrakk> \<Longrightarrow> flow_step f (after_step e r f)"
| deliver: "\<lbrakk>wire_ba f = fr # rest; frame_event fr = Some e; stream_step e (fl_a f) = Some r\<rbrakk> \<Longrightarrow>
    flow_step f (after_step e r (f\<lparr>wire_ba := rest\<rparr>))"
| ignore: "\<lbrakk>wire_ba f = fr # rest; frame_event fr = None\<rbrakk> \<Longrightarrow> flow_step f (f\<lparr>wire_ba := rest\<rparr>)"
| other_end: "flow_step (swap f) (swap g) \<Longrightarrow> flow_step f g"

inductive flow_reach :: "flow \<Rightarrow> bool" where
  flow_start: "flow_reach (flow_init sid)"
| flow_next: "\<lbrakk>flow_reach f; flow_step f g\<rbrakk> \<Longrightarrow> flow_reach g"

section \<open>Conservation\<close>

fun wire_data :: "frame list \<Rightarrow> bytes" where
  "wire_data [] = []"
| "wire_data ((h, body) # fs) = (if h_type h = Type_Data then body else []) @ wire_data fs"

fun wire_credit :: "frame list \<Rightarrow> nat" where
  "wire_credit [] = 0"
| "wire_credit ((h, body) # fs) =
     (if h_type h = Type_WindowUpdate then unat (h_length h) else 0) + wire_credit fs"

lemma wire_data_append [simp]: "wire_data (fs @ gs) = wire_data fs @ wire_data gs"
  by (induction fs rule: wire_data.induct) auto

lemma wire_credit_append [simp]: "wire_credit (fs @ gs) = wire_credit fs + wire_credit gs"
  by (induction fs rule: wire_credit.induct) auto

lemma wire_data_frames [simp]: "wire_data (frames_of acts) = sent_bytes acts"
  by (induction acts rule: frames_of.induct) auto

lemma wire_credit_frames [simp]: "wire_credit (frames_of acts) = granted acts"
  by (induction acts rule: frames_of.induct) auto

text \<open>The initial window, and the credit of the direction from end a to end b.\<close>

definition initial_window :: nat where "initial_window = 128 * 1024"

definition live :: "mux_stream \<Rightarrow> bool" where
  "live s \<longleftrightarrow> ms_session s \<and> \<not> local_closed s \<and> \<not> remote_closed s \<and> rq_ok s \<and>
     consumed_since_last_update s < window_update_threshold \<and>
     (pending_writes s \<noteq> [] \<longrightarrow> remote_window_size s = 0)"

definition credit :: "flow \<Rightarrow> nat" where
  "credit f = remote_window_size (fl_a f) + length (wire_data (wire_ab f)) +
     length (unread (fl_b f)) + consumed_since_last_update (fl_b f) + wire_credit (wire_ba f)"

definition dir_inv :: "flow \<Rightarrow> bool" where
  "dir_inv f \<longleftrightarrow> credit f = initial_window \<and>
     put_a f = got_b f @ unread (fl_b f) @ wire_data (wire_ab f) @ pending_bytes (fl_a f)"

definition flow_inv :: "flow \<Rightarrow> bool" where
  "flow_inv f \<longleftrightarrow> live (fl_a f) \<and> live (fl_b f) \<and> dir_inv f \<and> dir_inv (swap f)"

lemma swap_swap [simp]: "swap (swap f) = f"
  by (simp add: swap_def)

lemma flow_inv_swap [simp]: "flow_inv (swap f) = flow_inv f"
  by (auto simp: flow_inv_def) (simp_all add: swap_def)

lemma flow_inv_init: "flow_inv (flow_init sid)"
  by (simp add: flow_inv_def dir_inv_def credit_def live_def flow_init_def swap_def new_stream_def
        initial_window_def window_update_threshold_def pending_bytes_def)

subsection \<open>Effects of one end's step\<close>

lemma do_write_step_effects:
  assumes "do_write_step s = Some (s', a)"
  shows "received_bytes [a] = [] \<and> granted [a] = 0"
  using assms
  by (auto simp: do_write_step_def Let_def mk_header_def frame_types split: list.splits if_splits)

lemma stream_do_write_effects:
  "stream_do_write s = (t, acts) \<Longrightarrow> received_bytes acts = [] \<and> granted acts = 0"
proof (induction s arbitrary: t acts rule: stream_do_write.induct)
  case (1 s)
  show ?case
  proof (cases "do_write_step s")
    case None
    then show ?thesis using "1.prems" by (simp add: stream_do_write.simps)
  next
    case (Some sa)
    obtain s' a where a: "do_write_step s = Some (s', a)" using Some by (cases sa) auto
    obtain as where run: "stream_do_write s' = (t, as)" and acts: "acts = a # as"
      using "1.prems" a by (subst (asm) stream_do_write.simps) (auto split: prod.splits)
    have "received_bytes ([a] @ as) = [] \<and> granted ([a] @ as) = 0"
      using do_write_step_effects [OF a] "1.IH" [OF a refl run]
      unfolding received_bytes_append granted_append by simp
    then show ?thesis using acts by simp
  qed
qed

lemma do_read_step_threshold:
  "\<lbrakk>do_read_step s = Iterate s' acts; ms_session s;
    consumed_since_last_update s < window_update_threshold\<rbrakk>
   \<Longrightarrow> consumed_since_last_update s' < window_update_threshold \<and> ms_session s'"
  by (auto simp: do_read_step_def account_read_def Let_def window_update_threshold_def
        split: list.splits if_splits option.splits prod.splits)

lemma stream_do_read_threshold:
  "\<lbrakk>stream_do_read s = Some (t, acts); ms_session s;
    consumed_since_last_update s < window_update_threshold\<rbrakk>
   \<Longrightarrow> consumed_since_last_update t < window_update_threshold"
proof (induction s arbitrary: acts rule: stream_do_read.induct)
  case (1 s)
  show ?case
  proof (cases "do_read_step s")
    case Break
    then show ?thesis using "1.prems" by (subst (asm) stream_do_read.simps) simp
  next
    case (Iterate s' as)
    obtain bs where run: "stream_do_read s' = Some (t, bs)"
      using "1.prems"(1) Iterate by (subst (asm) stream_do_read.simps) auto
    from do_read_step_threshold [OF Iterate] "1.prems" "1.IH" [OF Iterate run] show ?thesis
      by blast
  next
    case Out_of_bounds
    then show ?thesis using "1.prems" by (subst (asm) stream_do_read.simps) simp
  qed
qed

text \<open>
  What a step of a live stream does to the quantities of the invariant: \<open>input\<close> is the data the
  event brings, \<open>gain\<close> the window it brings.
\<close>

fun input :: "stream_event \<Rightarrow> bytes" where
  "input (Ev_data d) = d"
| "input _ = []"

fun gain :: "stream_event \<Rightarrow> nat" where
  "gain (Ev_window delta) = unat delta"
| "gain _ = 0"

definition balanced :: "stream_event \<Rightarrow> mux_stream \<Rightarrow> mux_stream \<Rightarrow> stream_action list \<Rightarrow> bool" where
  "balanced e s t acts \<longleftrightarrow> live t \<and>
     received_bytes acts @ unread t = unread s @ input e \<and>
     sent_bytes acts @ pending_bytes t = pending_bytes s @ accepted e s \<and>
     remote_window_size t + length (sent_bytes acts) = remote_window_size s + gain e \<and>
     consumed_since_last_update t + granted acts =
       consumed_since_last_update s + length (received_bytes acts)"

lemma balanced_write:
  assumes "live s"
    and "stream_do_write (s\<lparr>pending_writes := p, remote_window_size := w\<rparr>) = (t, acts)"
    and "w = remote_window_size s + gain e" and "input e = []"
    and "concat (map (\<lambda>pw. concat (pw_buffers pw)) p) = pending_bytes s @ accepted e s"
  shows "balanced e s t acts"
proof -
  let ?s = "s\<lparr>pending_writes := p, remote_window_size := w\<rparr>"
  have sess: "ms_session ?s" using assms(1) by (simp add: live_def)
  have wr: "sent_bytes acts @ pending_bytes t = pending_bytes ?s"
    "remote_window_size t + length (sent_bytes acts) = remote_window_size ?s"
    "pending_writes t = [] \<or> remote_window_size t = 0"
    by (fact stream_do_write_sent [OF sess assms(2)])+
  obtain w' p' where "t = ?s\<lparr>remote_window_size := w', pending_writes := p'\<rparr>"
    using stream_do_write_frame [OF assms(2)] by blast
  then have t: "t = s\<lparr>pending_writes := p', remote_window_size := w'\<rparr>" by simp
  have "live t" using assms(1) wr(3) t by (auto simp: live_def)
  moreover have "pending_bytes ?s = pending_bytes s @ accepted e s"
    using assms(5) by (simp add: pending_bytes_def)
  ultimately show ?thesis
    using wr assms(3,4) t stream_do_write_effects [OF assms(2)]
    by (simp add: balanced_def)
qed

lemma balanced_read:
  assumes "live s" and "stream_do_read s' = Some (t, acts)"
    and "rq_ok s'" "unread s' = unread s @ input e" "same_but_reads s s'"
    "consumed_since_last_update s' = consumed_since_last_update s"
    and "gain e = 0" "accepted e s = []"
    and "length (unread s @ input e) \<le> initial_window"
  shows "balanced e s t acts"
proof -
  have frame: "same_but_reads s t"
    using stream_do_read_frame [OF assms(2)] assms(5) same_but_reads_trans by blast
  have sess: "ms_session s'" "consumed_since_last_update s' < window_update_threshold"
    using assms(1,5,6) by (auto simp: live_def same_but_reads_def)
  have "consumed_since_last_update s' + length (unread s') < 2 ^ 32"
    using sess(2) assms(4,9) by (simp add: window_update_threshold_def initial_window_def)
  then have rd: "rq_ok t" "received_bytes acts @ unread t = unread s'" "sent_bytes acts = []"
    "consumed_since_last_update t + granted acts =
       consumed_since_last_update s' + length (received_bytes acts)"
    using stream_do_read_ok [OF assms(3)] assms(2) by auto
  have "live t"
    using assms(1) frame rd(1) stream_do_read_threshold [OF assms(2) sess]
    by (simp add: live_def same_but_reads_def)
  then show ?thesis
    using rd assms(4,6-8) frame by (simp add: balanced_def pending_bytes_def same_but_reads_def)
qed

lemma step_balanced:
  assumes "live s" and "stream_step e s = Some (t, acts)"
    and "app_event e \<or> frame_event fr = Some e"
    and "length (unread s @ input e) \<le> initial_window"
    and "remote_window_size s + gain e \<le> initial_window"
  shows "balanced e s t acts"
proof (cases e)
  case (Ev_write bs h)
  show ?thesis
  proof (cases "kMuxStreamMaxPendingWrites \<le> length (pending_writes s)")
    case True
    with Ev_write assms show ?thesis by (auto simp: stream_async_write_def balanced_def)
  next
    case False
    let ?p = "pending_writes s @ [\<lparr>pw_buffers = bs, pw_handler = h\<rparr>]"
    have "stream_do_write (s\<lparr>pending_writes := ?p, remote_window_size := remote_window_size s\<rparr>) = (t, acts)"
      using Ev_write assms(2) False by (simp add: stream_async_write_def)
    then show ?thesis
      by (rule balanced_write [OF assms(1)]) (use Ev_write False in \<open>simp_all add: pending_bytes_def\<close>)
  qed
next
  case (Ev_read all n h)
  show ?thesis
  proof (cases "kMuxStreamMaxPendingReads \<le> length (pending_reads s)")
    case True
    with Ev_read assms show ?thesis by (auto simp: stream_async_read_def balanced_def)
  next
    case False
    let ?s = "s\<lparr>pending_reads := pending_reads s @
        [\<lparr>pr_size = n, pr_handler = h, pr_read_all = all\<rparr>]\<rparr>"
    have "stream_do_read ?s = Some (t, acts)"
      using Ev_read assms(2) False by (simp add: stream_async_read_def)
    from balanced_read [OF assms(1) this, of e] Ev_read assms(1,4) show ?thesis
      by (simp add: live_def same_but_reads_def)
  qed
next
  case (Ev_data d)
  let ?s = "s\<lparr>read_queue := read_queue s @ [d]\<rparr>"
  have "d \<noteq> []" using assms(3) Ev_data by (auto simp: frame_event_def split: prod.splits if_splits)
  then have "rq_ok ?s" "unread ?s = unread s @ d"
    using assms(1) by (simp_all add: live_def queue_ok_snoc unread_queue_snoc)
  moreover have "stream_do_read ?s = Some (t, acts)"
    using Ev_data assms(2) by (simp add: stream_handle_data_def)
  ultimately show ?thesis
    using balanced_read [OF assms(1), of ?s t acts e] Ev_data assms(4)
    by (simp add: same_but_reads_def)
next
  case (Ev_window delta)
  have "stream_do_write (s\<lparr>pending_writes := pending_writes s,
      remote_window_size := remote_window_size s + unat delta\<rparr>) = (t, acts)"
    using Ev_window assms(2,5)
    by (simp add: stream_handle_window_update_def min_absorb1 MAX_MESSAGE_SIZE_def initial_window_def)
  then show ?thesis
    by (rule balanced_write [OF assms(1)]) (use Ev_window in \<open>simp_all add: pending_bytes_def\<close>)
qed (use assms(3) in \<open>auto simp: frame_event_def split: prod.splits if_splits\<close>)

subsection \<open>The invariant\<close>

lemma flow_inv_balanced:
  assumes "flow_inv f" and "balanced e (fl_a f) t acts"
    and "wire_data (wire_ba f) = input e @ wire_data w"
    and "wire_credit (wire_ba f) = gain e + wire_credit w"
  shows "flow_inv (after_step e (t, acts) (f\<lparr>wire_ba := w\<rparr>))"
proof -
  have len: "length (received_bytes acts) + length (unread t) = length (unread (fl_a f)) + length (input e)"
    using assms(2) by (metis balanced_def length_append)
  have inv: "live (fl_b f)" "dir_inv f" "dir_inv (swap f)" using assms(1) by (auto simp: flow_inv_def)
  have bal: "live t" "received_bytes acts @ unread t = unread (fl_a f) @ input e"
    "sent_bytes acts @ pending_bytes t = pending_bytes (fl_a f) @ accepted e (fl_a f)"
    "remote_window_size t + length (sent_bytes acts) = remote_window_size (fl_a f) + gain e"
    "consumed_since_last_update t + granted acts =
       consumed_since_last_update (fl_a f) + length (received_bytes acts)"
    using assms(2) by (simp_all add: balanced_def)
  let ?g = "after_step e (t, acts) (f\<lparr>wire_ba := w\<rparr>)"
  have "dir_inv ?g"
    using inv(2) bal(3,4) assms(4) by (simp add: dir_inv_def credit_def after_step_def)
  moreover have "dir_inv (swap ?g)"
    using inv(3) bal(2,5) assms(3) len
    by (simp add: dir_inv_def credit_def after_step_def swap_def)
  ultimately show ?thesis using bal(1) inv(1) by (simp add: flow_inv_def after_step_def)
qed

lemma flow_step_inv: "flow_step f g \<Longrightarrow> flow_inv f \<Longrightarrow> flow_inv g"
proof (induction rule: flow_step.induct)
  case (app e f r)
  obtain t acts where r: "r = (t, acts)" by force
  have "length (unread (fl_a f)) \<le> initial_window" "remote_window_size (fl_a f) \<le> initial_window"
    "live (fl_a f)" and none: "input e = []" "gain e = 0"
    using app by (cases e; auto simp: flow_inv_def dir_inv_def credit_def swap_def)+
  then have "balanced e (fl_a f) t acts"
    using app step_balanced [of "fl_a f" e t acts] r by simp
  from flow_inv_balanced [OF app.prems this, of "wire_ba f"] none r show ?case by simp
next
  case (deliver f fr rest e r)
  obtain t acts where r: "r = (t, acts)" by force
  obtain h body where fr: "fr = (h, body)" by force
  have wire: "wire_data (wire_ba f) = input e @ wire_data rest"
    "wire_credit (wire_ba f) = gain e + wire_credit rest"
    using deliver(1,2) fr by (auto simp: frame_event_def frame_types split: if_splits)
  have "length (unread (fl_a f) @ input e) \<le> initial_window"
    "remote_window_size (fl_a f) + gain e \<le> initial_window" "live (fl_a f)"
    using deliver.prems wire by (auto simp: flow_inv_def dir_inv_def credit_def swap_def)
  then have "balanced e (fl_a f) t acts"
    using deliver(2,3) step_balanced [of "fl_a f" e t acts fr] r by simp
  from flow_inv_balanced [OF deliver.prems this wire] r show ?case by simp
next
  case (ignore f fr rest)
  obtain h body where fr: "fr = (h, body)" by force
  have "wire_data (wire_ba f) = wire_data rest" "wire_credit (wire_ba f) = wire_credit rest"
    using ignore fr by (auto simp: frame_event_def frame_types split: if_splits)
  with ignore.prems show ?case by (simp add: flow_inv_def dir_inv_def credit_def swap_def)
next
  case (other_end f g)
  then show ?case by simp
qed

lemma flow_reach_inv: "flow_reach f \<Longrightarrow> flow_inv f"
  by (induction rule: flow_reach.induct) (auto intro: flow_inv_init flow_step_inv)

section \<open>Properties\<close>

text \<open>
  C1: End to end, in both directions and under every interleaving, what one application has
  written is what the other has read, followed by what is buffered at the receiver, what is on
  the wire and what still waits for window: nothing is lost, duplicated or reordered.
\<close>

theorem mux_flow_in_order:
  assumes "flow_reach f"
  shows "put_a f = got_b f @ unread (fl_b f) @ wire_data (wire_ab f) @ pending_bytes (fl_a f) \<and>
         put_b f = got_a f @ unread (fl_a f) @ wire_data (wire_ba f) @ pending_bytes (fl_b f)"
  using flow_reach_inv [OF assms] by (simp add: flow_inv_def dir_inv_def swap_def)

text \<open>
  C2: Credit is conserved: the sender's window, the data on the wire, the data buffered at the
  receiver, what the receiver has consumed without reporting it and the updates on the way back
  add up to 128 KiB; so the receiver never holds more than 128 KiB, and the cap of the window at
  \<open>MAX_MESSAGE_SIZE\<close> and the 32-bit delta never lose credit.
\<close>

theorem mux_flow_credit:
  assumes "flow_reach f"
  shows "credit f = 131072 \<and> credit (swap f) = 131072 \<and>
     length (unread (fl_a f)) \<le> 131072 \<and> length (unread (fl_b f)) \<le> 131072"
  using flow_reach_inv [OF assms]
  by (auto simp: flow_inv_def dir_inv_def initial_window_def credit_def swap_def)

text \<open>
  C3: Flow control cannot deadlock: when no frame is on the wire and the receiver has read
  everything, no write waits, because less than 32 KiB of the 128 KiB can be consumed and
  unreported.
\<close>

theorem mux_flow_no_stall:
  assumes "flow_reach f" and "wire_ab f = []" and "wire_ba f = []" and "unread (fl_b f) = []"
  shows "pending_writes (fl_a f) = [] \<and> got_b f = put_a f \<and> 98304 < remote_window_size (fl_a f)"
proof -
  have inv: "flow_inv f" using flow_reach_inv [OF assms(1)] .
  then have "remote_window_size (fl_a f) + consumed_since_last_update (fl_b f) = 131072"
    "consumed_since_last_update (fl_b f) < 32768"
    using assms by (simp_all add: flow_inv_def dir_inv_def credit_def initial_window_def live_def
        window_update_threshold_def)
  then have "98304 < remote_window_size (fl_a f)" by linarith
  moreover from this have "pending_writes (fl_a f) = []" using inv by (auto simp: flow_inv_def live_def)
  moreover from this have "got_b f = put_a f"
    using inv assms by (simp add: flow_inv_def dir_inv_def pending_bytes_def)
  ultimately show ?thesis by simp
qed

subsection \<open>A concrete run\<close>

definition flow_written :: flow where
  "flow_written = after_step (Ev_write [[1, 2], [3]] 7)
     (the (stream_step (Ev_write [[1, 2], [3]] 7) (new_stream 9))) (flow_init 9)"

lemma flow_written_reach: "flow_reach flow_written"
proof -
  obtain r where r: "stream_step (Ev_write [[1, 2], [3]] 7) (new_stream 9) = Some r" by simp
  have "flow_step (flow_init 9) (after_step (Ev_write [[1, 2], [3]] 7) r (flow_init 9))"
    using r by (intro flow_step.app) (simp_all add: flow_init_def)
  with r show ?thesis using flow_next [OF flow_start [of 9]] by (simp add: flow_written_def)
qed

lemmas flow_written_eval = flow_written_def stream_async_write_def new_stream_def flow_init_def
  kMuxStreamMaxPendingWrites_def stream_do_write.simps do_write_step_def after_step_def Let_def
  MAX_MESSAGE_SIZE_def mk_header_def frame_types pending_bytes_def

theorem mux_flow_in_order_witness:
  "got_b flow_written @ unread (fl_b flow_written) @ wire_data (wire_ab flow_written) @
     pending_bytes (fl_a flow_written) = [1, 2, 3]"
  using mux_flow_in_order [OF flow_written_reach]
  by (simp add: flow_written_eval)

theorem mux_flow_credit_witness:
  "credit flow_written = 131072 \<and> length (wire_data (wire_ab flow_written)) = 3"
  using mux_flow_credit [OF flow_written_reach] by (simp add: flow_written_eval)

theorem mux_flow_no_stall_witness:
  "98304 < remote_window_size (fl_a (flow_init 4))"
  using mux_flow_no_stall [OF flow_start [of 4]] by (simp add: flow_init_def new_stream_def)

end
