(* ===== verification/Mux_Session.thy ===== *)
theory Mux_Session
  imports Mux_Flow "HOL-Library.AList"
begin

text \<open>
  \<open>mux::Session\<close> (\<open>src/common/mux.h\<close>, \<open>mux.cpp\<close>): the table of streams, the write queue over the
  underlying stream, the frame reader and the heartbeat.

  Every handler runs on the session's strand and is an atomic function from the session to the
  new session and its effects. Stream objects outlive their entry in \<open>streams_\<close> (bridges hold
  them), so the table maps identifiers to object references, and a call of a stream's method
  (which posts itself to that stream's own strand) is the effect \<open>Stream_call\<close>.
  \<open>in_flight\<close> is the \<open>PendingWrite\<close> captured by the completion handler of the outstanding
  \<open>async_write\<close>. The table is an association list with distinct keys; the iteration order of
  the \<open>unordered_map\<close> is not specified and nothing below depends on it. Times are nanoseconds.
\<close>

section \<open>State and operations\<close>

datatype frame_cb = No_handler | Stream_handler nat send_cb

record queued_frame =
  write_buffers :: "bytes list"
  qf_handler :: frame_cb

record session =
  is_server :: bool
  sess_stopped :: bool
  next_stream_id :: "32 word"
  on_new_stream :: bool
  streams :: "(32 word \<times> nat) list"
  write_queue :: "queued_frame list"
  is_writing :: bool
  in_flight :: "queued_frame option"
  last_read_time :: nat
  next_ref :: nat

datatype session_out =
    Make_stream nat "32 word"
  | New_stream_cb nat
  | Stream_call nat stream_event
  | Async_write "bytes list"
  | Run_handler frame_cb error_code
  | Cancel_heartbeat
  | Arm_heartbeat
  | Close_underlying

definition new_session :: "bool \<Rightarrow> nat \<Rightarrow> session" where
  "new_session server now =
     \<lparr>is_server = server, sess_stopped = False, next_stream_id = (if server then 2 else 1),
      on_new_stream = False, streams = [], write_queue = [], is_writing = False, in_flight = None,
      last_read_time = now, next_ref = 0\<rparr>"

definition session_stop :: "session \<Rightarrow> session \<times> session_out list" where
  "session_stop s =
     (if sess_stopped s then (s, [])
      else (s\<lparr>sess_stopped := True, streams := [], on_new_stream := False\<rparr>,
            [Cancel_heartbeat, Close_underlying] @
            map (\<lambda>(sid, r). Stream_call r Ev_remote_close) (streams s)))"

definition session_do_write :: "session \<Rightarrow> session \<times> session_out list" where
  "session_do_write s =
     (case write_queue s of
        [] \<Rightarrow> (s\<lparr>is_writing := False, in_flight := None\<rparr>, [])
      | pw # _ \<Rightarrow> (s\<lparr>in_flight := Some pw\<rparr>, [Async_write (write_buffers pw)]))"

text \<open>The completion of the outstanding write.\<close>

definition session_write_done :: "error_code \<Rightarrow> session \<Rightarrow> session \<times> session_out list" where
  "session_write_done ec s =
     (case in_flight s of
        None \<Rightarrow> (s, [])
      | Some pw \<Rightarrow>
          (let s1 = s\<lparr>in_flight := None,
                      write_queue := (case write_queue s of [] \<Rightarrow> []
                                      | q # qs \<Rightarrow> if q = pw then qs else q # qs)\<rparr>;
               (s2, out) = (if ec = Success then session_do_write s1 else session_stop s1)
           in (s2, (if qf_handler pw = No_handler then [] else [Run_handler (qf_handler pw) ec]) @ out)))"

definition async_send_frame ::
    "Header \<Rightarrow> bytes list \<Rightarrow> frame_cb \<Rightarrow> bytes option \<Rightarrow> session \<Rightarrow> session \<times> session_out list" where
  "async_send_frame h bodies handler body_storage s =
     (let bufs = Header_encode h #
            (case body_storage of
               Some st \<Rightarrow> if bodies = [] then [take (unat (h_length h)) st]
                          else filter (\<lambda>b. b \<noteq> []) bodies
             | None \<Rightarrow> filter (\<lambda>b. b \<noteq> []) bodies);
          s1 = s\<lparr>write_queue := write_queue s @ [\<lparr>write_buffers = bufs, qf_handler = handler\<rparr>]\<rparr>
      in if is_writing s then (s1, []) else session_do_write (s1\<lparr>is_writing := True\<rparr>))"

definition open_stream :: "session \<Rightarrow> nat \<times> session \<times> session_out list" where
  "open_stream s =
     (let sid = next_stream_id s;
          r = next_ref s;
          (s1, out) = async_send_frame (mk_header Type_Data Flags_SYN sid 0) [] No_handler None
             (s\<lparr>next_stream_id := sid + 2, next_ref := r + 1, streams := AList.update sid r (streams s)\<rparr>)
      in (r, s1, Make_stream r sid # out))"

definition remove_stream :: "32 word \<Rightarrow> session \<Rightarrow> session" where
  "remove_stream sid s = s\<lparr>streams := AList.delete sid (streams s)\<rparr>"

definition accept_stream :: "32 word \<Rightarrow> session \<Rightarrow> nat \<times> session \<times> session_out list" where
  "accept_stream sid s =
     (let r = next_ref s;
          (s1, out) = async_send_frame (mk_header Type_Data Flags_ACK sid 0) [] No_handler None
             (s\<lparr>next_ref := r + 1, streams := AList.update sid r (streams s)\<rparr>)
      in (r, s1, [Make_stream r sid] @ (if on_new_stream s then [New_stream_cb r] else []) @ out))"

definition handle_frame :: "Header \<Rightarrow> bytes \<Rightarrow> session \<Rightarrow> session \<times> session_out list" where
  "handle_frame h body s =
     (let found = map_of (streams s) (h_stream_id h) in
      if h_type h = Type_Data then
        (let (s1, stream, out) =
               (if h_flags h AND Flags_SYN \<noteq> 0 \<and> found = None
                then (case accept_stream (h_stream_id h) s of (r, s1, out) \<Rightarrow> (s1, Some r, out))
                else (s, found, []))
         in (s1, out @
             (case stream of
                None \<Rightarrow> []
              | Some r \<Rightarrow>
                  (if body \<noteq> [] then [Stream_call r (Ev_data body)] else []) @
                  (if h_flags h AND Flags_FIN \<noteq> 0 then [Stream_call r Ev_remote_close] else []))))
      else if h_type h = Type_WindowUpdate then
        (s, (case found of None \<Rightarrow> [] | Some r \<Rightarrow> [Stream_call r (Ev_window (h_length h))]))
      else if h_type h = Type_Ping then
        (if h_flags h AND Flags_SYN \<noteq> 0
         then async_send_frame (mk_header Type_Ping Flags_ACK 0 0) [] No_handler None s
         else (s, []))
      else session_stop s)"

text \<open>The two read completions; the third component is the read they start next.\<close>

datatype next_read = Next_header | Next_body Header | No_read

definition session_header_read ::
    "error_code \<Rightarrow> bytes \<Rightarrow> nat \<Rightarrow> session \<Rightarrow> session \<times> session_out list \<times> next_read" where
  "session_header_read ec header_buf now s =
     (if sess_stopped s then (s, [], No_read)
      else if ec = Success then
        (let s1 = s\<lparr>last_read_time := now\<rparr>;
             h = Header_decode header_buf
         in if h_type h = Type_Data \<and> 0 < unat (h_length h)
            then (if MAX_MESSAGE_SIZE < unat (h_length h)
                  then (case session_stop s1 of (s2, out) \<Rightarrow> (s2, out, No_read))
                  else (s1, [], Next_body h))
            else (case handle_frame h [] s1 of (s2, out) \<Rightarrow> (s2, out, Next_header)))
      else (case session_stop s of (s2, out) \<Rightarrow> (s2, out, No_read)))"

definition session_body_read ::
    "error_code \<Rightarrow> Header \<Rightarrow> bytes \<Rightarrow> nat \<Rightarrow> session \<Rightarrow> session \<times> session_out list \<times> next_read" where
  "session_body_read ec h body now s =
     (if sess_stopped s then (s, [], No_read)
      else if ec = Success
      then (case handle_frame h body (s\<lparr>last_read_time := now\<rparr>) of (s2, out) \<Rightarrow> (s2, out, Next_header))
      else (case session_stop s of (s2, out) \<Rightarrow> (s2, out, No_read)))"

definition session_start :: "session \<Rightarrow> session \<times> session_out list \<times> next_read" where
  "session_start s = (s\<lparr>on_new_stream := True\<rparr>, [Arm_heartbeat], Next_header)"

definition heartbeat_timeout :: nat where "heartbeat_timeout = 120 * 10 ^ 9"

definition heartbeat_tick :: "error_code \<Rightarrow> nat \<Rightarrow> session \<Rightarrow> session \<times> session_out list" where
  "heartbeat_tick ec now s =
     (if ec \<noteq> Success then (s, [])
      else if heartbeat_timeout < now - last_read_time s then session_stop s
      else (case async_send_frame (mk_header Type_Ping Flags_SYN 0 0) [] No_handler None s of
              (s1, out) \<Rightarrow> (s1, out @ [Arm_heartbeat])))"

section \<open>Stopping\<close>

interpretation session_stoppable: stoppable sess_stopped session_stop
  by unfold_locales (auto simp: session_stop_def)

section \<open>The write queue\<close>

fun writes :: "session_out list \<Rightarrow> bytes" where
  "writes [] = []"
| "writes (Async_write bufs # os) = concat bufs @ writes os"
| "writes (_ # os) = writes os"

lemma writes_append [simp]: "writes (xs @ ys) = writes xs @ writes ys"
  by (induction xs rule: writes.induct) auto

definition flat :: "queued_frame list \<Rightarrow> bytes" where
  "flat q = concat (map (\<lambda>pw. concat (write_buffers pw)) q)"

definition unstarted :: "session \<Rightarrow> queued_frame list" where
  "unstarted s = (if in_flight s = None then write_queue s else tl (write_queue s))"

definition wq_ok :: "session \<Rightarrow> bool" where
  "wq_ok s \<longleftrightarrow>
     (case in_flight s of
        Some pw \<Rightarrow> is_writing s \<and> write_queue s \<noteq> [] \<and> hd (write_queue s) = pw
      | None \<Rightarrow> is_writing s \<or> write_queue s = [])"

datatype wr_event = Submit Header bytes frame_cb | Done error_code

fun wr_step :: "wr_event \<Rightarrow> session \<Rightarrow> session \<times> session_out list" where
  "wr_step (Submit h body cb) s = async_send_frame h [body] cb None s"
| "wr_step (Done ec) s = session_write_done ec s"

fun wr_run :: "wr_event list \<Rightarrow> session \<Rightarrow> session \<times> session_out list" where
  "wr_run [] s = (s, [])"
| "wr_run (e # es) s =
     (case wr_step e s of (t, o1) \<Rightarrow> case wr_run es t of (u, o2) \<Rightarrow> (u, o1 @ o2))"

fun submitted :: "wr_event list \<Rightarrow> frame list" where
  "submitted [] = []"
| "submitted (Submit h body cb # es) = (h, body) # submitted es"
| "submitted (Done ec # es) = submitted es"

definition enc_frame :: "frame \<Rightarrow> bytes" where
  "enc_frame f = Header_encode (fst f) @ snd f"

lemma flat_simps [simp]: "flat [] = []" "flat (q @ [pw]) = flat q @ concat (write_buffers pw)"
  "flat (pw # q) = concat (write_buffers pw) @ flat q"
  by (simp_all add: flat_def)

lemma writes_stop [simp]: "writes (snd (session_stop s)) = []"
proof -
  have "writes (map (\<lambda>(sid, r). Stream_call r Ev_remote_close) xs) = []" for xs :: "(32 word \<times> nat) list"
    by (induction xs) auto
  then show ?thesis by (simp add: session_stop_def)
qed

lemma session_stop_wq [simp]:
  "write_queue (fst (session_stop s)) = write_queue s" "in_flight (fst (session_stop s)) = in_flight s"
  "is_writing (fst (session_stop s)) = is_writing s"
  by (simp_all add: session_stop_def)

lemma wr_step_ok:
  assumes "wq_ok s" and "wr_step e s = (t, out)"
  shows "wq_ok t \<and>
     writes out @ flat (unstarted t) = flat (unstarted s) @ concat (map enc_frame (submitted [e]))"
proof (cases e)
  case (Submit h body cb)
  with assms show ?thesis
    by (cases "write_queue s")
       (auto simp: async_send_frame_def wq_ok_def unstarted_def session_do_write_def Let_def enc_frame_def
         split: option.splits if_splits)
next
  case (Done ec)
  show ?thesis
  proof (cases "in_flight s")
    case None
    with Done assms show ?thesis by (simp add: session_write_done_def)
  next
    case (Some pw)
    with assms(1) obtain qs where q: "write_queue s = pw # qs" and w: "is_writing s"
      by (cases "write_queue s") (auto simp: wq_ok_def)
    show ?thesis
    proof (cases "ec = Success")
      case True
      with Done Some q w assms(2) show ?thesis
        by (cases qs) (auto simp: session_write_done_def session_do_write_def wq_ok_def unstarted_def Let_def)
    next
      case False
      let ?s = "s\<lparr>in_flight := None, write_queue := qs\<rparr>"
      obtain o' where stop: "session_stop ?s = (t, o')" and out: "writes out = writes o'"
        using False Done Some q assms(2)
        by (auto simp: session_write_done_def Let_def split: prod.splits if_splits)
      have "writes o' = []" "write_queue t = qs" "in_flight t = None" "is_writing t"
        using writes_stop [of ?s] session_stop_wq [of ?s] stop w by simp_all
      with Some q Done out show ?thesis by (simp add: wq_ok_def unstarted_def)
    qed
  qed
qed

lemma submitted_Cons: "submitted (e # es) = submitted [e] @ submitted es"
  by (cases e) auto

lemma wr_run_ok:
  "\<lbrakk>wq_ok s; wr_run es s = (t, out)\<rbrakk> \<Longrightarrow>
     wq_ok t \<and> writes out @ flat (unstarted t) =
       flat (unstarted s) @ concat (map enc_frame (submitted es))"
proof (induction es arbitrary: s out)
  case Nil
  then show ?case by simp
next
  case (Cons e es)
  obtain u o1 where step: "wr_step e s = (u, o1)" by force
  obtain o2 where rest: "wr_run es u = (t, o2)" and out: "out = o1 @ o2"
    using Cons.prems(2) step by (auto split: prod.splits)
  note one = wr_step_ok [OF Cons.prems(1) step]
  from one have "wq_ok u" by simp
  from Cons.IH [OF this rest] one show ?case
    by (simp add: out submitted_Cons [of e es] del: submitted.simps)
qed

section \<open>Frames on the underlying stream\<close>

definition frame_ok :: "frame \<Rightarrow> bool" where
  "frame_ok f \<longleftrightarrow>
     (if h_type (fst f) = Type_Data
      then unat (h_length (fst f)) = length (snd f) \<and> length (snd f) \<le> MAX_MESSAGE_SIZE
      else snd f = [])"

text \<open>One frame off the front of the byte stream, as the two read completions cut it.\<close>

definition dec_frame :: "bytes \<Rightarrow> (frame \<times> bytes) option" where
  "dec_frame bs =
     (if length bs < Header_size then None
      else
        (let h = Header_decode (take Header_size bs);
             rest = drop Header_size bs
         in if h_type h = Type_Data \<and> 0 < unat (h_length h)
            then (if MAX_MESSAGE_SIZE < unat (h_length h) \<or> length rest < unat (h_length h) then None
                  else Some ((h, take (unat (h_length h)) rest), drop (unat (h_length h)) rest))
            else Some ((h, []), rest)))"

lemma dec_enc_frame: "frame_ok f \<Longrightarrow> dec_frame (enc_frame f @ rest) = Some (f, rest)"
  using Header_decode_encode [of "fst f" "[]"]
  by (cases f) (auto simp: dec_frame_def enc_frame_def frame_ok_def Let_def split: if_splits)

interpretation mux_framing: framing enc_frame dec_frame frame_ok
proof
  fix f rest
  show "enc_frame f \<noteq> []" if "frame_ok f"
    by (simp add: enc_frame_def Header_encode_def)
  show "dec_frame (enc_frame f @ rest) = Some (f, rest)" if "frame_ok f"
    using that by (rule dec_enc_frame)
qed

text \<open>
  \<open>session_feed\<close> runs the read handlers on the bytes that arrive: the underlying
  \<open>async_read\<close> completes with exactly the requested number of bytes, and each handler starts
  the next read. It returns the bytes that no read has taken yet.
\<close>

function session_feed :: "nat \<Rightarrow> bytes \<Rightarrow> session \<Rightarrow> session \<times> session_out list \<times> bytes" where
  "session_feed now bs s =
     (if length bs < Header_size then (s, [], bs)
      else
        (case session_header_read Success (take Header_size bs) now s of
           (s1, o1, No_read) \<Rightarrow> (s1, o1, drop Header_size bs)
         | (s1, o1, Next_header) \<Rightarrow>
             (case session_feed now (drop Header_size bs) s1 of (s2, o2, r) \<Rightarrow> (s2, o1 @ o2, r))
         | (s1, o1, Next_body h) \<Rightarrow>
             (let rest = drop Header_size bs; n = unat (h_length h) in
              if length rest < n then (s1, o1, rest)
              else
                (case session_body_read Success h (take n rest) now s1 of
                   (s2, o2, Next_header) \<Rightarrow>
                     (case session_feed now (drop n rest) s2 of (s3, o3, r) \<Rightarrow> (s3, o1 @ o2 @ o3, r))
                 | (s2, o2, _) \<Rightarrow> (s2, o1 @ o2, drop n rest)))))"
  by pat_completeness auto
termination
  by (relation "measure (\<lambda>(now, bs, s). length bs)") (auto simp: Header_size_def)

declare session_feed.simps [simp del]

fun handle_frames :: "nat \<Rightarrow> frame list \<Rightarrow> session \<Rightarrow> session \<times> session_out list" where
  "handle_frames now [] s = (s, [])"
| "handle_frames now ((h, body) # fs) s =
     (if sess_stopped s then (s, [])
      else (case handle_frame h body (s\<lparr>last_read_time := now\<rparr>) of
              (t, o1) \<Rightarrow> (case handle_frames now fs t of (u, o2) \<Rightarrow> (u, o1 @ o2))))"

lemma feed_one:
  assumes "frame_ok (h, body)" and "\<not> sess_stopped s"
    and "handle_frame h body (s\<lparr>last_read_time := now\<rparr>) = (t, o1)"
    and "session_feed now rest t = (u, o2, r)"
  shows "session_feed now (enc_frame (h, body) @ rest) s = (u, o1 @ o2, r)"
proof -
  have dec: "Header_decode (Header_encode h) = h" using Header_decode_encode [of h "[]"] by simp
  show ?thesis
  proof (cases "h_type h = Type_Data \<and> 0 < unat (h_length h)")
    case True
    with assms dec show ?thesis
      by (subst session_feed.simps)
         (simp add: enc_frame_def session_header_read_def session_body_read_def frame_ok_def Let_def)
  next
    case False
    with assms(1) have "body = []" by (auto simp: frame_ok_def split: if_splits)
    with False assms dec show ?thesis
      by (subst session_feed.simps) (auto simp: enc_frame_def session_header_read_def Let_def)
  qed
qed

lemma feed_stopped: "sess_stopped s \<Longrightarrow> \<exists>r. session_feed now bs s = (s, [], r)"
  by (subst session_feed.simps) (simp add: session_header_read_def)

lemma feed_frames:
  "list_all frame_ok fs \<Longrightarrow>
     \<exists>r. session_feed now (concat (map enc_frame fs)) s =
       (fst (handle_frames now fs s), snd (handle_frames now fs s), r) \<and>
       (r = [] \<or> sess_stopped (fst (handle_frames now fs s)))"
proof (induction fs arbitrary: s)
  case Nil
  then show ?case by (subst session_feed.simps) (simp add: Header_size_def)
next
  case (Cons f fs)
  obtain h body where f: "f = (h, body)" by force
  show ?case
  proof (cases "sess_stopped s")
    case True
    then show ?thesis using feed_stopped [OF True] f by simp
  next
    case False
    obtain t o1 where t: "handle_frame h body (s\<lparr>last_read_time := now\<rparr>) = (t, o1)" by force
    obtain r where "session_feed now (concat (map enc_frame fs)) t =
        (fst (handle_frames now fs t), snd (handle_frames now fs t), r)"
      "r = [] \<or> sess_stopped (fst (handle_frames now fs t))"
      using Cons by fastforce
    from this(2) feed_one [OF _ False t this(1)] Cons.prems f False t show ?thesis
      by (auto split: prod.splits)
  qed
qed

section \<open>Frames sent by streams\<close>

lemma do_read_step_frames:
  "do_read_step s = Iterate s' acts \<Longrightarrow> list_all frame_ok (frames_of acts)"
  by (auto simp: do_read_step_def account_read_def Let_def frame_ok_def mk_header_def frame_types
        split: list.splits if_splits option.splits prod.splits)

lemma frames_of_append [simp]: "frames_of (as @ bs) = frames_of as @ frames_of bs"
  by (induction as rule: frames_of.induct) auto

lemma frames_of_check_cleanup [simp]: "frames_of (check_cleanup s) = []"
  by (simp add: check_cleanup_def)

lemma frames_of_posts [simp]: "frames_of (map (\<lambda>x. Post (f x) ec n d) xs) = []"
  by (induction xs) auto

lemma stream_do_read_frames:
  "stream_do_read s = Some (t, acts) \<Longrightarrow> list_all frame_ok (frames_of acts)"
proof (induction s arbitrary: acts rule: stream_do_read.induct)
  case (1 s)
  show ?case
  proof (cases "do_read_step s")
    case Break
    then show ?thesis using "1.prems" by (subst (asm) stream_do_read.simps) auto
  next
    case (Iterate s' as)
    obtain bs where run: "stream_do_read s' = Some (t, bs)" and acts: "acts = as @ bs"
      using "1.prems" Iterate by (subst (asm) stream_do_read.simps) auto
    from "1.IH" [OF Iterate run] do_read_step_frames [OF Iterate] acts show ?thesis by simp
  next
    case Out_of_bounds
    then show ?thesis using "1.prems" by (subst (asm) stream_do_read.simps) simp
  qed
qed

lemma data_frame_ok_frames:
  "list_all (data_frame_ok s) acts \<Longrightarrow> list_all frame_ok (frames_of acts)"
proof (induction acts rule: frames_of.induct)
  case (2 h body cb as)
  then have "unat (word_of_nat (length body) :: 32 word) = length body"
    by (intro unat_word32) (simp add: MAX_MESSAGE_SIZE_def)
  with 2 show ?case by (simp add: frame_ok_def mk_header_def)
qed simp_all

lemma stream_do_write_dead_frames:
  "\<lbrakk>stream_do_write s = (t, acts); \<not> ms_session s\<rbrakk> \<Longrightarrow> frames_of acts = []"
proof (induction s arbitrary: t acts rule: stream_do_write.induct)
  case (1 s)
  show ?case
  proof (cases "do_write_step s")
    case None
    then show ?thesis using "1.prems" by (simp add: stream_do_write.simps)
  next
    case (Some sa)
    obtain s' a where a: "do_write_step s = Some (s', a)" using Some by (cases sa) auto
    obtain as where run: "stream_do_write s' = (t, as)" and acts: "acts = a # as"
      using "1.prems"(1) a by (subst (asm) stream_do_write.simps) (auto split: prod.splits)
    have "\<not> ms_session s'" "frames_of [a] = []"
      using a "1.prems"(2) by (auto simp: do_write_step_def Let_def split: list.splits if_splits)
    then show ?thesis
      using "1.IH" [OF a refl run] acts frames_of_append [of "[a]" as] by simp
  qed
qed

lemma stream_do_write_frames: "stream_do_write s = (t, acts) \<Longrightarrow> list_all frame_ok (frames_of acts)"
  using data_frame_ok_frames stream_do_write_sent(3) stream_do_write_dead_frames
  by (cases "ms_session s") fastforce+

section \<open>Stream identifiers\<close>

fun open_streams :: "nat \<Rightarrow> session \<Rightarrow> 32 word list \<times> session" where
  "open_streams 0 s = ([], s)"
| "open_streams (Suc n) s =
     (case open_stream s of (r, t, out) \<Rightarrow>
        (case open_streams n t of (ids, u) \<Rightarrow> (next_stream_id s # ids, u)))"

lemma session_do_write_id [simp]:
  "next_stream_id (fst (session_do_write s)) = next_stream_id s"
  "streams (fst (session_do_write s)) = streams s"
  "sess_stopped (fst (session_do_write s)) = sess_stopped s"
  by (simp_all add: session_do_write_def split: list.splits)

lemma async_send_frame_keeps [simp]:
  "next_stream_id (fst (async_send_frame h bodies cb st s)) = next_stream_id s"
  "streams (fst (async_send_frame h bodies cb st s)) = streams s"
  "sess_stopped (fst (async_send_frame h bodies cb st s)) = sess_stopped s"
  by (simp_all add: async_send_frame_def Let_def)

lemma async_send_frame_frame:
  "async_send_frame h bodies cb st s = (t, out) \<Longrightarrow>
     next_stream_id t = next_stream_id s \<and> streams t = streams s \<and> sess_stopped t = sess_stopped s"
  by (metis async_send_frame_keeps fst_conv)

lemma open_stream_next: "open_stream s = (r, t, out) \<Longrightarrow> next_stream_id t = next_stream_id s + 2"
  by (auto simp: open_stream_def Let_def split: prod.splits dest!: async_send_frame_frame)

lemma open_streams_ids:
  "fst (open_streams n s) = map (\<lambda>k. next_stream_id s + 2 * word_of_nat k) [0..<n]"
proof (induction n arbitrary: s)
  case 0
  then show ?case by simp
next
  case (Suc n)
  obtain r t out where t: "open_stream s = (r, t, out)" by (cases "open_stream s")
  have "map (\<lambda>k. next_stream_id s + 2 * word_of_nat k) [0..<Suc n] =
      next_stream_id s # map (\<lambda>k. next_stream_id s + 2 * word_of_nat (Suc k)) [0..<n]"
    by (simp add: map_upt_Suc del: upt_Suc of_nat_Suc)
  with Suc [of t] t open_stream_next [OF t] show ?case
    by (auto simp: algebra_simps split: prod.splits)
qed

lemma even_ids: "even (2 + 2 * w :: 32 word)" and odd_ids: "odd (1 + 2 * w :: 32 word)"
  by simp_all

lemma distinct_ids:
  assumes "n \<le> 2 ^ 31"
  shows "distinct (map (\<lambda>k. a + 2 * word_of_nat k :: 32 word) [0..<n])"
proof -
  have "unat (2 * word_of_nat k :: 32 word) = 2 * k" if "k < n" for k
    using assms that unat_word32 [of "2 * k"] by simp
  then have "inj_on (\<lambda>k. 2 * word_of_nat k :: 32 word) {0..<n}"
    by (intro inj_onI) (metis atLeastLessThan_iff mult_left_cancel zero_neq_numeral)
  then show ?thesis by (simp add: distinct_map inj_on_def)
qed

section \<open>Properties\<close>

text \<open>
  The two read completions of the session implement the frame parser: given the
  concatenation of well-formed frames, the session processes exactly these frames, in order, as
  long as no frame stops it, and then no byte is left.
\<close>

theorem session_feed_dispatch:
  assumes "list_all frame_ok fs"
  shows "\<exists>r. session_feed now (concat (map enc_frame fs)) s =
       (fst (handle_frames now fs s), snd (handle_frames now fs s), r) \<and>
       (r = [] \<or> sess_stopped (fst (handle_frames now fs s)))"
  using feed_frames [OF assms] .

theorem session_feed_dispatch_witness:
  "snd (handle_frames 5 [(mk_header Type_Data Flags_SYN 1 2, [7, 8])] (new_session True 0)) =
     fst (snd (session_feed 5 (enc_frame (mk_header Type_Data Flags_SYN 1 2, [7, 8])) (new_session True 0))) \<and>
   Stream_call 0 (Ev_data [7, 8]) \<in>
     set (snd (handle_frames 5 [(mk_header Type_Data Flags_SYN 1 2, [7, 8])] (new_session True 0)))"
proof -
  have "list_all frame_ok [(mk_header Type_Data Flags_SYN 1 2, [7, 8])]"
    by (simp add: frame_ok_def mk_header_def MAX_MESSAGE_SIZE_def)
  from session_feed_dispatch [OF this, of 5 "new_session True 0"]
  have "snd (handle_frames 5 [(mk_header Type_Data Flags_SYN 1 2, [7, 8])] (new_session True 0)) =
     fst (snd (session_feed 5 (enc_frame (mk_header Type_Data Flags_SYN 1 2, [7, 8])) (new_session True 0)))"
    by auto
  moreover have "Stream_call 0 (Ev_data [7, 8]) \<in>
     set (snd (handle_frames 5 [(mk_header Type_Data Flags_SYN 1 2, [7, 8])] (new_session True 0)))"
    by (simp add: handle_frame_def accept_stream_def new_session_def mk_header_def Let_def frame_flags
          async_send_frame_def session_do_write_def)
  ultimately show ?thesis by blast
qed

text \<open>
  Frames leave a session in the order of \<open>async_send_frame\<close>, whole and never interleaved,
  whatever the timing of the completions; the reader at the other end, cutting the bytes that
  were written, gets exactly the frames that were submitted.
\<close>

theorem session_transmits_frames:
  assumes "wr_run es (new_session sv now) = (t, out)"
  shows "writes out @ flat (unstarted t) = concat (map enc_frame (submitted es)) \<and>
     (list_all frame_ok (submitted es) \<and> unstarted t = [] \<longrightarrow>
        parse_stream dec_frame (writes out) = (submitted es, []))"
proof -
  have "wq_ok (new_session sv now)" "unstarted (new_session sv now) = []"
    by (simp_all add: wq_ok_def new_session_def unstarted_def)
  with wr_run_ok [OF _ assms] have eq: "writes out @ flat (unstarted t) = concat (map enc_frame (submitted es))"
    by simp
  moreover have "dec_frame [] = None" by (simp add: dec_frame_def Header_size_def)
  ultimately show ?thesis using mux_framing.parse_frames [of "submitted es" "[]"] by auto
qed

theorem session_transmits_frames_witness:
  "writes (snd (wr_run [Submit (mk_header Type_Data 0 3 1) [9] No_handler,
      Submit (mk_header Type_Ping Flags_SYN 0 0) [] No_handler, Done Success] (new_session False 0))) =
   enc_frame (mk_header Type_Data 0 3 1, [9]) @ enc_frame (mk_header Type_Ping Flags_SYN 0 0, [])"
proof -
  let ?es = "[Submit (mk_header Type_Data 0 3 1) [9] No_handler,
      Submit (mk_header Type_Ping Flags_SYN 0 0) [] No_handler, Done Success]"
  have "unstarted (fst (wr_run ?es (new_session False 0))) = []"
    by (simp add: async_send_frame_def new_session_def session_do_write_def session_write_done_def
          unstarted_def Let_def)
  with session_transmits_frames [of ?es False 0 "fst (wr_run ?es (new_session False 0))"
      "snd (wr_run ?es (new_session False 0))"]
  show ?thesis by simp
qed

text \<open>
  Every frame that a stream hands to its session, in any state and on any event, is one the
  peer's session accepts: a data frame carries as many bytes as its length field says and at most
  \<open>MAX_MESSAGE_SIZE\<close>, every other frame has no body.
\<close>

theorem stream_frames_accepted:
  assumes "stream_step e s = Some (t, acts)"
  shows "list_all frame_ok (frames_of acts)"
proof (cases e)
  case (Ev_write bs h)
  with assms show ?thesis
    using stream_do_write_frames by (auto simp: stream_async_write_def split: if_splits)
next
  case (Ev_read all n h)
  with assms show ?thesis
    using stream_do_read_frames by (auto simp: stream_async_read_def split: if_splits)
next
  case (Ev_data d)
  with assms show ?thesis using stream_do_read_frames by (auto simp: stream_handle_data_def)
next
  case (Ev_window delta)
  with assms show ?thesis
    using stream_do_write_frames by (auto simp: stream_handle_window_update_def)
next
  case Ev_remote_close
  with assms show ?thesis using stream_do_read_frames by (auto simp: stream_handle_close_def)
next
  case Ev_close
  with assms show ?thesis
    by (auto simp: stream_close_def Let_def abort_pending_def frame_ok_def mk_header_def split: if_splits)
next
  case (Ev_sent cb ec)
  with assms show ?thesis by (cases cb) (auto split: if_splits)
next
  case Ev_session_gone
  with assms show ?thesis by simp
qed

theorem stream_frames_accepted_witness:
  "list_all frame_ok (frames_of (snd (stream_async_write [[1, 2, 3]] 4 (new_stream 5))))"
  by (rule stream_frames_accepted [of "Ev_write [[1, 2, 3]] 4" "new_stream 5"
        "fst (stream_async_write [[1, 2, 3]] 4 (new_stream 5))"]) simp

text \<open>
  Stopping a session closes every stream it has registered, and a reader can never be left
  waiting on such a stream: after \<open>handle_close\<close> an open stream has no pending read.
\<close>

theorem session_stop_releases_readers:
  assumes "\<not> sess_stopped s" and "(sid, r) \<in> set (streams s)"
    and "stream_reach st" and "\<not> local_closed st"
  shows "Stream_call r Ev_remote_close \<in> set (snd (session_stop s)) \<and>
     (\<exists>t acts. stream_step Ev_remote_close st = Some (t, acts) \<and> pending_reads t = [])"
proof -
  have "rq_ok st" using stream_reach_inv [OF assms(3)] assms(4) by (simp add: stream_inv_def)
  then have "rq_ok (st\<lparr>remote_closed := True\<rparr>)" by simp
  from stream_do_read_ok [OF this] obtain t acts where t:
    "stream_do_read (st\<lparr>remote_closed := True\<rparr>) = Some (t, acts)" "do_read_step t = Break"
    "same_but_reads (st\<lparr>remote_closed := True\<rparr>) t" "rq_ok t" by blast
  then have "remote_closed t" by (simp add: same_but_reads_def)
  with t(2) have "pending_reads t = []"
    by (auto simp: do_read_step_def split: list.splits if_splits option.splits prod.splits)
  moreover have "Stream_call r Ev_remote_close \<in> set (snd (session_stop s))"
    using assms(1,2) by (force simp: session_stop_def)
  ultimately show ?thesis using t(1) by (auto simp: stream_handle_close_def)
qed

theorem session_stop_releases_readers_witness:
  "Stream_call 0 Ev_remote_close \<in> set (snd (session_stop (new_session True 0\<lparr>streams := [(1, 0)]\<rparr>)))"
  using session_stop_releases_readers [of "new_session True 0\<lparr>streams := [(1, 0)]\<rparr>" 1 0, OF _ _ reach_new [of 1]]
  by (simp add: new_session_def new_stream_def)

text \<open>
  The identifiers a session assigns are even on the server and odd on the client, so the two
  ends never open the same one; and the first \<open>2 ^ 31\<close> streams a session opens have
  different identifiers.
\<close>

theorem stream_ids_disjoint:
  assumes "n \<le> 2 ^ 31"
  shows "distinct (fst (open_streams n (new_session sv now))) \<and>
     list_all even (fst (open_streams n (new_session True now))) \<and>
     list_all odd (fst (open_streams n (new_session False now)))"
  using distinct_ids [OF assms]
  by (simp add: open_streams_ids new_session_def list_all_iff even_ids odd_ids)

theorem stream_ids_disjoint_witness:
  "distinct (fst (open_streams 3 (new_session True 0))) \<and> fst (open_streams 3 (new_session True 0)) = [2, 4, 6]"
  using stream_ids_disjoint [of 3 True 0] by (simp add: open_streams_ids new_session_def upt_rec)

text \<open>
  A failed write strands the frames queued behind it: afterwards the session starts no other
  write and runs no completion handler, whatever is submitted, because \<open>is_writing_\<close> stays set.
\<close>

theorem failed_write_strands_queue:
  assumes "is_writing s" and "in_flight s = Some pw" and "ec \<noteq> Success"
    and "session_write_done ec s = (t, out)"
    and "wr_run es t = (u, out')"
  shows "writes out' = [] \<and> (\<forall>cb ec'. Run_handler cb ec' \<notin> set out')"
proof -
  let ?s = "s\<lparr>in_flight := None, write_queue := (case write_queue s of [] \<Rightarrow> []
      | q # qs \<Rightarrow> if q = pw then qs else q # qs)\<rparr>"
  have "t = fst (session_stop ?s)"
    using assms(2-4) by (auto simp: session_write_done_def Let_def split: prod.splits)
  then have stuck: "is_writing t \<and> in_flight t = None" using assms(1) by simp
  show ?thesis
    using stuck assms(5)
  proof (induction es arbitrary: t out')
    case Nil
    then show ?case by simp
  next
    case (Cons e es)
    obtain v o1 where v: "wr_step e t = (v, o1)" by force
    obtain o2 where o2: "wr_run es v = (u, o2)" "out' = o1 @ o2"
      using Cons.prems(2) v by (auto split: prod.splits)
    have "is_writing v \<and> in_flight v = None \<and> o1 = []"
      using v Cons.prems(1)
      by (cases e) (auto simp: async_send_frame_def session_write_done_def Let_def)
    with Cons.IH [of v o2] o2 show ?case by simp
  qed
qed

theorem failed_write_strands_queue_witness:
  "writes (snd (wr_run [Submit (mk_header Type_Data 0 3 1) [9] No_handler, Done Success]
     (fst (session_write_done Eof
       (fst (async_send_frame (mk_header Type_Data 0 3 1) [[8]] No_handler None (new_session True 0))))))) = []"
proof -
  let ?s = "fst (async_send_frame (mk_header Type_Data 0 3 1) [[8]] No_handler None (new_session True 0))"
  have "is_writing ?s" "in_flight ?s \<noteq> None"
    by (simp_all add: async_send_frame_def new_session_def session_do_write_def Let_def)
  then obtain pw where "is_writing ?s" "in_flight ?s = Some pw" by auto
  from failed_write_strands_queue [OF this, of Eof "fst (session_write_done Eof ?s)"
      "snd (session_write_done Eof ?s)" "[Submit (mk_header Type_Data 0 3 1) [9] No_handler, Done Success]"
      "fst (wr_run [Submit (mk_header Type_Data 0 3 1) [9] No_handler, Done Success] (fst (session_write_done Eof ?s)))"
      "snd (wr_run [Submit (mk_header Type_Data 0 3 1) [9] No_handler, Done Success] (fst (session_write_done Eof ?s)))"]
  show ?thesis by simp
qed

end
