(* ===== verification/Streams.thy ===== *)
theory Streams
  imports Mux_Stream
begin

text \<open>
  \<open>BufferedStream\<close> of \<open>src/common/stream.h\<close>: bytes that were read too early (the first bytes of
  an HTTP request or of a TLS hello) are put in front of another stream. \<open>rd\<close> is
  \<open>async_read_some\<close> and \<open>rdx\<close> is \<open>async_read\<close> of the underlying stream, on the bytes it
  holds. The writing side forwards to the underlying stream.
\<close>

record 's buffered =
  underlying :: 's
  bs_buffer :: bytes
  buffer_offset :: nat

definition BufferedStream :: "'s \<Rightarrow> bytes \<Rightarrow> 's buffered" where
  "BufferedStream u initial_data = \<lparr>underlying = u, bs_buffer = initial_data, buffer_offset = 0\<rparr>"

text \<open>The copy that both read operations start with, when bytes are buffered.\<close>

definition take_buffered :: "nat \<Rightarrow> 's buffered \<Rightarrow> bytes \<times> 's buffered" where
  "take_buffered n b =
     (let available = length (bs_buffer b) - buffer_offset b;
          to_copy = min available n;
          d = take to_copy (drop (buffer_offset b) (bs_buffer b));
          off = buffer_offset b + to_copy
      in (d, if off = length (bs_buffer b) then b\<lparr>bs_buffer := [], buffer_offset := 0\<rparr>
             else b\<lparr>buffer_offset := off\<rparr>))"

definition buffered_read_some ::
    "('s \<Rightarrow> nat \<Rightarrow> bytes \<times> 's) \<Rightarrow> 's buffered \<Rightarrow> nat \<Rightarrow> bytes \<times> 's buffered" where
  "buffered_read_some rd b n =
     (if buffer_offset b < length (bs_buffer b) then take_buffered n b
      else (case rd (underlying b) n of (d, u) \<Rightarrow> (d, b\<lparr>underlying := u\<rparr>)))"

definition buffered_read ::
    "('s \<Rightarrow> nat \<Rightarrow> bytes \<times> 's) \<Rightarrow> 's buffered \<Rightarrow> nat \<Rightarrow> bytes \<times> 's buffered" where
  "buffered_read rdx b n =
     (if buffer_offset b < length (bs_buffer b)
      then (case take_buffered n b of (d, b') \<Rightarrow>
              if length d < n
              then (case rdx (underlying b') (n - length d) of
                      (e, u) \<Rightarrow> (d @ e, b'\<lparr>underlying := u\<rparr>))
              else (d, b'))
      else (case rdx (underlying b) n of (d, u) \<Rightarrow> (d, b\<lparr>underlying := u\<rparr>)))"

definition buffered_unread :: "('s \<Rightarrow> bytes) \<Rightarrow> 's buffered \<Rightarrow> bytes" where
  "buffered_unread u b = drop (buffer_offset b) (bs_buffer b) @ u (underlying b)"

lemma take_buffered_spec:
  assumes "buffer_offset b < length (bs_buffer b)"
  shows "fst (take_buffered n b) = take n (drop (buffer_offset b) (bs_buffer b))"
    and "drop (buffer_offset (snd (take_buffered n b))) (bs_buffer (snd (take_buffered n b))) =
      drop n (drop (buffer_offset b) (bs_buffer b))"
    and "underlying (snd (take_buffered n b)) = underlying b"
  using assms by (auto simp: take_buffered_def Let_def min_def add.commute)

text \<open>A buffered stream over a byte source is a byte source.\<close>

context byte_source
begin

lemma buffered_source:
  "byte_source (buffered_unread unread) (\<lambda>b. inv (underlying b)) (buffered_read_some rd)"
proof
  fix b :: "'s buffered" and n
  assume inv: "inv (underlying b)"
  let ?r = "buffered_read_some rd b n"
  show "inv (underlying (snd ?r))"
    using inv rd_inv [OF inv, of n] take_buffered_spec(3) [of b n]
    by (auto simp: buffered_read_some_def split: prod.splits)
  show "buffered_unread unread b = fst ?r @ buffered_unread unread (snd ?r)"
    using rd_split [OF inv, of n] take_buffered_spec [of b n]
      append_take_drop_id [of n "drop (buffer_offset b) (bs_buffer b)"]
    by (auto simp: buffered_read_some_def buffered_unread_def split: prod.splits simp del: append_take_drop_id)
  show "length (fst ?r) \<le> n"
    using rd_length [OF inv, of n] take_buffered_spec(1) [of b n]
    by (auto simp: buffered_read_some_def split: prod.splits)
  show "fst ?r \<noteq> []" if "0 < n" "buffered_unread unread b \<noteq> []"
    using that rd_progress [OF inv, of n] take_buffered_spec(1) [of b n]
    by (auto simp: buffered_read_some_def buffered_unread_def split: prod.splits)
qed

end

interpretation buffered_mux:
  byte_source "buffered_unread unread" "\<lambda>b. rq_ok (underlying b) \<and> pending_reads (underlying b) = []"
    "buffered_read_some mux_rd"
  by (rule mux_source.buffered_source)

text \<open>
  Bytes that were taken from a stream for inspection and put back in front of it are lost to
  nobody: over any sequence of read sizes, a \<open>BufferedStream\<close> on a mux stream returns the
  initial data followed by what the mux stream holds, in order.
\<close>

theorem buffered_stream_in_order:
  assumes "rq_ok s" and "pending_reads s = []"
    and "list_all (\<lambda>n. 0 < n) ns" and "length initial + length (unread s) \<le> length ns"
  shows "concat (fst (read_many (buffered_read_some mux_rd) (BufferedStream s initial) ns)) =
    initial @ unread s"
  using buffered_mux.read_many_all [of "BufferedStream s initial" ns] assms
  by (simp add: BufferedStream_def buffered_unread_def)

theorem buffered_stream_in_order_witness:
  "concat (fst (read_many (buffered_read_some mux_rd)
     (BufferedStream (new_stream 1\<lparr>read_queue := [[4, 5]]\<rparr>) [1, 2, 3]) [2, 2, 1, 1, 1])) = [1, 2, 3, 4, 5]"
  using buffered_stream_in_order [of "new_stream 1\<lparr>read_queue := [[4, 5]]\<rparr>" "[2, 2, 1, 1, 1]" "[1, 2, 3]"]
  by (simp add: new_stream_def queue_ok_def unread_queue_def)

text \<open>\<open>async_read\<close> on a buffered stream: an exact read spans the buffer and the stream.\<close>

lemma buffered_read_exact:
  assumes "\<And>k. fst (rdx (underlying b) k) = take k (u (underlying b))"
  shows "fst (buffered_read rdx b n) = take n (buffered_unread u b)"
  using take_buffered_spec [of b n]
  by (auto simp: buffered_read_def buffered_unread_def case_prod_beta assms)

end
