(* ===== verification/Rate_Limiter.thy ===== *)
theory Rate_Limiter
  imports Complex_Main Prelude
begin

text \<open>
  \<open>RateLimiter\<close> of \<open>src/common/rate_limiter.h\<close>: a token bucket with a queue of waiting
  handlers. Both entry points (a request and the timer) run under the mutex; the state also
  records the delay the timer was last armed with. The clock is in microseconds and every
  operation takes its reading. \<open>tokens_\<close>, a \<open>double\<close>, is a rational: rounding is not modelled.
\<close>

section \<open>State and operations\<close>

record limiter =
  bytes_per_sec :: int
  tokens :: rat
  last_update :: nat
  waiting :: "(int \<times> nat) list"
  armed :: "int option"

definition new_limiter :: "int \<Rightarrow> nat \<Rightarrow> limiter" where
  "new_limiter rate now =
     \<lparr>bytes_per_sec = rate, tokens = of_int rate, last_update = now, waiting = [], armed = None\<rparr>"

definition set_rate :: "int \<Rightarrow> limiter \<Rightarrow> limiter" where
  "set_rate rate l = l\<lparr>bytes_per_sec := rate, tokens := min (tokens l) (of_int rate)\<rparr>"

definition update_tokens :: "nat \<Rightarrow> limiter \<Rightarrow> limiter" where
  "update_tokens now l =
     (let t = tokens l + (of_nat (now - last_update l) * of_int (bytes_per_sec l)) / 1000000
      in l\<lparr>last_update := now,
           tokens := (if of_int (bytes_per_sec l) < t then of_int (bytes_per_sec l) else t)\<rparr>)"

text \<open>
  \<open>schedule_timer\<close> hands out tokens to the front of the queue as long as they last, then arms
  the timer. It returns the handlers it posted.
\<close>

function schedule_timer :: "nat \<Rightarrow> limiter \<Rightarrow> limiter \<times> (int \<times> nat) list" where
  "schedule_timer now l =
     (case waiting l of
        [] \<Rightarrow> (l, [])
      | first # rest \<Rightarrow>
          (let l1 = update_tokens now l in
           if of_int (fst first) \<le> tokens l1
           then
             (let l2 = l1\<lparr>tokens := tokens l1 - of_int (fst first), waiting := rest\<rparr>
              in if rest = [] then (l2, [first])
                 else (case schedule_timer now l2 of (l3, gs) \<Rightarrow> (l3, first # gs)))
           else
             (let needed = of_int (fst first) - tokens l1
              in (l1\<lparr>armed := Some \<lfloor>(needed * 1000000) / of_int (bytes_per_sec l1)\<rfloor>\<rparr>, []))))"
  by pat_completeness auto
termination
  by (relation "measure (\<lambda>(now, l). length (waiting l))") (auto simp: update_tokens_def Let_def)

declare schedule_timer.simps [simp del]

definition limiter_async_wait :: "nat \<Rightarrow> int \<Rightarrow> nat \<Rightarrow> limiter \<Rightarrow> limiter \<times> (int \<times> nat) list" where
  "limiter_async_wait now bytes handler l =
     (if bytes_per_sec l \<le> 0 then (l, [(bytes, handler)])
      else
        (let l1 = update_tokens now l in
         if waiting l1 = [] \<and> of_int bytes \<le> tokens l1
         then (l1\<lparr>tokens := tokens l1 - of_int bytes\<rparr>, [(bytes, handler)])
         else
           (let l2 = l1\<lparr>waiting := waiting l1 @ [(bytes, handler)]\<rparr>
            in if length (waiting l2) = 1 then schedule_timer now l2 else (l2, []))))"

definition limiter_timer :: "nat \<Rightarrow> limiter \<Rightarrow> limiter \<times> (int \<times> nat) list" where
  "limiter_timer now l = schedule_timer now (l\<lparr>armed := None\<rparr>)"

section \<open>Runs\<close>

datatype limiter_event = Request nat int nat | Timer nat

fun event_time :: "limiter_event \<Rightarrow> nat" where
  "event_time (Request now bytes h) = now"
| "event_time (Timer now) = now"

fun requests :: "limiter_event list \<Rightarrow> (int \<times> nat) list" where
  "requests [] = []"
| "requests (Request now bytes h # es) = (bytes, h) # requests es"
| "requests (Timer now # es) = requests es"

fun limiter_step :: "limiter_event \<Rightarrow> limiter \<Rightarrow> limiter \<times> (int \<times> nat) list" where
  "limiter_step (Request now bytes h) l = limiter_async_wait now bytes h l"
| "limiter_step (Timer now) l = limiter_timer now l"

fun limiter_run :: "limiter_event list \<Rightarrow> limiter \<Rightarrow> limiter \<times> (int \<times> nat) list" where
  "limiter_run [] l = (l, [])"
| "limiter_run (e # es) l =
     (case limiter_step e l of (m, gs) \<Rightarrow> case limiter_run es m of (n, hs) \<Rightarrow> (n, gs @ hs))"

definition granted_bytes :: "(int \<times> nat) list \<Rightarrow> int" where
  "granted_bytes gs = sum_list (map fst gs)"

lemma granted_bytes_simps [simp]:
  "granted_bytes [] = 0" "granted_bytes (g # gs) = fst g + granted_bytes gs"
  "granted_bytes (gs @ hs) = granted_bytes gs + granted_bytes hs"
  by (simp_all add: granted_bytes_def)

section \<open>Invariant\<close>

text \<open>
  The bucket is never overdrawn and never holds more than one second's worth, and no request is
  negative.
\<close>

definition limiter_ok :: "limiter \<Rightarrow> bool" where
  "limiter_ok l \<longleftrightarrow> 0 < bytes_per_sec l \<and> 0 \<le> tokens l \<and> tokens l \<le> of_int (bytes_per_sec l) \<and>
     list_all (\<lambda>r. 0 \<le> fst r) (waiting l)"

lemma update_tokens_ok:
  assumes "limiter_ok l"
  shows "limiter_ok (update_tokens now l)"
    and "tokens (update_tokens now l) \<le>
      tokens l + of_nat (now - last_update l) * of_int (bytes_per_sec l) / 1000000"
    and "bytes_per_sec (update_tokens now l) = bytes_per_sec l"
    and "last_update (update_tokens now l) = now" and "waiting (update_tokens now l) = waiting l"
    and "armed (update_tokens now l) = armed l"
  using assms by (auto simp: update_tokens_def limiter_ok_def Let_def)

text \<open>What a step may hand out: the tokens it started with and those of the elapsed time.\<close>

definition budget :: "nat \<Rightarrow> limiter \<Rightarrow> rat" where
  "budget now l = tokens l + of_nat (now - last_update l) * of_int (bytes_per_sec l) / 1000000"

definition spends :: "nat \<Rightarrow> limiter \<Rightarrow> (int \<times> nat) list \<Rightarrow> limiter \<Rightarrow> bool" where
  "spends now l gs m \<longleftrightarrow> limiter_ok m \<and> bytes_per_sec m = bytes_per_sec l \<and>
     of_int (granted_bytes gs) + tokens m \<le> budget now l \<and> last_update m = now"

lemma spends_update: "limiter_ok l \<Longrightarrow> spends now l [] (update_tokens now l)"
  using update_tokens_ok [of l now] by (simp add: spends_def budget_def)

lemma grant_ok:
  assumes "limiter_ok l" and "waiting l = first # rest" and "of_int (fst first) \<le> tokens l"
  shows "limiter_ok (l\<lparr>tokens := tokens l - of_int (fst first), waiting := rest\<rparr>)"
proof -
  have "(0 :: rat) \<le> of_int (fst first)" using assms by (simp add: limiter_ok_def)
  with assms show ?thesis by (simp add: limiter_ok_def)
qed

lemma schedule_timer_spends:
  "\<lbrakk>limiter_ok l; schedule_timer now l = (m, gs); waiting l \<noteq> []\<rbrakk> \<Longrightarrow>
     spends now l gs m \<and> gs @ waiting m = waiting l \<and> (waiting m \<noteq> [] \<longrightarrow> armed m \<noteq> None)"
proof (induction now l arbitrary: m gs rule: schedule_timer.induct)
  case (1 now l)
  note upd = update_tokens_ok [OF "1.prems"(1), of now]
  obtain first rest where w: "waiting l = first # rest" using "1.prems"(3) by (cases "waiting l") auto
  let ?l1 = "update_tokens now l"
  let ?l2 = "?l1\<lparr>tokens := tokens ?l1 - of_int (fst first), waiting := rest\<rparr>"
  show ?case
  proof (cases "of_int (fst first) \<le> tokens ?l1")
    case enough: True
    have ok2: "limiter_ok ?l2" using grant_ok [OF upd(1)] w upd(5) enough by simp
    show ?thesis
    proof (cases "rest = []")
      case True
      then have "m = ?l2 \<and> gs = [first]"
        using "1.prems"(2) w enough by (simp add: schedule_timer.simps Let_def)
      with upd ok2 w True show ?thesis by (simp add: spends_def budget_def)
    next
      case False
      obtain hs where run: "schedule_timer now ?l2 = (m, hs)" and gs: "gs = first # hs"
        using "1.prems"(2) w enough False
        by (subst (asm) schedule_timer.simps) (auto simp: Let_def split: prod.splits)
      have "spends now ?l2 hs m \<and> hs @ waiting m = rest \<and> (waiting m \<noteq> [] \<longrightarrow> armed m \<noteq> None)"
        using "1.IH" [OF w refl enough refl False ok2 run] False by simp
      with upd w gs show ?thesis by (simp add: spends_def budget_def)
    qed
  next
    case False
    then have "gs = []" "m = ?l1\<lparr>armed := armed m\<rparr>" "armed m \<noteq> None"
      using "1.prems"(2) w by (auto simp: schedule_timer.simps Let_def)
    moreover from this(2) obtain a where "m = ?l1\<lparr>armed := a\<rparr>" by blast
    ultimately show ?thesis using upd w by (auto simp: spends_def budget_def limiter_ok_def)
  qed
qed

text \<open>
  The invariant of a run that started with a full bucket at time \<open>t0\<close>: what was handed out plus
  what is left is within one second's worth plus the rate times the elapsed time; the grants
  followed by the queue are the requests, in order; and somebody waits only with the timer armed.
\<close>

definition run_inv :: "int \<Rightarrow> nat \<Rightarrow> (int \<times> nat) list \<Rightarrow> (int \<times> nat) list \<Rightarrow> limiter \<Rightarrow> bool" where
  "run_inv rate t0 reqs gs l \<longleftrightarrow> limiter_ok l \<and> bytes_per_sec l = rate \<and> t0 \<le> last_update l \<and>
     of_int (granted_bytes gs) + tokens l \<le>
       of_int rate + of_nat (last_update l - t0) * of_int rate / 1000000 \<and>
     gs @ waiting l = reqs \<and> (waiting l \<noteq> [] \<longrightarrow> armed l \<noteq> None)"

lemma run_inv_spends:
  assumes "run_inv rate t0 reqs gs l" and "spends now l hs m" and "last_update l \<le> now"
    and "gs @ hs @ waiting m = reqs'" and "waiting m \<noteq> [] \<longrightarrow> armed m \<noteq> None"
  shows "run_inv rate t0 reqs' (gs @ hs) m"
proof -
  have t: "t0 \<le> last_update l" using assms(1) by (simp add: run_inv_def)
  have "(of_nat (last_update l - t0) + of_nat (now - last_update l) :: rat) = of_nat (now - t0)"
    using t assms(3) by (simp flip: of_nat_add)
  then have "of_nat (last_update l - t0) * of_int rate / 1000000 +
      of_nat (now - last_update l) * of_int rate / 1000000 = (of_nat (now - t0) * of_int rate / 1000000 :: rat)"
    by (metis add_divide_distrib distrib_right)
  with assms t show ?thesis by (simp add: run_inv_def spends_def budget_def)
qed

lemma run_inv_step:
  assumes inv: "run_inv rate t0 reqs gs l" and step: "limiter_step e l = (m, hs)"
    and time: "last_update l \<le> event_time e" and pos: "list_all (\<lambda>r. 0 \<le> fst r) (requests [e])"
  shows "run_inv rate t0 (reqs @ requests [e]) (gs @ hs) m \<and> last_update m \<le> event_time e"
proof (cases e)
  case (Request now bytes h)
  have ok: "limiter_ok l" and rate: "0 < bytes_per_sec l" and q: "gs @ waiting l = reqs"
    and arm: "waiting l \<noteq> [] \<longrightarrow> armed l \<noteq> None"
    using inv by (auto simp: run_inv_def limiter_ok_def)
  note upd = update_tokens_ok [OF ok, of now]
  let ?l1 = "update_tokens now l"
  show ?thesis
  proof (cases "waiting l = [] \<and> of_int bytes \<le> tokens ?l1")
    case True
    then have m: "m = ?l1\<lparr>tokens := tokens ?l1 - of_int bytes\<rparr>" "hs = [(bytes, h)]"
      using step Request rate upd by (auto simp: limiter_async_wait_def Let_def)
    have "limiter_ok m" using grant_ok [of "?l1\<lparr>waiting := [(bytes, h)]\<rparr>" "(bytes, h)" "[]"] upd m(1) True pos Request
      by (simp add: limiter_ok_def)
    then have "spends now l hs m" using upd m by (simp add: spends_def budget_def)
    from run_inv_spends [OF inv this] time Request m q True upd show ?thesis by simp
  next
    case False
    let ?l2 = "?l1\<lparr>waiting := waiting l @ [(bytes, h)]\<rparr>"
    have ok2: "limiter_ok ?l2" using upd ok pos Request by (simp add: limiter_ok_def)
    show ?thesis
    proof (cases "waiting l = []")
      case True
      then have run: "schedule_timer now ?l2 = (m, hs)"
        using step Request rate False upd by (auto simp: limiter_async_wait_def Let_def)
      note s = schedule_timer_spends [OF ok2 run]
      have "budget now ?l2 \<le> budget now l" using upd by (simp add: budget_def)
      with s have "spends now l hs m" using upd(3) by (simp add: spends_def)
      from run_inv_spends [OF inv this] time Request s True q this show ?thesis
        by (simp add: spends_def)
    next
      case nonempty: False
      then have m: "m = ?l2" "hs = []"
        using step Request rate False upd by (auto simp: limiter_async_wait_def Let_def)
      have "spends now l hs m" using ok2 m upd by (simp add: spends_def budget_def)
      from run_inv_spends [OF inv this] time Request m arm nonempty upd show ?thesis
        by (simp add: q [symmetric])
    qed
  qed
next
  case (Timer now)
  let ?l = "l\<lparr>armed := None\<rparr>"
  have run: "schedule_timer now ?l = (m, hs)" using step Timer by (simp add: limiter_timer_def)
  show ?thesis
  proof (cases "waiting l = []")
    case True
    then have "m = ?l" "hs = []" using run by (auto simp: schedule_timer.simps)
    with inv True time show ?thesis
      using Timer by (auto simp: run_inv_def limiter_ok_def simp del: of_nat_diff)
  next
    case False
    have "limiter_ok ?l" using inv by (simp add: run_inv_def limiter_ok_def)
    from schedule_timer_spends [OF this run] False
    have s: "spends now l hs m" "hs @ waiting m = waiting l" "waiting m \<noteq> [] \<longrightarrow> armed m \<noteq> None"
      by (simp_all add: spends_def budget_def)
    from run_inv_spends [OF inv s(1)] s time Timer inv show ?thesis
      by (simp add: run_inv_def spends_def)
  qed
qed

fun times_ok :: "nat \<Rightarrow> limiter_event list \<Rightarrow> bool" where
  "times_ok t [] = True"
| "times_ok t (e # es) = (t \<le> event_time e \<and> times_ok (event_time e) es)"

lemma times_ok_mono: "times_ok t es \<Longrightarrow> s \<le> t \<Longrightarrow> times_ok s es"
  by (cases es) auto

lemma requests_Cons: "requests (e # es) = requests [e] @ requests es"
  by (cases e) auto

lemma limiter_run_inv:
  "\<lbrakk>run_inv rate t0 reqs gs l; limiter_run es l = (m, hs); times_ok (last_update l) es;
    list_all (\<lambda>r. 0 \<le> fst r) (requests es)\<rbrakk>
   \<Longrightarrow> run_inv rate t0 (reqs @ requests es) (gs @ hs) m"
proof (induction es arbitrary: l reqs gs hs)
  case Nil
  then show ?case by simp
next
  case (Cons e es)
  obtain k g1 where k: "limiter_step e l = (k, g1)" by force
  obtain g2 where g2: "limiter_run es k = (m, g2)" and hs: "hs = g1 @ g2"
    using Cons.prems(2) k by (auto split: prod.splits)
  have req: "list_all (\<lambda>r. 0 \<le> fst r) (requests [e])" "list_all (\<lambda>r. 0 \<le> fst r) (requests es)"
    using Cons.prems(4) requests_Cons [of e es] by simp_all
  have one: "run_inv rate t0 (reqs @ requests [e]) (gs @ g1) k" "last_update k \<le> event_time e"
    using run_inv_step [OF Cons.prems(1) k _ req(1)] Cons.prems(3) by simp_all
  have "times_ok (last_update k) es" using Cons.prems(3) one(2) times_ok_mono by simp blast
  from Cons.IH [OF one(1) g2 this req(2)] hs requests_Cons [of e es] show ?case by simp
qed

section \<open>Properties\<close>

text \<open>
  C17: The limiter enforces its rate: whatever the requests and the timer events, the bytes granted
  by the time of the last token update are at most one second's worth plus the rate times the
  time that has passed since the limiter was created.
\<close>

theorem limiter_bounds_rate:
  assumes "0 < rate" and "times_ok t0 es" and "list_all (\<lambda>r. 0 \<le> fst r) (requests es)"
    and "limiter_run es (new_limiter rate t0) = (m, gs)"
  shows "of_int (granted_bytes gs) \<le>
    of_int rate + of_nat (last_update m - t0) * of_int rate / (1000000 :: rat)"
proof -
  have "run_inv rate t0 [] [] (new_limiter rate t0)"
    using assms(1) by (simp add: run_inv_def limiter_ok_def new_limiter_def)
  from limiter_run_inv [OF this assms(4) _ assms(3)] assms(2)
  have "run_inv rate t0 (requests es) gs m" by (simp add: new_limiter_def)
  then have "of_int (granted_bytes gs) + tokens m \<le>
      of_int rate + of_nat (last_update m - t0) * of_int rate / 1000000" "0 \<le> tokens m"
    by (auto simp: run_inv_def limiter_ok_def)
  then show ?thesis by linarith
qed

theorem limiter_bounds_rate_witness:
  "of_int (granted_bytes (snd (limiter_run [Request 0 600 1, Request 0 600 2, Timer 300000]
     (new_limiter 1000 0)))) \<le>
   of_int 1000 + of_nat (last_update (fst (limiter_run [Request 0 600 1, Request 0 600 2, Timer 300000]
     (new_limiter 1000 0))) - 0) * of_int 1000 / (1000000 :: rat)"
  by (rule limiter_bounds_rate [of _ _ "[Request 0 600 1, Request 0 600 2, Timer 300000]"]) simp_all

text \<open>
  Handlers are granted in the order of the requests, none is dropped, and while one waits the
  timer is armed.
\<close>

theorem limiter_fifo:
  assumes "0 < rate" and "times_ok t0 es" and "list_all (\<lambda>r. 0 \<le> fst r) (requests es)"
    and "limiter_run es (new_limiter rate t0) = (m, gs)"
  shows "gs @ waiting m = requests es \<and> (waiting m \<noteq> [] \<longrightarrow> armed m \<noteq> None)"
proof -
  have "run_inv rate t0 [] [] (new_limiter rate t0)"
    using assms(1) by (simp add: run_inv_def limiter_ok_def new_limiter_def)
  from limiter_run_inv [OF this assms(4) _ assms(3)] assms(2) show ?thesis
    by (simp add: new_limiter_def run_inv_def)
qed

theorem limiter_fifo_witness:
  "snd (limiter_run [Request 0 600 1, Request 0 600 2] (new_limiter 1000 0)) @
   waiting (fst (limiter_run [Request 0 600 1, Request 0 600 2] (new_limiter 1000 0))) = [(600, 1), (600, 2)]"
  using limiter_fifo [of 1000 0 "[Request 0 600 1, Request 0 600 2]"
      "fst (limiter_run [Request 0 600 1, Request 0 600 2] (new_limiter 1000 0))"
      "snd (limiter_run [Request 0 600 1, Request 0 600 2] (new_limiter 1000 0))"]
  by simp

text \<open>
  A request for more than one second's worth is never granted, and neither is anything queued
  behind it: the bucket is capped at the rate, so the timer fires and is armed again for ever.
\<close>

theorem oversized_request_starves:
  assumes "limiter_ok l" and "waiting l = (bytes, h) # rest" and "bytes_per_sec l < bytes"
    and "limiter_run es l = (m, gs)" and "list_all (\<lambda>r. 0 \<le> fst r) (requests es)"
  shows "gs = [] \<and> waiting m = waiting l @ requests es"
  using assms
proof (induction es arbitrary: l gs rest)
  case Nil
  then show ?case by simp
next
  case (Cons e es)
  obtain k g1 where k: "limiter_step e l = (k, g1)" by force
  obtain g2 where g2: "limiter_run es k = (m, g2)" and gs: "gs = g1 @ g2"
    using Cons.prems(4) k by (auto split: prod.splits)
  have req: "list_all (\<lambda>r. 0 \<le> fst r) (requests [e])" "list_all (\<lambda>r. 0 \<le> fst r) (requests es)"
    using Cons.prems(5) requests_Cons [of e es] by simp_all
  have low: "tokens (update_tokens now j) < of_int bytes"
    if "limiter_ok j" "bytes_per_sec j < bytes" for now j
  proof -
    have "tokens (update_tokens now j) \<le> of_int (bytes_per_sec j)"
      using update_tokens_ok(1,3) [OF that(1), of now] by (simp add: limiter_ok_def)
    also have "\<dots> < of_int bytes" using that(2) by simp
    finally show ?thesis .
  qed
  have step: "g1 = [] \<and> limiter_ok k \<and> bytes_per_sec k = bytes_per_sec l \<and> waiting k = waiting l @ requests [e]"
  proof (cases e)
    case (Request now b h')
    have "0 < bytes_per_sec l" using Cons.prems(1) by (simp add: limiter_ok_def)
    with Request k Cons.prems(1,2) req(1) update_tokens_ok [OF Cons.prems(1), of now] show ?thesis
      by (auto simp: limiter_async_wait_def Let_def limiter_ok_def)
  next
    case (Timer now)
    have ok: "limiter_ok (l\<lparr>armed := None\<rparr>)" using Cons.prems(1) by (simp add: limiter_ok_def)
    have "tokens (update_tokens now (l\<lparr>armed := None\<rparr>)) < of_int bytes"
      using low [OF ok] Cons.prems(3) by simp
    with Timer k Cons.prems(2) update_tokens_ok [OF ok, of now] show ?thesis
      by (auto simp: limiter_timer_def schedule_timer.simps Let_def limiter_ok_def)
  qed
  from Cons.IH [of k "rest @ requests [e]" g2] step g2 Cons.prems(2,3) req(2) gs requests_Cons [of e es]
  show ?case by simp
qed

theorem oversized_request_starves_witness:
  "snd (limiter_run [Timer 5000000, Request 6000000 10 2, Timer 900000000]
     (new_limiter 1000 0\<lparr>waiting := [(32768, 1)]\<rparr>)) = []"
  using oversized_request_starves [of "new_limiter 1000 0\<lparr>waiting := [(32768, 1)]\<rparr>" 32768 1 "[]"
      "[Timer 5000000, Request 6000000 10 2, Timer 900000000]"
      "fst (limiter_run [Timer 5000000, Request 6000000 10 2, Timer 900000000]
     (new_limiter 1000 0\<lparr>waiting := [(32768, 1)]\<rparr>))"
      "snd (limiter_run [Timer 5000000, Request 6000000 10 2, Timer 900000000]
     (new_limiter 1000 0\<lparr>waiting := [(32768, 1)]\<rparr>))"]
  by (simp add: limiter_ok_def new_limiter_def)

end
