(* ===== verification/Buffer_Pool.thy ===== *)
theory Buffer_Pool
  imports Prelude
begin

text \<open>
  \<open>BufferPool\<close> of \<open>src/common/buffer_pool.h\<close>: buckets of free buffers of fixed sizes. A buffer
  is the address of its storage, and \<open>next_ptr\<close> stands for the allocator, which never returns
  an address that is in use. \<open>Get\<close> returns a handle: the address, the capacity, and the bucket
  the deleter gives the buffer back to, if any. \<open>alloc_ok\<close> tells whether \<open>new\<close> succeeds; when
  it throws, \<open>Get\<close> does. The critical sections of the mutexes are atomic.
\<close>

section \<open>State and operations\<close>

record pool_config =
  buffer_size :: nat
  initial_count :: nat
  max_count :: nat

record bucket =
  b_config :: pool_config
  b_buffers :: "nat list"
  allocated_count :: nat

record pool =
  p_buckets :: "nat \<Rightarrow> bucket option"
  bucket_sizes :: "nat list"
  next_ptr :: nat

record handle =
  h_ptr :: nat
  h_capacity :: nat
  h_bucket :: "nat option"

definition add_config :: "pool_config \<Rightarrow> pool \<Rightarrow> pool" where
  "add_config c p =
     (let b = (case p_buckets p (buffer_size c) of
                 Some b \<Rightarrow> b
               | None \<Rightarrow> \<lparr>b_config = c, b_buffers = [], allocated_count = 0\<rparr>)
      in p\<lparr>p_buckets := (p_buckets p)(buffer_size c \<mapsto>
             \<lparr>b_config = c,
              b_buffers = b_buffers b @ [next_ptr p..<next_ptr p + initial_count c],
              allocated_count = allocated_count b + initial_count c\<rparr>),
           bucket_sizes := bucket_sizes p @ [buffer_size c],
           next_ptr := next_ptr p + initial_count c\<rparr>)"

definition BufferPool :: "pool_config list \<Rightarrow> pool" where
  "BufferPool configs =
     (let p = fold add_config configs \<lparr>p_buckets = \<lambda>_. None, bucket_sizes = [], next_ptr = 0\<rparr>
      in p\<lparr>bucket_sizes := remdups_adj (sort (bucket_sizes p))\<rparr>)"

definition cfg :: "nat \<Rightarrow> nat \<Rightarrow> nat \<Rightarrow> pool_config" where
  "cfg sz i m = \<lparr>buffer_size = sz, initial_count = i, max_count = m\<rparr>"

definition lower_char :: "char \<Rightarrow> char" where
  "lower_char c = (let n = of_char c :: nat in if 65 \<le> n \<and> n \<le> 90 then char_of (n + 32) else c)"

definition profile_configs :: "string \<Rightarrow> pool_config list" where
  "profile_configs profile =
     (let p = map lower_char profile in
      if p = ''low'' then [cfg 512 8 32, cfg 1024 4 16, cfg 4096 2 8, cfg 16384 1 4, cfg 65536 1 2]
      else if p = ''high'' then [cfg 512 32 128, cfg 1024 16 64, cfg 4096 16 64, cfg 16384 8 32, cfg 65536 4 16]
      else [cfg 512 16 64, cfg 1024 8 32, cfg 4096 8 32, cfg 16384 4 16, cfg 65536 2 8])"

definition CreateByProfile :: "string \<Rightarrow> pool" where
  "CreateByProfile profile = BufferPool (profile_configs profile)"

definition CreateDefault :: pool where
  "CreateDefault = CreateByProfile ''low''"

text \<open>\<open>std::lower_bound\<close> on a sorted vector: the first element that is not less.\<close>

fun lower_bound :: "nat list \<Rightarrow> nat \<Rightarrow> nat option" where
  "lower_bound [] v = None"
| "lower_bound (x # xs) v = (if v \<le> x then Some x else lower_bound xs v)"

definition pool_Get :: "bool \<Rightarrow> nat \<Rightarrow> pool \<Rightarrow> handle option \<times> pool" where
  "pool_Get alloc_ok n p =
     (let fresh = (\<lambda>cap owner. if alloc_ok
            then (Some \<lparr>h_ptr = next_ptr p, h_capacity = cap, h_bucket = owner\<rparr>, p\<lparr>next_ptr := next_ptr p + 1\<rparr>)
            else (None, p)) in
      case lower_bound (bucket_sizes p) n of
        None \<Rightarrow> fresh n None
      | Some sz \<Rightarrow>
          (case p_buckets p sz of
             None \<Rightarrow> (None, p)
           | Some b \<Rightarrow>
               if b_buffers b \<noteq> []
               then (Some \<lparr>h_ptr = last (b_buffers b), h_capacity = sz, h_bucket = Some sz\<rparr>,
                     p\<lparr>p_buckets := (p_buckets p)(sz \<mapsto> b\<lparr>b_buffers := butlast (b_buffers b)\<rparr>)\<rparr>)
               else if allocated_count b < max_count (b_config b)
               then (if alloc_ok
                     then (Some \<lparr>h_ptr = next_ptr p, h_capacity = sz, h_bucket = Some sz\<rparr>,
                           p\<lparr>next_ptr := next_ptr p + 1,
                             p_buckets := (p_buckets p)(sz \<mapsto> b\<lparr>allocated_count := allocated_count b + 1\<rparr>)\<rparr>)
                     else (None, p))
               else fresh sz None))"

definition pool_Return :: "nat \<Rightarrow> nat \<Rightarrow> pool \<Rightarrow> pool" where
  "pool_Return sz ptr p =
     (case p_buckets p sz of
        None \<Rightarrow> p
      | Some b \<Rightarrow>
          p\<lparr>p_buckets := (p_buckets p)(sz \<mapsto>
             (if length (b_buffers b) < max_count (b_config b)
              then b\<lparr>b_buffers := b_buffers b @ [ptr]\<rparr>
              else b\<lparr>allocated_count := allocated_count b - 1\<rparr>))\<rparr>)"

text \<open>The deleter of a handle, while the pool lives.\<close>

definition release :: "handle \<Rightarrow> pool \<Rightarrow> pool" where
  "release h p = (case h_bucket h of None \<Rightarrow> p | Some sz \<Rightarrow> pool_Return sz (h_ptr h) p)"

section \<open>Reachable pools\<close>

text \<open>The pool together with the handles that are in use.\<close>

inductive pool_reach :: "pool_config list \<Rightarrow> pool \<Rightarrow> handle list \<Rightarrow> bool" where
  pool_new: "pool_reach cs (BufferPool cs) []"
| pool_got: "\<lbrakk>pool_reach cs p hs; pool_Get ok n p = (Some h, q)\<rbrakk> \<Longrightarrow> pool_reach cs q (h # hs)"
| pool_threw: "\<lbrakk>pool_reach cs p hs; pool_Get ok n p = (None, q)\<rbrakk> \<Longrightarrow> pool_reach cs q hs"
| pool_released: "\<lbrakk>pool_reach cs p hs; h \<in> set hs\<rbrakk> \<Longrightarrow> pool_reach cs (release h p) (remove1 h hs)"

text \<open>Configurations as the profiles and a sane configuration file give them.\<close>

definition configs_ok :: "pool_config list \<Rightarrow> bool" where
  "configs_ok cs \<longleftrightarrow> distinct (map buffer_size cs) \<and> list_all (\<lambda>c. initial_count c \<le> max_count c) cs"

definition owned :: "nat \<Rightarrow> handle list \<Rightarrow> nat" where
  "owned sz hs = length (filter (\<lambda>h. h_bucket h = Some sz) hs)"

definition free_of :: "pool \<Rightarrow> nat \<Rightarrow> nat list" where
  "free_of p sz = (case p_buckets p sz of None \<Rightarrow> [] | Some b \<Rightarrow> b_buffers b)"

definition ptr_inv :: "pool \<Rightarrow> handle list \<Rightarrow> bool" where
  "ptr_inv p hs \<longleftrightarrow>
     distinct (map h_ptr hs) \<and> (\<forall>h\<in>set hs. h_ptr h < next_ptr p) \<and>
     (\<forall>sz. distinct (free_of p sz)) \<and> (\<forall>sz x. x \<in> set (free_of p sz) \<longrightarrow> x < next_ptr p) \<and>
     (\<forall>sz x. x \<in> set (free_of p sz) \<longrightarrow> x \<notin> h_ptr ` set hs) \<and>
     (\<forall>sz sz' x. x \<in> set (free_of p sz) \<and> x \<in> set (free_of p sz') \<longrightarrow> sz = sz')"

lemma ptr_invI:
  assumes "distinct (map h_ptr hs)" "\<And>h. h \<in> set hs \<Longrightarrow> h_ptr h < next_ptr p"
    "\<And>sz. distinct (free_of p sz)" "\<And>sz x. x \<in> set (free_of p sz) \<Longrightarrow> x < next_ptr p"
    "\<And>sz x. x \<in> set (free_of p sz) \<Longrightarrow> x \<notin> h_ptr ` set hs"
    "\<And>sz sz' x. x \<in> set (free_of p sz) \<Longrightarrow> x \<in> set (free_of p sz') \<Longrightarrow> sz = sz'"
  shows "ptr_inv p hs"
  using assms unfolding ptr_inv_def by blast

lemma ptr_invD:
  assumes "ptr_inv p hs"
  shows "distinct (map h_ptr hs)" "\<And>h. h \<in> set hs \<Longrightarrow> h_ptr h < next_ptr p"
    "\<And>sz. distinct (free_of p sz)" "\<And>sz x. x \<in> set (free_of p sz) \<Longrightarrow> x < next_ptr p"
    "\<And>sz x. x \<in> set (free_of p sz) \<Longrightarrow> x \<notin> h_ptr ` set hs"
    "\<And>sz sz' x. x \<in> set (free_of p sz) \<Longrightarrow> x \<in> set (free_of p sz') \<Longrightarrow> sz = sz'"
proof -
  note c1 = assms [unfolded ptr_inv_def]
  note c2 = conjunct2 [OF c1]
  note c3 = conjunct2 [OF c2]
  note c4 = conjunct2 [OF c3]
  note c5 = conjunct2 [OF c4]
  show "distinct (map h_ptr hs)" by (rule conjunct1 [OF c1])
  show "\<And>h. h \<in> set hs \<Longrightarrow> h_ptr h < next_ptr p" by (rule conjunct1 [OF c2, THEN bspec])
  show "\<And>sz. distinct (free_of p sz)" by (rule conjunct1 [OF c3, THEN spec])
  show "\<And>sz x. x \<in> set (free_of p sz) \<Longrightarrow> x < next_ptr p"
    by (rule conjunct1 [OF c4, THEN spec, THEN spec, THEN mp])
  show "\<And>sz x. x \<in> set (free_of p sz) \<Longrightarrow> x \<notin> h_ptr ` set hs"
    by (rule conjunct1 [OF c5, THEN spec, THEN spec, THEN mp])
  show "\<And>sz sz' x. x \<in> set (free_of p sz) \<Longrightarrow> x \<in> set (free_of p sz') \<Longrightarrow> sz = sz'"
    using conjunct2 [OF c5] by blast
qed

definition bucket_inv :: "pool \<Rightarrow> handle list \<Rightarrow> bool" where
  "bucket_inv p hs \<longleftrightarrow>
     (\<forall>sz\<in>set (bucket_sizes p). p_buckets p sz \<noteq> None) \<and>
     (\<forall>h\<in>set hs. \<forall>sz. h_bucket h = Some sz \<longrightarrow> p_buckets p sz \<noteq> None) \<and>
     (\<forall>sz b. p_buckets p sz = Some b \<longrightarrow>
        allocated_count b = length (b_buffers b) + owned sz hs) \<and>
     (\<forall>sz b. p_buckets p sz = Some b \<longrightarrow>
        length (b_buffers b) + owned sz hs \<le> max_count (b_config b))"

lemma bucket_invI:
  assumes "\<And>sz. sz \<in> set (bucket_sizes p) \<Longrightarrow> p_buckets p sz \<noteq> None"
    "\<And>h sz. h \<in> set hs \<Longrightarrow> h_bucket h = Some sz \<Longrightarrow> p_buckets p sz \<noteq> None"
    "\<And>sz b. p_buckets p sz = Some b \<Longrightarrow> allocated_count b = length (b_buffers b) + owned sz hs"
    "\<And>sz b. p_buckets p sz = Some b \<Longrightarrow> length (b_buffers b) + owned sz hs \<le> max_count (b_config b)"
  shows "bucket_inv p hs"
  unfolding bucket_inv_def
  by (intro conjI allI ballI impI; rule assms; assumption)

lemma bucket_invD:
  assumes "bucket_inv p hs"
  shows "\<And>sz. sz \<in> set (bucket_sizes p) \<Longrightarrow> p_buckets p sz \<noteq> None"
    "\<And>h sz. h \<in> set hs \<Longrightarrow> h_bucket h = Some sz \<Longrightarrow> p_buckets p sz \<noteq> None"
    "\<And>sz b. p_buckets p sz = Some b \<Longrightarrow> allocated_count b = length (b_buffers b) + owned sz hs"
    "\<And>sz b. p_buckets p sz = Some b \<Longrightarrow> length (b_buffers b) + owned sz hs \<le> max_count (b_config b)"
  using assms unfolding bucket_inv_def by simp_all

lemma free_of_upd [simp]:
  "free_of (p\<lparr>p_buckets := (p_buckets p)(sz \<mapsto> b)\<rparr>) sz' = (if sz' = sz then b_buffers b else free_of p sz')"
  "free_of (p\<lparr>next_ptr := n\<rparr>) sz' = free_of p sz'"
  "free_of (p\<lparr>next_ptr := n, p_buckets := (p_buckets p)(sz \<mapsto> b)\<rparr>) sz' =
     (if sz' = sz then b_buffers b else free_of p sz')"
  "free_of (p\<lparr>bucket_sizes := ss\<rparr>) sz' = free_of p sz'"
  by (simp_all add: free_of_def)

lemma owned_simps [simp]:
  "owned sz [] = 0"
  "owned sz (h # hs) = (if h_bucket h = Some sz then Suc (owned sz hs) else owned sz hs)"
  by (simp_all add: owned_def)

lemma owned_remove1:
  "h \<in> set hs \<Longrightarrow> owned sz hs = owned sz (remove1 h hs) + (if h_bucket h = Some sz then 1 else 0)"
  by (induction hs) auto

subsection \<open>The constructor\<close>

lemma fold_add_config:
  assumes "configs_ok (cs)" and "\<forall>c\<in>set cs. p_buckets p (buffer_size c) = None"
    and "ptr_inv p []" and "bucket_inv p []"
  shows "ptr_inv (fold add_config cs p) [] \<and> bucket_inv (fold add_config cs p) []"
  using assms
proof (induction cs arbitrary: p)
  case Nil
  then show ?case by simp
next
  case (Cons c cs)
  have new: "p_buckets p (buffer_size c) = None" using Cons.prems(2) by simp
  then have free: "free_of p (buffer_size c) = []" by (simp add: free_of_def)
  have q: "free_of (add_config c p) sz =
      (if sz = buffer_size c then [next_ptr p..<next_ptr p + initial_count c] else free_of p sz)" for sz
    using new by (simp add: add_config_def Let_def free_of_def)
  have next_p: "next_ptr (add_config c p) = next_ptr p + initial_count c"
    by (simp add: add_config_def Let_def)
  note inv = ptr_invD [OF Cons.prems(3)]
  have "ptr_inv (add_config c p) []"
    by (rule ptr_invI; (unfold q next_p)?)
       (use inv in \<open>fastforce split: if_splits dest: inv(4)\<close>)+
  moreover have "bucket_inv (add_config c p) []"
    using Cons.prems(1,4) new by (auto simp: bucket_inv_def add_config_def Let_def configs_ok_def)
  moreover have "configs_ok cs" using Cons.prems(1) by (simp add: configs_ok_def)
  moreover have "\<forall>d\<in>set cs. p_buckets (add_config c p) (buffer_size d) = None"
  proof
    fix d
    assume d: "d \<in> set cs"
    have "buffer_size c \<notin> buffer_size ` set cs" using Cons.prems(1) by (simp add: configs_ok_def)
    with d have "buffer_size d \<noteq> buffer_size c" by (metis imageI)
    with d Cons.prems(2) show "p_buckets (add_config c p) (buffer_size d) = None"
      by (simp add: add_config_def Let_def)
  qed
  ultimately show ?case using Cons.IH by simp
qed

lemma BufferPool_inv:
  assumes "configs_ok cs"
  shows "ptr_inv (BufferPool cs) [] \<and> bucket_inv (BufferPool cs) []"
proof -
  let ?p = "\<lparr>p_buckets = \<lambda>_. None, bucket_sizes = [], next_ptr = 0\<rparr>"
  have "ptr_inv ?p []" "bucket_inv ?p []" by (auto simp: ptr_inv_def bucket_inv_def free_of_def)
  from fold_add_config [OF assms _ this]
  have "ptr_inv (fold add_config cs ?p) []" "bucket_inv (fold add_config cs ?p) []" by simp_all
  note inv = ptr_invD [OF this(1)] bucket_invD [OF this(2)]
  show ?thesis
    unfolding BufferPool_def Let_def
    by (intro conjI ptr_invI bucket_invI) (use inv in \<open>simp_all\<close>)
qed

subsection \<open>The operations\<close>

lemma pool_Get_fresh_inv:
  assumes "ptr_inv p hs" and "bucket_inv p hs"
  shows "ptr_inv (p\<lparr>next_ptr := next_ptr p + 1\<rparr>) (\<lparr>h_ptr = next_ptr p, h_capacity = c, h_bucket = None\<rparr> # hs)"
    "bucket_inv (p\<lparr>next_ptr := next_ptr p + 1\<rparr>) (\<lparr>h_ptr = next_ptr p, h_capacity = c, h_bucket = None\<rparr> # hs)"
proof -
  note inv = ptr_invD [OF assms(1)]
  show "ptr_inv (p\<lparr>next_ptr := next_ptr p + 1\<rparr>) (\<lparr>h_ptr = next_ptr p, h_capacity = c, h_bucket = None\<rparr> # hs)"
    by (rule ptr_invI) (use inv in \<open>auto dest: inv(2,4) intro: less_SucI\<close>)
  show "bucket_inv (p\<lparr>next_ptr := next_ptr p + 1\<rparr>) (\<lparr>h_ptr = next_ptr p, h_capacity = c, h_bucket = None\<rparr> # hs)"
    using assms(2) by (simp add: bucket_inv_def)
qed

lemma pool_Get_reuse_inv:
  assumes "ptr_inv p hs" and "bucket_inv p hs" and "p_buckets p sz = Some b" and "b_buffers b = xs @ [x]"
  shows "ptr_inv (p\<lparr>p_buckets := (p_buckets p)(sz \<mapsto> b\<lparr>b_buffers := xs\<rparr>)\<rparr>)
      (\<lparr>h_ptr = x, h_capacity = sz, h_bucket = Some sz\<rparr> # hs)"
    "bucket_inv (p\<lparr>p_buckets := (p_buckets p)(sz \<mapsto> b\<lparr>b_buffers := xs\<rparr>)\<rparr>)
      (\<lparr>h_ptr = x, h_capacity = sz, h_bucket = Some sz\<rparr> # hs)"
proof -
  note inv = ptr_invD [OF assms(1)]
  have free: "free_of p sz = xs @ [x]" using assms(3,4) by (simp add: free_of_def)
  have x: "x < next_ptr p" "x \<notin> h_ptr ` set hs" "distinct (xs @ [x])"
    using inv(3) [of sz] inv(4,5) [of x sz] free by auto
  have sub: "y \<in> set (free_of p sz)" if "y \<in> set xs \<or> y = x" for y using that free by auto
  show "ptr_inv (p\<lparr>p_buckets := (p_buckets p)(sz \<mapsto> b\<lparr>b_buffers := xs\<rparr>)\<rparr>)
      (\<lparr>h_ptr = x, h_capacity = sz, h_bucket = Some sz\<rparr> # hs)"
  proof (rule ptr_invI)
    fix s y
    assume "y \<in> set (free_of (p\<lparr>p_buckets := (p_buckets p)(sz \<mapsto> b\<lparr>b_buffers := xs\<rparr>)\<rparr>) s)"
    then have y: "y \<in> set (free_of p s)" "y \<noteq> x"
      using sub x(3) inv(6) [of x s sz] free by (auto split: if_splits)
    from inv(5) [OF y(1)] y(2)
    show "y \<notin> h_ptr ` set (\<lparr>h_ptr = x, h_capacity = sz, h_bucket = Some sz\<rparr> # hs)" by simp
    from inv(4) [OF y(1)]
    show "y < next_ptr (p\<lparr>p_buckets := (p_buckets p)(sz \<mapsto> b\<lparr>b_buffers := xs\<rparr>)\<rparr>)" by simp
  next
    fix s s' y
    assume "y \<in> set (free_of (p\<lparr>p_buckets := (p_buckets p)(sz \<mapsto> b\<lparr>b_buffers := xs\<rparr>)\<rparr>) s)"
      "y \<in> set (free_of (p\<lparr>p_buckets := (p_buckets p)(sz \<mapsto> b\<lparr>b_buffers := xs\<rparr>)\<rparr>) s')"
    then have "y \<in> set (free_of p s)" "y \<in> set (free_of p s')" using sub by (auto split: if_splits)
    then show "s = s'" by (rule inv(6))
  qed (use inv(1-3) x in \<open>auto split: if_splits\<close>)
  show "bucket_inv (p\<lparr>p_buckets := (p_buckets p)(sz \<mapsto> b\<lparr>b_buffers := xs\<rparr>)\<rparr>)
      (\<lparr>h_ptr = x, h_capacity = sz, h_bucket = Some sz\<rparr> # hs)"
    using assms(3,4) bucket_invD [OF assms(2)] bucket_invD(4) [OF assms(2,3)]
    by (intro bucket_invI) (auto split: if_splits)
qed

lemma pool_Get_grow_inv:
  assumes "ptr_inv p hs" and "bucket_inv p hs" and "p_buckets p sz = Some b"
    and "allocated_count b < max_count (b_config b)"
  shows "ptr_inv (p\<lparr>next_ptr := next_ptr p + 1,
      p_buckets := (p_buckets p)(sz \<mapsto> b\<lparr>allocated_count := allocated_count b + 1\<rparr>)\<rparr>)
      (\<lparr>h_ptr = next_ptr p, h_capacity = sz, h_bucket = Some sz\<rparr> # hs)"
    "bucket_inv (p\<lparr>next_ptr := next_ptr p + 1,
      p_buckets := (p_buckets p)(sz \<mapsto> b\<lparr>allocated_count := allocated_count b + 1\<rparr>)\<rparr>)
      (\<lparr>h_ptr = next_ptr p, h_capacity = sz, h_bucket = Some sz\<rparr> # hs)"
proof -
  note inv = ptr_invD [OF assms(1)]
  let ?q = "p\<lparr>next_ptr := next_ptr p + 1,
      p_buckets := (p_buckets p)(sz \<mapsto> b\<lparr>allocated_count := allocated_count b + 1\<rparr>)\<rparr>"
  have q: "free_of ?q sz' = free_of p sz'" for sz' using assms(3) by (simp add: free_of_def)
  show "ptr_inv ?q (\<lparr>h_ptr = next_ptr p, h_capacity = sz, h_bucket = Some sz\<rparr> # hs)"
    by (rule ptr_invI; (unfold q)?) (use inv in \<open>auto dest: inv(2,4) intro: less_SucI\<close>)
  show "bucket_inv ?q (\<lparr>h_ptr = next_ptr p, h_capacity = sz, h_bucket = Some sz\<rparr> # hs)"
    using assms(2-4) by (auto simp: bucket_inv_def)
qed

lemma pool_Get_inv:
  assumes "ptr_inv p hs" and "bucket_inv p hs" and "pool_Get ok n p = (r, q)"
  shows "case r of None \<Rightarrow> q = p | Some h \<Rightarrow> ptr_inv q (h # hs) \<and> bucket_inv q (h # hs)"
proof (cases "lower_bound (bucket_sizes p) n")
  case None
  with assms pool_Get_fresh_inv [OF assms(1,2), of n] show ?thesis
    by (auto simp: pool_Get_def Let_def split: if_splits)
next
  case (Some sz)
  show ?thesis
  proof (cases "p_buckets p sz")
    case None
    with Some assms(3) show ?thesis by (auto simp: pool_Get_def Let_def)
  next
    case b: (Some b)
    consider (reuse) xs x where "b_buffers b = xs @ [x]"
      | (grow) "b_buffers b = []" "allocated_count b < max_count (b_config b)"
      | (full) "b_buffers b = []" "\<not> allocated_count b < max_count (b_config b)"
      by (cases "b_buffers b" rule: rev_cases) auto
    then show ?thesis
    proof cases
      case reuse
      with Some b assms(3) pool_Get_reuse_inv [OF assms(1,2) b reuse] show ?thesis
        by (auto simp: pool_Get_def Let_def)
    next
      case grow
      with Some b assms(3) pool_Get_grow_inv [OF assms(1,2) b grow(2)] show ?thesis
        by (auto simp: pool_Get_def Let_def split: if_splits)
    next
      case full
      with Some b assms(3) pool_Get_fresh_inv [OF assms(1,2), of sz] show ?thesis
        by (auto simp: pool_Get_def Let_def split: if_splits)
    qed
  qed
qed

text \<open>A buffer that comes back always finds room: while it was out, the bucket was below its cap.\<close>

lemma returned_fits:
  assumes "bucket_inv p hs" and "h \<in> set hs" and "h_bucket h = Some sz"
  obtains b where "p_buckets p sz = Some b" "length (b_buffers b) < max_count (b_config b)"
proof -
  note inv = bucket_invD [OF assms(1)]
  obtain b where b: "p_buckets p sz = Some b" using inv(2) [OF assms(2,3)] by auto
  have "0 < owned sz hs" using owned_remove1 [OF assms(2), of sz] assms(3) by simp
  with inv(3,4) [OF b] have "length (b_buffers b) < max_count (b_config b)" by simp
  with b that show thesis by blast
qed

lemma ptr_inv_remove1:
  assumes "ptr_inv p hs" and "h \<in> set hs"
  shows "ptr_inv p (remove1 h hs)" "\<And>y. y \<in> set (remove1 h hs) \<Longrightarrow> h_ptr y \<noteq> h_ptr h"
proof -
  note inv = ptr_invD [OF assms(1)]
  have dist: "distinct hs" and inj: "inj_on h_ptr (set hs)" using inv(1) by (simp_all add: distinct_map)
  have rem: "set (remove1 h hs) = set hs - {h}" using dist by simp
  have "inj_on h_ptr (set (remove1 h hs))" using inj rem by (simp add: inj_on_diff)
  then have "distinct (map h_ptr (remove1 h hs))" using dist by (simp add: distinct_map)
  then show "ptr_inv p (remove1 h hs)"
    by (rule ptr_invI) (use inv rem in \<open>auto dest: inv(2,4-6)\<close>)
  show "\<And>y. y \<in> set (remove1 h hs) \<Longrightarrow> h_ptr y \<noteq> h_ptr h"
    using inj rem assms(2) by (auto simp: inj_on_def)
qed

lemma bucket_inv_remove1:
  assumes "bucket_inv p hs" and "h \<in> set hs" and "h_bucket h = None"
  shows "bucket_inv p (remove1 h hs)"
proof -
  have "owned sz (remove1 h hs) = owned sz hs" for sz using owned_remove1 [OF assms(2), of sz] assms(3) by simp
  with assms(1) show ?thesis
    using set_remove1_subset [of h hs] by (auto simp: bucket_inv_def)
qed

lemma release_inv:
  assumes "ptr_inv p hs" and "bucket_inv p hs" and "h \<in> set hs"
  shows "ptr_inv (release h p) (remove1 h hs) \<and> bucket_inv (release h p) (remove1 h hs)"
proof (cases "h_bucket h")
  case None
  with assms ptr_inv_remove1 bucket_inv_remove1 show ?thesis by (simp add: release_def)
next
  case (Some sz)
  obtain b where b: "p_buckets p sz = Some b" "length (b_buffers b) < max_count (b_config b)"
    using returned_fits [OF assms(2,3) Some] .
  let ?q = "p\<lparr>p_buckets := (p_buckets p)(sz \<mapsto> b\<lparr>b_buffers := b_buffers b @ [h_ptr h]\<rparr>)\<rparr>"
  have rel: "release h p = ?q" using Some b by (simp add: release_def pool_Return_def)
  note out = ptr_inv_remove1 [OF assms(1,3)]
  note inv = ptr_invD [OF assms(1)] and inv' = ptr_invD [OF out(1)]
  have q: "free_of ?q s = (if s = sz then free_of p s @ [h_ptr h] else free_of p s)" for s
    using b(1) by (simp add: free_of_def)
  have fresh: "h_ptr h \<notin> set (free_of p s)" for s using inv(5) assms(3) by blast
  have "ptr_inv ?q (remove1 h hs)"
    by (rule ptr_invI; (unfold q)?)
       (use inv' inv(2) [OF assms(3)] out(2) fresh in \<open>auto split: if_splits dest: inv'(2,4-6)\<close>)
  moreover have "bucket_inv ?q (remove1 h hs)"
  proof (rule bucket_invI)
    note binv = bucket_invD [OF assms(2)]
    show "p_buckets ?q s \<noteq> None" if "s \<in> set (bucket_sizes ?q)" for s using binv(1) that by auto
    show "p_buckets ?q s \<noteq> None" if "g \<in> set (remove1 h hs)" "h_bucket g = Some s" for g s
      using binv(2) [of g s] that set_remove1_subset [of h hs] by auto
    show "allocated_count c = length (b_buffers c) + owned s (remove1 h hs)"
      "length (b_buffers c) + owned s (remove1 h hs) \<le> max_count (b_config c)" if "p_buckets ?q s = Some c" for s c
      using that binv(3,4) [of s] binv(3,4) [OF b(1)] owned_remove1 [OF assms(3), of s] Some
      by (auto split: if_splits)
  qed
  ultimately show ?thesis using rel by simp
qed

lemma pool_reach_inv:
  "pool_reach cs p hs \<Longrightarrow> configs_ok cs \<Longrightarrow> ptr_inv p hs \<and> bucket_inv p hs"
proof (induction rule: pool_reach.induct)
  case (pool_new cs)
  then show ?case by (simp add: BufferPool_inv)
next
  case (pool_got cs p hs ok n h q)
  then show ?case using pool_Get_inv [of p hs ok n "Some h" q] by simp
next
  case (pool_threw cs p hs ok n q)
  then show ?case using pool_Get_inv [of p hs ok n None q] by simp
next
  case (pool_released cs p hs h)
  then show ?case using release_inv by simp
qed

section \<open>Properties\<close>

lemma lower_bound_le: "lower_bound xs v = Some x \<Longrightarrow> v \<le> x \<and> x \<in> set xs"
  by (induction xs) (auto split: if_splits)

text \<open>
  Whatever the pool's state, a buffer that \<open>Get\<close> returns holds at least the requested number
  of bytes; and \<open>Get\<close> returns one unless an allocation was needed and failed.
\<close>

theorem pool_get_large_enough:
  assumes "pool_reach cs p hs" and "configs_ok cs"
  shows "(\<forall>ok h q. pool_Get ok n p = (Some h, q) \<longrightarrow> n \<le> h_capacity h) \<and>
     (\<exists>h q. pool_Get True n p = (Some h, q))"
proof -
  have inv: "bucket_inv p hs" using pool_reach_inv [OF assms] by simp
  have "n \<le> h_capacity h" if "pool_Get ok n p = (Some h, q)" for ok h q
    using that by (auto simp: pool_Get_def Let_def split: option.splits if_splits dest!: lower_bound_le)
  moreover have "\<exists>h q. pool_Get True n p = (Some h, q)"
  proof (cases "lower_bound (bucket_sizes p) n")
    case None
    then show ?thesis by (simp add: pool_Get_def)
  next
    case (Some sz)
    then obtain b where "p_buckets p sz = Some b"
      using inv by (fastforce simp: bucket_inv_def dest!: lower_bound_le)
    with Some show ?thesis by (simp add: pool_Get_def)
  qed
  ultimately show ?thesis by blast
qed


text \<open>
  The count of a bucket is the number of its buffers, free or in use, and never exceeds the
  configured maximum; so a returned buffer always finds room and the fallback branch of
  \<open>Return\<close> is never taken.
\<close>

theorem pool_accounting:
  assumes "pool_reach cs p hs" and "configs_ok cs" and "p_buckets p sz = Some b"
  shows "allocated_count b = length (b_buffers b) + owned sz hs \<and>
     allocated_count b \<le> max_count (b_config b) \<and>
     (\<forall>h\<in>set hs. h_bucket h = Some sz \<longrightarrow> length (b_buffers b) < max_count (b_config b))"
proof -
  have inv: "bucket_inv p hs" using pool_reach_inv [OF assms(1,2)] by simp
  have "length (b_buffers b) < max_count (b_config b)" if "h \<in> set hs" "h_bucket h = Some sz" for h
    using returned_fits [OF inv that] assms(3) by auto
  with inv assms(3) show ?thesis by (auto simp: bucket_inv_def)
qed

subsection \<open>Witnesses on the built-in profiles\<close>

lemma profiles_ok: "configs_ok (profile_configs prof)"
  by (simp add: profile_configs_def configs_ok_def cfg_def Let_def)

lemma default_reach: "pool_reach (profile_configs ''low'') CreateDefault []"
  by (simp add: CreateDefault_def CreateByProfile_def pool_new)

theorem pool_get_large_enough_witness: "\<exists>h q. pool_Get True 1500 CreateDefault = (Some h, q)"
  using pool_get_large_enough [OF default_reach profiles_ok, of 1500] by blast

lemma default_512:
  "p_buckets CreateDefault 512 = Some \<lparr>b_config = cfg 512 8 32, b_buffers = [0..<8], allocated_count = 8\<rparr>"
  by (simp add: CreateDefault_def CreateByProfile_def profile_configs_def lower_char_def Let_def
        BufferPool_def add_config_def cfg_def)

lemma default_sizes: "bucket_sizes CreateDefault = [512, 1024, 4096, 16384, 65536]"
  by (simp add: CreateDefault_def CreateByProfile_def profile_configs_def lower_char_def Let_def
        BufferPool_def add_config_def cfg_def)

definition first_get :: "handle option \<times> pool" where
  "first_get = pool_Get True 100 CreateDefault"

definition second_get :: "handle option \<times> pool" where
  "second_get = pool_Get True 500 (snd first_get)"

lemma two_gets:
  "first_get = (Some \<lparr>h_ptr = 7, h_capacity = 512, h_bucket = Some 512\<rparr>, snd first_get)"
  "second_get = (Some \<lparr>h_ptr = 6, h_capacity = 512, h_bucket = Some 512\<rparr>, snd second_get)"
  by (simp_all add: first_get_def second_get_def pool_Get_def default_sizes default_512 Let_def upt_rec)

lemma two_gets_reach:
  "pool_reach (profile_configs ''low'') (snd second_get) [the (fst second_get), the (fst first_get)]"
proof -
  have "pool_reach (profile_configs ''low'') (snd first_get) [the (fst first_get)]"
    using pool_got [OF default_reach] two_gets(1) unfolding first_get_def by (metis fst_conv option.sel)
  from pool_got [OF this] two_gets(2) show ?thesis
    unfolding second_get_def by (metis fst_conv option.sel)
qed


theorem pool_accounting_witness: "(8 :: nat) = length [0..<8 :: nat] + owned 512 []"
  using pool_accounting [OF default_reach profiles_ok default_512] by simp

end
