(* ===== verification/Websocket.thy ===== *)
theory Websocket
  imports Streams
begin

text \<open>
  \<open>WebsocketStream\<close> (\<open>src/common/websocket_stream.cpp\<close>) and \<open>websocket_utils.h\<close>: the upgrade
  handshake of both sides, the frame writer and the frame reader with its buffer.

  SHA-1 and the base-64 encoder belong to the TLS library and are parameters (\<open>sha1\<close>,
  \<open>b64\<close>); so are the random nonce and the random mask. The bytes that the underlying stream
  has delivered and nobody has taken yet are an argument \<open>inp\<close> of the read operations; a read
  of the underlying stream that lacks bytes stays pending (\<open>Ws_wait\<close>).
\<close>

section \<open>Handshake\<close>

definition ws_Base64Encode :: "(bytes \<Rightarrow> bytes) \<Rightarrow> bytes \<Rightarrow> string" where
  "ws_Base64Encode b64 data = trim_right [CHR 0x00, CHR 0x0A, CHR 0x0D] (string_of_bytes (b64 data))"

definition GenerateClientKey :: "(bytes \<Rightarrow> bytes) \<Rightarrow> bytes \<Rightarrow> string" where
  "GenerateClientKey b64 nonce = ws_Base64Encode b64 nonce"

definition GenerateAcceptKey :: "(bytes \<Rightarrow> bytes) \<Rightarrow> (bytes \<Rightarrow> bytes) \<Rightarrow> string \<Rightarrow> string" where
  "GenerateAcceptKey sha1 b64 client_key =
     ws_Base64Encode b64 (sha1 (bytes_of_string (client_key @ ''258EAFA5-E914-47DA-95CA-C5AB0DC85B11'')))"

definition crlf :: string where "crlf = [CHR 0x0D, CHR 0x0A]"

definition HasValidAcceptHeader :: "(bytes \<Rightarrow> bytes) \<Rightarrow> (bytes \<Rightarrow> bytes) \<Rightarrow> string \<Rightarrow> string \<Rightarrow> bool" where
  "HasValidAcceptHeader sha1 b64 response client_key =
     (find_sub (''Sec-WebSocket-Accept: '' @ GenerateAcceptKey sha1 b64 client_key) response \<noteq> None)"

definition ws_client_request :: "string \<Rightarrow> string" where
  "ws_client_request key =
     ''GET / HTTP/1.1'' @ crlf @ ''Host: cfrp'' @ crlf @ ''Upgrade: websocket'' @ crlf @
     ''Connection: Upgrade'' @ crlf @ ''Sec-WebSocket-Key: '' @ key @ crlf @
     ''Sec-WebSocket-Version: 13'' @ crlf @ crlf"

text \<open>The completions of the client's write and of its one read of at most 1024 bytes.\<close>

definition DoClientHandshake ::
    "(bytes \<Rightarrow> bytes) \<Rightarrow> (bytes \<Rightarrow> bytes) \<Rightarrow> string \<Rightarrow> error_code \<Rightarrow> error_code \<Rightarrow> string \<Rightarrow> error_code \<times> bool" where
  "DoClientHandshake sha1 b64 key write_ec read_ec resp =
     (if write_ec \<noteq> Success then (write_ec, False)
      else if read_ec \<noteq> Success then (read_ec, False)
      else if find_sub ''101 Switching Protocols'' resp \<noteq> None \<and> HasValidAcceptHeader sha1 b64 resp key
      then (Success, True)
      else (Access_denied, False))"

definition ws_server_response :: "string \<Rightarrow> string" where
  "ws_server_response accept_key =
     ''HTTP/1.1 101 Switching Protocols'' @ crlf @ ''Upgrade: websocket'' @ crlf @
     ''Connection: Upgrade'' @ crlf @ ''Sec-WebSocket-Accept: '' @ accept_key @ crlf @ crlf"

datatype hs_next = Hs_fail error_code | Hs_respond string | Hs_more string

definition DoServerHandshakeRead ::
    "(bytes \<Rightarrow> bytes) \<Rightarrow> (bytes \<Rightarrow> bytes) \<Rightarrow> string \<Rightarrow> error_code \<Rightarrow> string \<Rightarrow> hs_next" where
  "DoServerHandshakeRead sha1 b64 request_buf ec chunk =
     (if ec \<noteq> Success then Hs_fail ec
      else
        (let req = request_buf @ chunk in
         if find_sub (crlf @ crlf) req \<noteq> None
         then (case find_sub ''Sec-WebSocket-Key: '' req of
                 None \<Rightarrow> Hs_fail Invalid_argument
               | Some key_pos \<Rightarrow>
                   (let start = key_pos + 19;
                        client_key = (case find_sub_from crlf req key_pos of
                                        None \<Rightarrow> drop start req
                                      | Some key_end \<Rightarrow> take (key_end - start) (drop start req))
                    in Hs_respond (ws_server_response (GenerateAcceptKey sha1 b64 client_key))))
         else if 8192 < length req then Hs_fail Message_size
         else Hs_more req))"

text \<open>The whole server side, over the blocks in which the request arrives.\<close>

fun DoServerHandshake :: "(bytes \<Rightarrow> bytes) \<Rightarrow> (bytes \<Rightarrow> bytes) \<Rightarrow> string \<Rightarrow> string list \<Rightarrow> hs_next" where
  "DoServerHandshake sha1 b64 buf [] = Hs_more buf"
| "DoServerHandshake sha1 b64 buf (chunk # chunks) =
     (case DoServerHandshakeRead sha1 b64 buf Success chunk of
        Hs_more req \<Rightarrow> DoServerHandshake sha1 b64 req chunks
      | r \<Rightarrow> r)"

section \<open>Frames\<close>

definition xor_mask :: "bytes \<Rightarrow> bytes \<Rightarrow> bytes" where
  "xor_mask msk xs = map (\<lambda>i. xs ! i XOR msk ! (i mod 4)) [0..<length xs]"

definition ws_header :: "byte \<Rightarrow> byte \<Rightarrow> 64 word \<Rightarrow> bytes" where
  "ws_header first mask_bit len =
     (if unat len \<le> 125 then [first, mask_bit OR ucast len]
      else if unat len \<le> 65535
      then [first, mask_bit OR 126, ucast (drop_bit 8 len AND 0xFF), ucast (len AND 0xFF)]
      else [first, mask_bit OR 127] @
           map (\<lambda>i. ucast (drop_bit (8 * i) len AND 0xFF)) [7, 6, 5, 4, 3, 2, 1, 0])"

definition ws_write_buffers :: "bool \<Rightarrow> bytes \<Rightarrow> bytes list \<Rightarrow> bytes list" where
  "ws_write_buffers is_client msk buffers =
     (let total = sum_list (map length buffers);
          header = ws_header 0x82 (if is_client then 0x80 else 0) (word_of_nat total)
      in if is_client then [header @ msk, xor_mask msk (concat buffers)]
         else header # filter (\<lambda>b. b \<noteq> []) buffers)"

definition ws_pong_buffers :: "bool \<Rightarrow> bytes \<Rightarrow> bytes \<Rightarrow> bytes list" where
  "ws_pong_buffers is_client msk payload =
     (if is_client then [[0x8A, word_of_nat (length payload) OR 0x80] @ msk, xor_mask msk payload]
      else [[0x8A, word_of_nat (length payload)], payload])"

datatype ws_raw = Raw_incomplete | Raw_refused | Raw_frame byte bool bytes nat bytes

definition of_be64 :: "bytes \<Rightarrow> 64 word" where
  "of_be64 bs = foldl (\<lambda>len b. push_bit 8 len OR ucast b) 0 bs"

text \<open>
  \<open>next_step\<close> of \<open>ReadWsFrame\<close>: the payload with its mask, unmasked in place; then the header.
  The frame carries its opcode, whether it was masked, the buffer, the payload's length and the
  bytes behind the frame.
\<close>

definition ws_next_step :: "byte \<Rightarrow> bool \<Rightarrow> nat \<Rightarrow> bytes \<Rightarrow> ws_raw" where
  "ws_next_step opcode masked len bs =
     (if MAX_MESSAGE_SIZE < len then Raw_refused
      else
        (let n = len + (if masked then 4 else 0) in
         if length bs < n then Raw_incomplete
         else Raw_frame opcode masked
                (if masked then take 4 bs @ xor_mask (take 4 bs) (take len (drop 4 bs)) else take len bs)
                len (drop n bs)))"

definition ws_read_raw :: "bytes \<Rightarrow> ws_raw" where
  "ws_read_raw bs =
     (case bs of
        b0 # b1 # rest \<Rightarrow>
          (let opcode = b0 AND 0x0F;
               fin = (b0 AND 0x80 \<noteq> 0);
               masked = (b1 AND 0x80 \<noteq> 0);
               payload_len = unat (b1 AND 0x7F)
           in if 8 \<le> unat opcode \<and> (\<not> fin \<or> 125 < payload_len) then Raw_refused
              else if payload_len = 126
              then (if length rest < 2 then Raw_incomplete
                    else ws_next_step opcode masked (unat (of_be16 (take 2 rest))) (drop 2 rest))
              else if payload_len = 127
              then (if length rest < 8 then Raw_incomplete
                    else ws_next_step opcode masked (unat (of_be64 (take 8 rest))) (drop 8 rest))
              else ws_next_step opcode masked payload_len rest)
      | _ \<Rightarrow> Raw_incomplete)"

lemma ws_next_step_shrinks:
  "ws_next_step op m len bs = Raw_frame op' m' buf n rest \<Longrightarrow> length rest \<le> length bs"
  by (auto simp: ws_next_step_def Let_def split: if_splits)

lemma ws_read_raw_shrinks: "ws_read_raw bs = Raw_frame op m buf n rest \<Longrightarrow> length rest < length bs"
  by (auto simp: ws_read_raw_def Let_def split: list.splits if_splits dest!: ws_next_step_shrinks)

text \<open>
  \<open>ReadWsFrame\<close>: control frames are handled and skipped. \<open>Ws_stop\<close> closes the underlying stream
  and fails; \<open>Ws_data\<close> has the buffer, the offset of the payload, its length and the rest of the
  input. The first component lists the payloads of the pongs that are sent.
\<close>

datatype ws_frame = Ws_more bytes | Ws_stop error_code | Ws_data bytes nat nat bytes

function ReadWsFrame :: "bytes \<Rightarrow> bytes list \<times> ws_frame" where
  "ReadWsFrame inp =
     (case ws_read_raw inp of
        Raw_incomplete \<Rightarrow> ([], Ws_more inp)
      | Raw_refused \<Rightarrow> ([], Ws_stop No_buffer_space)
      | Raw_frame opcode masked buf len rest \<Rightarrow>
          (let off = (if masked then 4 else 0) in
           if opcode = 0x08 then ([], Ws_stop Eof)
           else if opcode = 0x09
           then (case ReadWsFrame rest of (pongs, r) \<Rightarrow> (drop off buf # pongs, r))
           else if opcode = 0x0A then ReadWsFrame rest
           else ([], Ws_data buf off len rest)))"
  by pat_completeness auto
termination
  by (relation "measure length") (auto dest: ws_read_raw_shrinks)

declare ReadWsFrame.simps [simp del]

record ws_stream =
  read_buffer :: bytes
  read_offset :: nat
  read_remaining :: nat

datatype ws_result = Ws_wait | Ws_done error_code bytes

definition ws_take_buffered :: "nat \<Rightarrow> ws_stream \<Rightarrow> bytes \<times> ws_stream" where
  "ws_take_buffered n w =
     (let to_copy = min (read_remaining w) n
      in (take to_copy (drop (read_offset w) (read_buffer w)),
          w\<lparr>read_offset := read_offset w + to_copy, read_remaining := read_remaining w - to_copy,
            read_buffer := (if read_remaining w - to_copy = 0 then [] else read_buffer w)\<rparr>))"

definition ws_take_frame :: "nat \<Rightarrow> bytes \<Rightarrow> nat \<Rightarrow> nat \<Rightarrow> bytes \<times> ws_stream" where
  "ws_take_frame n buf off len =
     (let to_copy = min len n
      in (take to_copy (drop off buf),
          if to_copy < len
          then \<lparr>read_buffer = buf, read_offset = off + to_copy, read_remaining = len - to_copy\<rparr>
          else \<lparr>read_buffer = [], read_offset = 0, read_remaining = 0\<rparr>))"

definition ws_async_read_some ::
    "nat \<Rightarrow> ws_stream \<Rightarrow> bytes \<Rightarrow> ws_result \<times> ws_stream \<times> bytes \<times> bytes list" where
  "ws_async_read_some n w inp =
     (if n = 0 then (Ws_done Success [], w, inp, [])
      else if 0 < read_remaining w
      then (case ws_take_buffered n w of (d, w') \<Rightarrow> (Ws_done Success d, w', inp, []))
      else (case ReadWsFrame inp of
              (pongs, Ws_more r) \<Rightarrow> (Ws_wait, w, r, pongs)
            | (pongs, Ws_stop ec) \<Rightarrow> (Ws_done ec [], w, [], pongs)
            | (pongs, Ws_data buf off len rest) \<Rightarrow>
                (case ws_take_frame n buf off len of (d, w') \<Rightarrow> (Ws_done Success d, w', rest, pongs))))"

text \<open>The write queue: one write at a time, and an error does not stop the queue.\<close>

record ws_writer =
  ww_queue :: "(bytes list \<times> nat) list"
  ww_is_writing :: bool

definition ws_do_write :: "ws_writer \<Rightarrow> ws_writer \<times> bytes list option" where
  "ws_do_write w =
     (case ww_queue w of [] \<Rightarrow> (w, None) | (bufs, h) # _ \<Rightarrow> (w\<lparr>ww_is_writing := True\<rparr>, Some bufs))"

definition ws_enqueue :: "bytes list \<Rightarrow> nat \<Rightarrow> ws_writer \<Rightarrow> ws_writer \<times> bytes list option" where
  "ws_enqueue bufs h w =
     (let w' = w\<lparr>ww_queue := ww_queue w @ [(bufs, h)]\<rparr>
      in if ww_is_writing w then (w', None) else ws_do_write w')"

definition ws_write_done :: "error_code \<Rightarrow> ws_writer \<Rightarrow> ws_writer \<times> (nat \<times> error_code) list \<times> bytes list option" where
  "ws_write_done ec w =
     (case ww_queue w of
        [] \<Rightarrow> (w, [], None)
      | (bufs, h) # q \<Rightarrow>
          (if q \<noteq> [] then (case ws_do_write (w\<lparr>ww_queue := q\<rparr>) of (w', out) \<Rightarrow> (w', [(h, ec)], out))
           else (w\<lparr>ww_queue := [], ww_is_writing := False\<rparr>, [(h, ec)], None)))"

section \<open>Masking and lengths\<close>

lemma length_xor_mask [simp]: "length (xor_mask msk xs) = length xs"
  by (simp add: xor_mask_def)

lemma xor_mask_involution [simp]: "xor_mask msk (xor_mask msk xs) = xs"
  by (rule nth_equalityI) (simp_all add: xor_mask_def xor.assoc)

lemma small_len_word:
  assumes "unat (len :: 64 word) \<le> 125"
  shows "unat (ucast len :: byte) = unat len"
  using assms by (simp add: unsigned_ucast_eq take_bit_nat_eq_self)

lemma and_low_bits:
  fixes w :: byte
  assumes "unat w < 128"
  shows "(m OR w) AND 0x7F = (m AND 0x7F) OR w" and "(m OR w) AND 0x80 = m AND 0x80"
proof -
  have w: "take_bit 7 w = w"
    using assms by (simp add: word_unat_eq_iff unsigned_take_bit_eq take_bit_nat_eq_self)
  have "w AND 0x7F = take_bit 7 w" by (simp add: take_bit_eq_mask mask_eq_exp_minus_1)
  then show "(m OR w) AND 0x7F = (m AND 0x7F) OR w" using w by (simp add: bit.conj_disj_distrib2)
  have "w AND 0x80 = take_bit 7 w AND 0x80" using w by simp
  also have "\<dots> = 0" by (simp add: take_bit_eq_mask mask_eq_exp_minus_1 and.assoc)
  finally show "(m OR w) AND 0x80 = m AND 0x80" by (simp add: bit.conj_disj_distrib2)
qed

lemma ucast_low_byte: "(ucast (w AND 0xFF) :: byte) = ucast (w :: 64 word)"
proof -
  have "w AND 0xFF = take_bit 8 w" by (simp add: take_bit_eq_mask mask_eq_exp_minus_1)
  then show ?thesis by (simp only:) (rule bit_word_eqI, auto simp: bit_simps)
qed

lemma of_be16_len:
  fixes len :: "64 word"
  shows "of_be16 [ucast (drop_bit 8 len AND 0xFF), ucast (len AND 0xFF)] = ucast len"
  unfolding ucast_low_byte by (rule bit_word_eqI) (auto simp: bit_simps)

lemma next_byte:
  "push_bit 8 (drop_bit (8 + k) len) OR ucast (ucast (drop_bit k len) :: byte) = drop_bit k (len :: 64 word)"
  by (rule bit_word_eqI) (auto simp: bit_simps add.commute add.left_commute)

lemma of_be64_len:
  "of_be64 (map (\<lambda>i. ucast (drop_bit (8 * i) len AND 0xFF)) [7, 6, 5, 4, 3, 2, 1, 0]) = len"
proof -
  have top: "push_bit 8 0 OR ucast (ucast (drop_bit 56 len) :: byte) = drop_bit 56 len"
    using next_byte [of 56 len] by simp
  show ?thesis
    unfolding of_be64_def ucast_low_byte
    using top next_byte [of 48 len] next_byte [of 40 len] next_byte [of 32 len] next_byte [of 24 len]
      next_byte [of 16 len] next_byte [of 8 len] next_byte [of 0 len]
    by simp
qed

section \<open>Frames on the underlying stream\<close>

lemma ws_header_read:
  assumes "n \<le> MAX_MESSAGE_SIZE" and "mb = 0 \<or> mb = 0x80"
  shows "ws_read_raw (ws_header 0x82 mb (word_of_nat n) @ bs) = ws_next_step 2 (mb \<noteq> 0) n bs"
proof -
  let ?len = "word_of_nat n :: 64 word"
  have n: "unat ?len = n" using assms(1) by (simp add: unat_of_nat take_bit_eq_mod MAX_MESSAGE_SIZE_def)
  consider "n \<le> 125" | "125 < n" "n \<le> 65535" | "65535 < n" by linarith
  then show ?thesis
  proof cases
    case 1
    have small: "unat (ucast ?len :: byte) = n" using small_len_word [of ?len] 1 n by simp
    have "unat (ucast ?len :: byte) < 128" using small 1 by simp
    note low = and_low_bits [OF this, of mb]
    have "(mb OR ucast ?len) AND 0x7F = (ucast ?len :: byte)" "((mb OR ucast ?len) AND 0x80 \<noteq> 0) = (mb \<noteq> 0)"
      using low assms(2) by auto
    with small 1 n show ?thesis by (simp add: ws_header_def ws_read_raw_def Let_def)
  next
    case 2
    have "unat (ucast ?len :: 16 word) = n"
      using n 2 by (simp add: unsigned_ucast_eq take_bit_nat_eq_self)
    with of_be16_len [of ?len] 2 n show ?thesis
      using assms(2) by (elim disjE; simp add: ws_header_def ws_read_raw_def Let_def)
  next
    case 3
    with of_be64_len [of ?len] n show ?thesis
      using assms(2) by (elim disjE; simp add: ws_header_def ws_read_raw_def Let_def)
  qed
qed

lemma ws_read_written:
  assumes "length (concat bufs) \<le> MAX_MESSAGE_SIZE" and "length msk = 4"
  shows "ws_read_raw (concat (ws_write_buffers c msk bufs) @ rest) =
    Raw_frame 2 c (if c then msk @ concat bufs else concat bufs) (length (concat bufs)) rest"
proof -
  have "concat (filter (\<lambda>b. b \<noteq> []) bufs) = concat bufs" by (induction bufs) auto
  with ws_header_read [OF assms(1)] assms show ?thesis
    by (simp add: ws_write_buffers_def Let_def sum_list_lengths ws_next_step_def)
qed

text \<open>Client frames carry their mask; server frames are plain.\<close>

definition ws_enc_client :: "bytes \<times> bytes \<Rightarrow> bytes" where
  "ws_enc_client f = concat (ws_write_buffers True (fst f) [snd f])"

definition ws_dec_client :: "bytes \<Rightarrow> ((bytes \<times> bytes) \<times> bytes) option" where
  "ws_dec_client bs =
     (case ws_read_raw bs of
        Raw_frame op True buf n rest \<Rightarrow> if op = 2 then Some ((take 4 buf, drop 4 buf), rest) else None
      | _ \<Rightarrow> None)"

definition ws_enc_server :: "bytes \<Rightarrow> bytes" where
  "ws_enc_server payload = concat (ws_write_buffers False [0, 0, 0, 0] [payload])"

definition ws_dec_server :: "bytes \<Rightarrow> (bytes \<times> bytes) option" where
  "ws_dec_server bs =
     (case ws_read_raw bs of
        Raw_frame op False buf n rest \<Rightarrow> if op = 2 then Some (buf, rest) else None
      | _ \<Rightarrow> None)"

lemma ws_header_ne [simp]: "ws_header f m l \<noteq> []"
  by (simp add: ws_header_def)

interpretation ws_client_framing: framing ws_enc_client ws_dec_client
    "\<lambda>f. length (fst f) = 4 \<and> length (snd f) \<le> MAX_MESSAGE_SIZE"
proof
  fix f :: "bytes \<times> bytes" and rest
  assume ok: "length (fst f) = 4 \<and> length (snd f) \<le> MAX_MESSAGE_SIZE"
  show "ws_enc_client f \<noteq> []" by (simp add: ws_enc_client_def ws_write_buffers_def Let_def)
  show "ws_dec_client (ws_enc_client f @ rest) = Some (f, rest)"
    using ok ws_read_written [of "[snd f]" "fst f" True rest]
    by (simp add: ws_dec_client_def ws_enc_client_def)
qed

interpretation ws_server_framing: framing ws_enc_server ws_dec_server
    "\<lambda>payload. length payload \<le> MAX_MESSAGE_SIZE"
proof
  fix f rest :: bytes
  assume ok: "length f \<le> MAX_MESSAGE_SIZE"
  show "ws_enc_server f \<noteq> []" by (simp add: ws_enc_server_def ws_write_buffers_def Let_def)
  show "ws_dec_server (ws_enc_server f @ rest) = Some (f, rest)"
    using ok ws_read_written [of "[f]" "[0, 0, 0, 0]" False rest]
    by (simp add: ws_dec_server_def ws_enc_server_def)
qed

section \<open>The stream as a byte source\<close>

lemma ReadWsFrame_shrinks:
  "ReadWsFrame inp = (pongs, Ws_data buf off len rest) \<Longrightarrow>
     length rest < length inp \<and> length buf = off + len"
proof (induction inp arbitrary: pongs rule: ReadWsFrame.induct)
  case (1 inp)
  show ?case
  proof (cases "ws_read_raw inp")
    case (Raw_frame op m b n r)
    have buf: "length b = (if m then 4 else 0) + n"
      using Raw_frame by (auto simp: ws_read_raw_def ws_next_step_def Let_def split: list.splits if_splits)
    note short = ws_read_raw_shrinks [OF Raw_frame]
    consider "op = 8" | "op = 9" | "op = 10" | "op \<noteq> 8" "op \<noteq> 9" "op \<noteq> 10" by blast
    then show ?thesis
    proof cases
      case 2
      then obtain ps where "ReadWsFrame r = (ps, Ws_data buf off len rest)"
        using "1.prems" Raw_frame by (subst (asm) ReadWsFrame.simps) (auto simp: Let_def split: prod.splits)
      with "1.IH"(1) [OF Raw_frame] 2 short show ?thesis by fastforce
    next
      case 3
      then have "ReadWsFrame r = (pongs, Ws_data buf off len rest)"
        using "1.prems" Raw_frame by (subst (asm) ReadWsFrame.simps) (auto simp: Let_def)
      with "1.IH"(2) [OF Raw_frame] 3 short show ?thesis by fastforce
    qed (use "1.prems" Raw_frame buf short in \<open>auto simp: ReadWsFrame.simps Let_def split: if_splits\<close>)
  qed (use "1.prems" in \<open>auto simp: ReadWsFrame.simps\<close>)
qed

text \<open>The payloads of the data frames at the front of the input, and that none of them is empty.\<close>

function ws_payloads :: "bytes \<Rightarrow> bytes list" where
  "ws_payloads inp =
     (case ReadWsFrame inp of
        (pongs, Ws_data buf off len rest) \<Rightarrow> drop off buf # ws_payloads rest
      | _ \<Rightarrow> [])"
  by pat_completeness auto
termination
  by (relation "measure length") (auto dest: ReadWsFrame_shrinks [OF sym])

declare ws_payloads.simps [simp del]

lemma ws_payloads_Nil [simp]: "ws_payloads [] = []"
  by (subst ws_payloads.simps, subst ReadWsFrame.simps) (simp add: ws_read_raw_def)

fun ws_unread :: "ws_stream \<times> bytes \<Rightarrow> bytes" where
  "ws_unread (w, inp) =
     take (read_remaining w) (drop (read_offset w) (read_buffer w)) @ concat (ws_payloads inp)"

fun ws_inv :: "ws_stream \<times> bytes \<Rightarrow> bool" where
  "ws_inv (w, inp) \<longleftrightarrow>
     (read_remaining w = 0 \<or> read_offset w + read_remaining w = length (read_buffer w)) \<and>
     [] \<notin> set (ws_payloads inp)"

fun ws_rd :: "ws_stream \<times> bytes \<Rightarrow> nat \<Rightarrow> bytes \<times> ws_stream \<times> bytes" where
  "ws_rd (w, inp) n =
     (case ws_async_read_some n w inp of
        (Ws_done Success d, w', inp', pongs) \<Rightarrow> (d, w', inp')
      | _ \<Rightarrow> ([], w, inp))"

lemma ws_take_buffered_spec:
  assumes "read_offset w + read_remaining w = length (read_buffer w)"
  shows "fst (ws_take_buffered n w) = take n (drop (read_offset w) (read_buffer w))"
    and "read_remaining (snd (ws_take_buffered n w)) = 0 \<or>
      read_offset (snd (ws_take_buffered n w)) + read_remaining (snd (ws_take_buffered n w)) =
        length (read_buffer (snd (ws_take_buffered n w)))"
    and "take (read_remaining (snd (ws_take_buffered n w)))
      (drop (read_offset (snd (ws_take_buffered n w))) (read_buffer (snd (ws_take_buffered n w)))) =
      drop n (drop (read_offset w) (read_buffer w))"
  using assms by (auto simp: ws_take_buffered_def Let_def min_def add.commute)

lemma ws_take_frame_spec:
  assumes "length buf = off + len"
  shows "fst (ws_take_frame n buf off len) = take n (drop off buf)"
    and "read_remaining (snd (ws_take_frame n buf off len)) = 0 \<or>
      read_offset (snd (ws_take_frame n buf off len)) + read_remaining (snd (ws_take_frame n buf off len)) =
        length (read_buffer (snd (ws_take_frame n buf off len)))"
    and "take (read_remaining (snd (ws_take_frame n buf off len)))
      (drop (read_offset (snd (ws_take_frame n buf off len))) (read_buffer (snd (ws_take_frame n buf off len)))) =
      drop n (drop off buf)"
  using assms by (auto simp: ws_take_frame_def Let_def min_def add.commute)

lemma ws_rd_cases:
  assumes "ws_inv (w, inp)"
  shows "ws_inv (snd (ws_rd (w, inp) n)) \<and>
    (\<exists>x y. ws_unread (w, inp) = x @ y \<and> fst (ws_rd (w, inp) n) = take n x \<and>
      ws_unread (snd (ws_rd (w, inp) n)) = drop n x @ y \<and> (0 < n \<and> x = [] \<longrightarrow> y = []))"
proof -
  consider "n = 0" | "0 < n" "0 < read_remaining w" | "0 < n" "read_remaining w = 0" by linarith
  then show ?thesis
  proof cases
    case 1
    with assms show ?thesis
      by (intro conjI exI [of _ "ws_unread (w, inp)"] exI [of _ "[]"]) (auto simp: ws_async_read_some_def)
  next
    case 2
    then have len: "read_offset w + read_remaining w = length (read_buffer w)" using assms by simp
    note spec = ws_take_buffered_spec [OF len, of n]
    have rd: "ws_rd (w, inp) n =
        (take n (drop (read_offset w) (read_buffer w)), snd (ws_take_buffered n w), inp)"
      using 2 spec(1) by (simp add: ws_async_read_some_def case_prod_beta)
    have all: "take (read_remaining w) (drop (read_offset w) (read_buffer w)) = drop (read_offset w) (read_buffer w)"
      using len by simp
    show ?thesis
      unfolding rd using spec(2,3) assms all 2 len
      by (intro conjI exI [of _ "drop (read_offset w) (read_buffer w)"] exI [of _ "concat (ws_payloads inp)"]) auto
  next
    case 3
    show ?thesis
    proof (cases "\<exists>pongs buf off len rest. ReadWsFrame inp = (pongs, Ws_data buf off len rest)")
      case True
      then obtain pongs buf off len rest where fr: "ReadWsFrame inp = (pongs, Ws_data buf off len rest)" by blast
      then have len: "length buf = off + len" by (simp add: ReadWsFrame_shrinks)
      note spec = ws_take_frame_spec [OF len, of n]
      have pay: "ws_payloads inp = drop off buf # ws_payloads rest" using fr by (subst ws_payloads.simps) simp
      have rd: "ws_rd (w, inp) n = (take n (drop off buf), snd (ws_take_frame n buf off len), rest)"
        using 3 fr spec(1) by (simp add: ws_async_read_some_def case_prod_beta)
      show ?thesis
        unfolding rd using spec(2,3) assms pay 3
        by (intro conjI exI [of _ "drop off buf"] exI [of _ "concat (ws_payloads rest)"]) auto
    next
      case False
      then have pay: "ws_payloads inp = []"
        by (subst ws_payloads.simps) (auto split: prod.splits ws_frame.splits)
      have "ws_rd (w, inp) n = ([], w, inp) \<or> ws_rd (w, inp) n = ([], w, [])"
        using False 3 by (auto simp: ws_async_read_some_def split: prod.splits ws_frame.splits error_code.splits)
      then have rd: "fst (ws_rd (w, inp) n) = []" "ws_unread (snd (ws_rd (w, inp) n)) = []"
        "ws_inv (snd (ws_rd (w, inp) n))"
        using pay 3 by (auto simp del: ws_rd.simps)
      show ?thesis using rd pay 3 by (intro conjI exI [of _ "[]"]) (auto simp del: ws_rd.simps)
    qed
  qed
qed

interpretation ws_source: byte_source ws_unread ws_inv ws_rd
proof
  fix s :: "ws_stream \<times> bytes" and n
  obtain w inp where s: "s = (w, inp)" by force
  assume "ws_inv s"
  then obtain x y where "ws_inv (snd (ws_rd s n))" and x: "ws_unread s = x @ y" "fst (ws_rd s n) = take n x"
      "ws_unread (snd (ws_rd s n)) = drop n x @ y" "0 < n \<and> x = [] \<longrightarrow> y = []"
    using ws_rd_cases [of w inp n] unfolding s by blast
  then show "ws_inv (snd (ws_rd s n))" "ws_unread s = fst (ws_rd s n) @ ws_unread (snd (ws_rd s n))"
    "length (fst (ws_rd s n)) \<le> n" by simp_all
  show "fst (ws_rd s n) \<noteq> []" if "0 < n" "ws_unread s \<noteq> []" using x that by auto
qed

section \<open>Exact reads\<close>

text \<open>
  \<open>async_read\<close> of \<open>n\<close> bytes: what is buffered first, then frame after frame until the buffer is
  full. The first component is the error code of the completion, \<open>None\<close> while the read waits for
  more input; the second is what has been copied into the caller's buffer.
\<close>

function ws_async_read ::
    "nat \<Rightarrow> ws_stream \<Rightarrow> bytes \<Rightarrow> error_code option \<times> bytes \<times> ws_stream \<times> bytes \<times> bytes list" where
  "ws_async_read n w inp =
     (if n = 0 then (Some Success, [], w, inp, [])
      else if 0 < read_remaining w
      then
        (let to_copy = min (read_remaining w) n;
             (d, w1) = ws_take_buffered n w
         in if to_copy < n
            then (case ws_async_read (n - to_copy) w1 inp of
                    (r, e, w2, inp2, ps) \<Rightarrow> (r, d @ e, w2, inp2, ps))
            else (Some Success, d, w1, inp, []))
      else
        (case ReadWsFrame inp of
           (ps, Ws_more r) \<Rightarrow> (None, [], w, r, ps)
         | (ps, Ws_stop ec) \<Rightarrow> (Some ec, [], w, [], ps)
         | (ps, Ws_data buf off len rest) \<Rightarrow>
             (let to_copy = min len n;
                  (d, w1) = ws_take_frame n buf off len
              in if to_copy < n
                 then (case ws_async_read (n - to_copy) w1 rest of
                         (r, e, w2, inp2, qs) \<Rightarrow> (r, d @ e, w2, inp2, ps @ qs))
                 else (Some Success, d, w1, rest, ps))))"
  by pat_completeness auto
termination
  by (relation "measure (\<lambda>(n, w, inp). n + length inp)") (auto dest!: ReadWsFrame_shrinks [OF sym])

declare ws_async_read.simps [simp del]

definition ws_in_bounds :: "ws_stream \<Rightarrow> bool" where
  "ws_in_bounds w \<longleftrightarrow> read_remaining w = 0 \<or> read_offset w + read_remaining w = length (read_buffer w)"

lemma ReadWsFrame_stop: "ReadWsFrame inp = (ps, Ws_stop ec) \<Longrightarrow> ec \<noteq> Success"
proof (induction inp arbitrary: ps rule: ReadWsFrame.induct)
  case (1 inp)
  show ?case
  proof (cases "ws_read_raw inp")
    case (Raw_frame op m b n r)
    consider "op = 8" | "op = 9" | "op = 10" | "op \<noteq> 8" "op \<noteq> 9" "op \<noteq> 10" by blast
    then show ?thesis
    proof cases
      case 2
      then obtain qs where "ReadWsFrame r = (qs, Ws_stop ec)"
        using "1.prems" Raw_frame by (subst (asm) ReadWsFrame.simps) (auto simp: Let_def split: prod.splits)
      with "1.IH"(1) [OF Raw_frame] 2 show ?thesis by fastforce
    next
      case 3
      then have "ReadWsFrame r = (ps, Ws_stop ec)"
        using "1.prems" Raw_frame by (subst (asm) ReadWsFrame.simps) (auto simp: Let_def)
      with "1.IH"(2) [OF Raw_frame] 3 show ?thesis by fastforce
    qed (use "1.prems" Raw_frame in \<open>auto simp: ReadWsFrame.simps Let_def split: if_splits\<close>)
  qed (use "1.prems" in \<open>auto simp: ReadWsFrame.simps\<close>)
qed

text \<open>
  The law of an exact read, in one step: \<open>x\<close> is what is at hand before the next frame, and the
  read goes on for what is missing.
\<close>

definition exact_result ::
    "nat \<Rightarrow> bytes \<Rightarrow> error_code option \<times> bytes \<times> ws_stream \<times> bytes \<times> bytes list \<Rightarrow> bool" where
  "exact_result n u res =
     (case res of (r, d, w', inp', ps) \<Rightarrow>
        if n \<le> length u
        then r = Some Success \<and> d = take n u \<and> ws_in_bounds w' \<and> ws_unread (w', inp') = drop n u
        else r \<noteq> Some Success)"

lemma exact_result_step:
  assumes "length x < n" and "exact_result (n - length x) y (r, e, w2, inp2, ps)"
  shows "exact_result n (x @ y) (r, x @ e, w2, inp2, qs)"
  using assms by (auto simp: exact_result_def split: if_splits)

lemma ws_exact_read:
  assumes "ws_in_bounds w"
  shows "exact_result n (ws_unread (w, inp)) (ws_async_read n w inp)"
  using assms
proof (induction n w inp rule: ws_async_read.induct)
  case (1 n w inp)
  consider "n = 0" | "0 < n" "0 < read_remaining w" | "0 < n" "read_remaining w = 0" by linarith
  then show ?case
  proof cases
    case 1
    with "1.prems" show ?thesis by (subst ws_async_read.simps) (simp add: exact_result_def)
  next
    case 2
    let ?u = "drop (read_offset w) (read_buffer w)" and ?y = "concat (ws_payloads inp)"
    have len: "read_offset w + read_remaining w = length (read_buffer w)"
      using "1.prems" 2 by (simp add: ws_in_bounds_def)
    obtain d w1 where t: "ws_take_buffered n w = (d, w1)" by force
    have w1: "d = take n ?u" "ws_in_bounds w1" "ws_unread (w1, inp) = drop n ?u @ ?y"
      using ws_take_buffered_spec [OF len, of n] t by (simp_all add: ws_in_bounds_def)
    have u: "length ?u = read_remaining w" "ws_unread (w, inp) = ?u @ ?y" using len by simp_all
    show ?thesis
    proof (cases "read_remaining w < n")
      case True
      obtain r e w2 inp2 ps where rec: "ws_async_read (n - read_remaining w) w1 inp = (r, e, w2, inp2, ps)"
        by (metis prod_cases5)
      have "exact_result (n - length ?u) ?y (r, e, w2, inp2, ps)"
        using "1.IH"(1) [OF _ _ refl refl t [symmetric]] 2 True t w1 rec u(1) by (simp add: min_def)
      then have "exact_result n (?u @ ?y) (r, ?u @ e, w2, inp2, ps)"
        using True u(1) by (intro exact_result_step) simp_all
      moreover have "ws_async_read n w inp = (r, ?u @ e, w2, inp2, ps)"
        using 2 True t rec w1(1) u(1) by (subst ws_async_read.simps) (simp add: min_def Let_def)
      ultimately show ?thesis unfolding u(2) by simp
    next
      case False
      then have "ws_async_read n w inp = (Some Success, d, w1, inp, [])"
        using 2 t by (subst ws_async_read.simps) (simp add: min_def Let_def)
      with w1 u(1) False show ?thesis unfolding u(2) by (simp add: exact_result_def)
    qed
  next
    case 3
    have u0: "ws_unread (w, inp) = concat (ws_payloads inp)" using 3 by simp
    obtain ps fr where fr: "ReadWsFrame inp = (ps, fr)" by force
    show ?thesis
    proof (cases fr)
      case (Ws_data buf off len rest)
      let ?u = "drop off buf" and ?y = "concat (ws_payloads rest)"
      have len: "length buf = off + len" using fr Ws_data by (simp add: ReadWsFrame_shrinks)
      have pay: "concat (ws_payloads inp) = ?u @ ?y"
        using fr Ws_data by (subst ws_payloads.simps) simp
      obtain d w1 where t: "ws_take_frame n buf off len = (d, w1)" by force
      have w1: "d = take n ?u" "ws_in_bounds w1" "ws_unread (w1, rest) = drop n ?u @ ?y"
        using ws_take_frame_spec [OF len, of n] t by (simp_all add: ws_in_bounds_def)
      have ul: "length ?u = len" using len by simp
      show ?thesis
      proof (cases "len < n")
        case True
        obtain r e w2 inp2 qs where rec: "ws_async_read (n - len) w1 rest = (r, e, w2, inp2, qs)"
          by (metis prod_cases5)
        have "exact_result (n - length ?u) ?y (r, e, w2, inp2, qs)"
          using "1.IH"(2) [OF _ _ fr [symmetric] Ws_data refl refl t [symmetric]] 3 True t w1 rec ul by (simp add: min_def)
        then have "exact_result n (?u @ ?y) (r, ?u @ e, w2, inp2, ps @ qs)"
          using True ul by (intro exact_result_step) simp_all
        moreover have "ws_async_read n w inp = (r, ?u @ e, w2, inp2, ps @ qs)"
          using 3 True t rec w1(1) ul fr Ws_data by (subst ws_async_read.simps) (simp add: min_def Let_def)
        ultimately show ?thesis unfolding u0 pay by simp
      next
        case False
        then have "ws_async_read n w inp = (Some Success, d, w1, rest, ps)"
          using 3 t fr Ws_data by (subst ws_async_read.simps) (simp add: min_def Let_def)
        with w1 ul False show ?thesis unfolding u0 pay by (simp add: exact_result_def)
      qed
    next
      case (Ws_more r)
      then have "ws_payloads inp = []" using fr by (subst ws_payloads.simps) simp
      with 3 fr Ws_more u0 show ?thesis
        by (subst ws_async_read.simps) (simp add: exact_result_def)
    next
      case (Ws_stop ec)
      then have "ws_payloads inp = []" using fr by (subst ws_payloads.simps) simp
      with 3 fr Ws_stop u0 ReadWsFrame_stop [of inp ps ec] show ?thesis
        by (subst ws_async_read.simps) (simp add: exact_result_def)
    qed
  qed
qed

lemma ReadWsFrame_written:
  assumes "length (concat bufs) \<le> MAX_MESSAGE_SIZE" and "length msk = 4"
  shows "ReadWsFrame (concat (ws_write_buffers c msk bufs) @ rest) =
    ([], Ws_data (if c then msk @ concat bufs else concat bufs) (if c then 4 else 0) (length (concat bufs)) rest)"
  unfolding ReadWsFrame.simps [of "concat (ws_write_buffers c msk bufs) @ rest"] ws_read_written [OF assms]
  by simp

lemma ws_payloads_written:
  assumes "list_all (\<lambda>f. length (fst f) = 4 \<and> length (snd f) \<le> MAX_MESSAGE_SIZE) fs"
  shows "ws_payloads (concat (map (\<lambda>f. concat (ws_write_buffers c (fst f) [snd f])) fs)) = map snd fs"
  using assms
proof (induction fs)
  case Nil
  then show ?case by simp
next
  case (Cons f fs)
  let ?rest = "concat (map (\<lambda>f. concat (ws_write_buffers c (fst f) [snd f])) fs)"
  have "ReadWsFrame (concat (ws_write_buffers c (fst f) [snd f]) @ ?rest) =
    ([], Ws_data (if c then fst f @ snd f else snd f) (if c then 4 else 0) (length (snd f)) ?rest)"
    using ReadWsFrame_written [of "[snd f]" "fst f" c ?rest] Cons.prems by simp
  then have "ws_payloads (concat (ws_write_buffers c (fst f) [snd f]) @ ?rest) = snd f # ws_payloads ?rest"
    using Cons.prems by (subst ws_payloads.simps) simp
  with Cons show ?case by simp
qed

section \<open>Properties\<close>

text \<open>
  Messages written to one end of a WebSocket stream come out of the other end as one byte
  sequence: for every choice of masks, in either direction, reads of any positive sizes return
  the payloads in order, across frame borders and all three length encodings.
\<close>

theorem websocket_transports:
  assumes "list_all (\<lambda>f. length (fst f) = 4 \<and> snd f \<noteq> [] \<and> length (snd f) \<le> MAX_MESSAGE_SIZE) fs"
    and "list_all (\<lambda>n. 0 < n) ns" and "length (concat (map snd fs)) \<le> length ns"
  shows "concat (fst (read_many ws_rd
     (\<lparr>read_buffer = [], read_offset = 0, read_remaining = 0\<rparr>,
      concat (map (\<lambda>f. concat (ws_write_buffers c (fst f) [snd f])) fs)) ns)) = concat (map snd fs)"
proof -
  let ?inp = "concat (map (\<lambda>f. concat (ws_write_buffers c (fst f) [snd f])) fs)"
  have pay: "ws_payloads ?inp = map snd fs"
    using assms(1) by (intro ws_payloads_written) (auto simp: list_all_iff)
  moreover have "[] \<notin> snd ` set fs" using assms(1) by (force simp: list_all_iff)
  ultimately show ?thesis
    using ws_source.read_many_all
      [of "(\<lparr>read_buffer = [], read_offset = 0, read_remaining = 0\<rparr>, ?inp)" ns] assms(2,3)
    by simp
qed

theorem websocket_transports_witness:
  "concat (fst (read_many ws_rd
     (\<lparr>read_buffer = [], read_offset = 0, read_remaining = 0\<rparr>,
      concat (map (\<lambda>f. concat (ws_write_buffers True (fst f) [snd f])) [([1, 2, 3, 4], [10, 20]), ([5, 6, 7, 8], [30])]))
     [1, 5, 1])) = [10, 20, 30]"
  using websocket_transports [of "[([1, 2, 3, 4], [10, 20]), ([5, 6, 7, 8], [30])]" "[1, 5, 1]" True]
  by (simp add: MAX_MESSAGE_SIZE_def)

lemma request_end:
  assumes "CHR 0x0D \<notin> set key"
  shows "find_sub (crlf @ crlf) (ws_client_request key) = Some (length (ws_client_request key) - 4)"
  by (simp add: ws_client_request_def crlf_def find_sub_skip [OF assms])

lemma request_key:
  assumes "CHR 0x0D \<notin> set key" and that: "p @ x = ws_client_request key"
  shows "DoServerHandshakeRead sha1 b64 p Success x =
     Hs_respond (ws_server_response (GenerateAcceptKey sha1 b64 key))"
proof -
  have pos: "find_sub ''Sec-WebSocket-Key: '' (ws_client_request key) = Some 69"
    by (simp add: ws_client_request_def crlf_def)
  have split: "ws_client_request key = take 69 (ws_client_request key) @ ''Sec-WebSocket-Key: '' @ key @ crlf @
      ''Sec-WebSocket-Version: 13'' @ crlf @ crlf"
    by (simp add: ws_client_request_def crlf_def)
  have "find_sub crlf (''Sec-WebSocket-Key: '' @ key @ crlf @ ''Sec-WebSocket-Version: 13'' @ crlf @ crlf) =
      Some (19 + length key)"
    by (simp add: crlf_def find_sub_skip [OF assms(1)])
  then have key_end: "find_sub_from crlf (ws_client_request key) 69 = Some (88 + length key)"
    by (subst split) (simp add: find_sub_from_def ws_client_request_def crlf_def)
  have "take (length key) (drop 88 (ws_client_request key)) = key"
    by (simp add: ws_client_request_def crlf_def)
  with pos key_end request_end [OF assms(1)] that show ?thesis
    by (simp add: DoServerHandshakeRead_def Let_def)
qed

lemma server_handshake_chunks:
  assumes "CHR 0x0D \<notin> set key" and "length (ws_client_request key) \<le> 8192"
    and "buf @ concat chunks = ws_client_request key" and "concat chunks \<noteq> []"
  shows "DoServerHandshake sha1 b64 buf chunks =
     Hs_respond (ws_server_response (GenerateAcceptKey sha1 b64 key))"
  using assms(3,4)
proof (induction chunks arbitrary: buf)
  case Nil
  then show ?case by simp
next
  case (Cons chunk chunks)
  show ?case
  proof (cases "concat chunks = []")
    case True
    with Cons.prems request_key [OF assms(1), of buf chunk] show ?thesis by simp
  next
    case False
    have "find_sub (crlf @ crlf) (buf @ chunk) = None"
    proof (rule find_sub_proper_prefix [OF _ _ False])
      show "find_sub (crlf @ crlf) ((buf @ chunk) @ concat chunks) = Some (length (ws_client_request key) - 4)"
        using Cons.prems(1) request_end [OF assms(1)] by simp
      have "4 \<le> length (ws_client_request key)" by (simp add: ws_client_request_def)
      then show "length (ws_client_request key) - 4 + length (crlf @ crlf) = length ((buf @ chunk) @ concat chunks)"
        using arg_cong [OF Cons.prems(1), of length] by (simp add: crlf_def)
    qed
    moreover have "length (buf @ chunk) \<le> 8192"
      using arg_cong [OF Cons.prems(1), of length] assms(2) by simp
    ultimately show ?thesis
      using Cons.IH [of "buf @ chunk"] Cons.prems(1) False by (simp add: DoServerHandshakeRead_def Let_def)
  qed
qed

text \<open>
  The two halves of the upgrade handshake agree: however the client's request is cut into
  blocks, the server answers with a response that the client accepts when it arrives whole.
  What is assumed of the base-64 encoder is that its text has no carriage return and that the key
  is not longer than 4096 characters.
\<close>

theorem websocket_handshake_agrees:
  assumes "\<forall>x. CHR 0x0D \<notin> set (ws_Base64Encode b64 x)"
    and "length (GenerateClientKey b64 nonce) \<le> 4096"
    and "concat chunks = ws_client_request (GenerateClientKey b64 nonce)"
  shows "\<exists>resp. DoServerHandshake sha1 b64 [] chunks = Hs_respond resp \<and>
    DoClientHandshake sha1 b64 (GenerateClientKey b64 nonce) Success Success resp = (Success, True)"
proof -
  let ?key = "GenerateClientKey b64 nonce"
  have key: "CHR 0x0D \<notin> set ?key" using assms(1) by (simp add: GenerateClientKey_def)
  have len: "length (ws_client_request ?key) \<le> 8192" using assms(2) by (simp add: ws_client_request_def crlf_def)
  have "ws_client_request ?key \<noteq> []" by (simp add: ws_client_request_def)
  with assms(3) have ne: "concat chunks \<noteq> []" by metis
  let ?resp = "ws_server_response (GenerateAcceptKey sha1 b64 ?key)"
  have "DoServerHandshake sha1 b64 [] chunks = Hs_respond ?resp"
    by (rule server_handshake_chunks [OF key len _ ne]) (simp add: assms(3))
  moreover have "find_sub ''101 Switching Protocols'' ?resp \<noteq> None"
    using find_sub_occurs [of "''101 Switching Protocols''" "''HTTP/1.1 ''"]
    by (simp add: ws_server_response_def)
  moreover have "HasValidAcceptHeader sha1 b64 ?resp ?key"
  proof -
    let ?pre = "''HTTP/1.1 101 Switching Protocols'' @ crlf @ ''Upgrade: websocket'' @ crlf @
      ''Connection: Upgrade'' @ crlf"
    have "?resp = ?pre @ (''Sec-WebSocket-Accept: '' @ GenerateAcceptKey sha1 b64 ?key) @ crlf @ crlf"
      by (simp add: ws_server_response_def)
    then show ?thesis unfolding HasValidAcceptHeader_def by (metis find_sub_occurs)
  qed
  ultimately show ?thesis by (auto simp: DoClientHandshake_def)
qed

theorem websocket_handshake_agrees_witness:
  "\<exists>resp. DoServerHandshake (\<lambda>x. x) (\<lambda>x. bytes_of_string ''ABC'') []
      [ws_client_request (GenerateClientKey (\<lambda>x. bytes_of_string ''ABC'') [1])] = Hs_respond resp \<and>
    DoClientHandshake (\<lambda>x. x) (\<lambda>x. bytes_of_string ''ABC'') (GenerateClientKey (\<lambda>x. bytes_of_string ''ABC'') [1])
      Success Success resp = (Success, True)"
proof (rule websocket_handshake_agrees)
  have abc: "ws_Base64Encode (\<lambda>x. bytes_of_string ''ABC'') x = ''ABC''" for x
    by (simp add: ws_Base64Encode_def trim_right_def)
  show "\<forall>x. CHR 0x0D \<notin> set (ws_Base64Encode (\<lambda>x. bytes_of_string ''ABC'') x)" by (simp add: abc)
  show "length (GenerateClientKey (\<lambda>x. bytes_of_string ''ABC'') [1]) \<le> 4096" by (simp add: GenerateClientKey_def abc)
  show "concat [ws_client_request (GenerateClientKey (\<lambda>x. bytes_of_string ''ABC'') [1])] =
    ws_client_request (GenerateClientKey (\<lambda>x. bytes_of_string ''ABC'') [1])" by simp
qed

text \<open>
  A frame header that announces more than \<open>MAX_MESSAGE_SIZE\<close> bytes, or a control frame that is
  fragmented or longer than 125 bytes, is refused before any payload is read, and the stream is
  closed.
\<close>

theorem websocket_refuses:
  assumes "8 \<le> unat (b0 AND 0x0F) \<and> (b0 AND 0x80 = 0 \<or> 125 < unat (b1 AND 0x7F)) \<or>
     unat (b0 AND 0x0F) < 8 \<and> unat (b1 AND 0x7F) = 127 \<and> length ext = 8 \<and>
     MAX_MESSAGE_SIZE < unat (of_be64 ext)"
  shows "ReadWsFrame (b0 # b1 # ext @ rest) = ([], Ws_stop No_buffer_space)"
proof -
  have "ws_read_raw (b0 # b1 # ext @ rest) = Raw_refused"
    using assms by (elim disjE conjE) (simp_all add: ws_read_raw_def Let_def ws_next_step_def)
  then show ?thesis by (subst ReadWsFrame.simps) simp
qed

theorem websocket_refuses_witness:
  "ReadWsFrame ([0x82, 0x7F, 0, 0, 0, 1, 0, 0, 0, 0] @ [1, 2]) = ([], Ws_stop No_buffer_space)"
  using websocket_refuses [of "0x82" "0x7F" "[0, 0, 0, 1, 0, 0, 0, 0]" "[1, 2]"]
  by (simp add: MAX_MESSAGE_SIZE_def of_be64_def)

end
