(* ===== verification/Bridge.thy ===== *)
theory Bridge
  imports Protocol
begin

text \<open>
  \<open>Bridge\<close> (\<open>src/common/async_bridge.cpp\<close>): the pipe between a raw stream \<open>s1\<close> and a work
  stream \<open>s2\<close>, with optional compression. Direction 1 reads \<open>s1\<close> and writes \<open>s2\<close>, direction 2
  the other way. Each completion handler is a function to the new state and the operations it
  starts, in order.

  Zstandard is a library: its three functions are a parameter \<open>z\<close>. What the bridges rely on is
  stated as \<open>zstd_lossless\<close> (a compressed block records its size and is decompressed to what it
  was made from) and \<open>zstd_bounded\<close> (decompression never produces more than the capacity it is
  given).
\<close>

section \<open>The compression library\<close>

datatype content_size = Size_error | Size_unknown | Size_known nat

record zstd =
  z_compress :: "int \<Rightarrow> bytes \<Rightarrow> bytes option"
  z_content_size :: "bytes \<Rightarrow> content_size"
  z_decompress :: "nat \<Rightarrow> bytes \<Rightarrow> bytes option"

definition zstd_lossless :: "zstd \<Rightarrow> bool" where
  "zstd_lossless z \<longleftrightarrow>
     (\<forall>level src c. z_compress z level src = Some c \<longrightarrow>
        z_content_size z c = Size_known (length src) \<and> z_decompress z (length src) c = Some src)"

definition zstd_bounded :: "zstd \<Rightarrow> bool" where
  "zstd_bounded z \<longleftrightarrow> (\<forall>cap c d. z_decompress z cap c = Some d \<longrightarrow> length d \<le> cap)"

text \<open>A small run-length codec, on which the hypotheses hold.\<close>

definition rle_compress :: "int \<Rightarrow> bytes \<Rightarrow> bytes option" where
  "rle_compress level src =
     (if src \<noteq> [] \<and> src = replicate (length src) (hd src) \<and> length src < 2 ^ 32
      then Some (hd src # be32 (word_of_nat (length src))) else None)"

definition rle_size :: "bytes \<Rightarrow> content_size" where
  "rle_size c = (if length c = 5 then Size_known (unat (of_be32 (drop 1 c))) else Size_error)"

definition rle_decompress :: "nat \<Rightarrow> bytes \<Rightarrow> bytes option" where
  "rle_decompress cap c =
     (if length c = 5 \<and> unat (of_be32 (drop 1 c)) \<le> cap
      then Some (replicate (unat (of_be32 (drop 1 c))) (hd c)) else None)"

definition rle :: zstd where
  "rle = \<lparr>z_compress = rle_compress, z_content_size = rle_size, z_decompress = rle_decompress\<rparr>"

lemma rle_lossless: "zstd_lossless rle"
  unfolding zstd_lossless_def
proof (intro allI impI)
  fix level :: int and src c
  assume "z_compress rle level src = Some c"
  then have c: "c = hd src # be32 (word_of_nat (length src))" "replicate (length src) (hd src) = src"
    and n: "unat (word_of_nat (length src) :: 32 word) = length src"
    by (auto simp: rle_def rle_compress_def unat_word32 split: if_splits)
  show "z_content_size rle c = Size_known (length src) \<and> z_decompress rle (length src) c = Some src"
    using n c(2) unfolding c(1) by (simp add: rle_def rle_size_def rle_decompress_def)
qed

lemma rle_bounded: "zstd_bounded rle"
  by (auto simp: zstd_bounded_def rle_def rle_decompress_def split: if_splits)

section \<open>State and operations\<close>

record bridge =
  use_compression :: bool
  compression_level :: int
  rate_limited :: bool
  bytes_sent :: "64 word"
  bytes_received :: "64 word"
  br_stopped :: bool

text \<open>A write operation: its direction, what it writes and the length it accounts for.\<close>

datatype write_op = Write_op nat bytes nat

datatype bridge_action =
    Read_some nat nat
  | Read_exact nat nat
  | Limiter_wait nat write_op
  | Write nat bytes
  | Close_streams
  | On_stop

definition Bridge :: "bool \<Rightarrow> int \<Rightarrow> bool \<Rightarrow> bridge" where
  "Bridge compress level limited =
     \<lparr>use_compression = compress, compression_level = level, rate_limited = limited,
      bytes_sent = 0, bytes_received = 0, br_stopped = False\<rparr>"

definition HandleStop :: "bridge \<Rightarrow> bridge \<times> bridge_action list" where
  "HandleStop b = (if br_stopped b then (b, []) else (b\<lparr>br_stopped := True\<rparr>, [Close_streams, On_stop]))"

definition DoRead :: "nat \<Rightarrow> bridge \<Rightarrow> bridge_action list" where
  "DoRead direction b =
     (if \<not> use_compression b then [Read_some direction 32768]
      else if direction = 1 then [Read_some 1 32768]
      else [Read_exact 2 4])"

definition bridge_Start :: "bridge \<Rightarrow> bridge_action list" where
  "bridge_Start b = DoRead 1 b @ DoRead 2 b"

fun run_write_op :: "write_op \<Rightarrow> bridge \<Rightarrow> bridge \<times> bridge_action list" where
  "run_write_op (Write_op direction data len) b =
     ((if direction = 1 then b\<lparr>bytes_received := bytes_received b + word_of_nat len\<rparr>
       else b\<lparr>bytes_sent := bytes_sent b + word_of_nat len\<rparr>),
      [Write direction data])"

definition submit_op :: "nat \<Rightarrow> write_op \<Rightarrow> bridge \<Rightarrow> bridge \<times> bridge_action list" where
  "submit_op len op b = (if rate_limited b then (b, [Limiter_wait len op]) else run_write_op op b)"

text \<open>A packet on the work stream: compressed or not, and its body.\<close>

definition pack :: "zstd \<Rightarrow> int \<Rightarrow> bytes \<Rightarrow> bool \<times> bytes" where
  "pack z level data =
     (case z_compress z level data of
        Some c \<Rightarrow> if length c < length data then (True, c) else (False, data)
      | None \<Rightarrow> (False, data))"

definition enc_packet :: "bool \<times> bytes \<Rightarrow> bytes" where
  "enc_packet p =
     be32 (if fst p then word_of_nat (length (snd p)) OR COMPRESSION_FLAG else word_of_nat (length (snd p)))
     @ snd p"

definition on_read_some :: "zstd \<Rightarrow> nat \<Rightarrow> error_code \<Rightarrow> bytes \<Rightarrow> bridge \<Rightarrow> bridge \<times> bridge_action list" where
  "on_read_some z direction ec data b =
     (if ec \<noteq> Success then HandleStop b
      else if \<not> use_compression b
      then submit_op (length data) (Write_op direction data (length data)) b
      else submit_op (length data)
             (Write_op 1 (enc_packet (pack z (compression_level b) data)) (length data)) b)"

definition on_write_done :: "nat \<Rightarrow> error_code \<Rightarrow> bridge \<Rightarrow> bridge \<times> bridge_action list" where
  "on_write_done direction ec b = (if ec = Success then (b, DoRead direction b) else HandleStop b)"

text \<open>The header completion also returns the length and the flag that the body handler captures.\<close>

definition on_header :: "error_code \<Rightarrow> bytes \<Rightarrow> bridge \<Rightarrow> (bridge \<times> bridge_action list) \<times> (nat \<times> bool) option" where
  "on_header ec header b =
     (if ec \<noteq> Success then (HandleStop b, None)
      else
        (let h2 = of_be32 header;
             len = unat (h2 AND LENGTH_MASK);
             compressed = (h2 AND COMPRESSION_FLAG \<noteq> 0)
         in if MAX_MESSAGE_SIZE < len then (HandleStop b, None)
            else ((b, [Read_exact 2 len]), Some (len, compressed))))"

definition unpack :: "zstd \<Rightarrow> nat \<Rightarrow> bool \<times> bytes \<Rightarrow> bytes option" where
  "unpack z limit p =
     (if fst p
      then (case z_content_size z (snd p) of
              Size_known n \<Rightarrow> if limit < n then None else z_decompress z n (snd p)
            | _ \<Rightarrow> None)
      else Some (snd p))"

definition on_body :: "zstd \<Rightarrow> bool \<Rightarrow> error_code \<Rightarrow> bytes \<Rightarrow> bridge \<Rightarrow> bridge \<times> bridge_action list" where
  "on_body z compressed ec body b =
     (if ec \<noteq> Success then HandleStop b
      else (case unpack z MAX_DECOMPRESSED_SIZE (compressed, body) of
              None \<Rightarrow> HandleStop b
            | Some d \<Rightarrow> submit_op (length d) (Write_op 2 d (length d)) b))"

section \<open>Stopping\<close>

interpretation bridge_stop: stoppable br_stopped HandleStop
  by unfold_locales (auto simp: HandleStop_def)

section \<open>Packets on the work stream\<close>

definition dec_packet :: "bytes \<Rightarrow> ((bool \<times> bytes) \<times> bytes) option" where
  "dec_packet bs =
     (if length bs < 4 then None
      else
        (let h2 = of_be32 (take 4 bs);
             len = unat (h2 AND LENGTH_MASK);
             rest = drop 4 bs
         in if MAX_MESSAGE_SIZE < len \<or> length rest < len then None
            else Some ((h2 AND COMPRESSION_FLAG \<noteq> 0, take len rest), drop len rest)))"

lemma header_word:
  assumes "n < 2 ^ 31"
  shows "(word_of_nat n :: 32 word) AND LENGTH_MASK = word_of_nat n"
    "(word_of_nat n :: 32 word) AND COMPRESSION_FLAG = 0"
    "((word_of_nat n :: 32 word) OR COMPRESSION_FLAG) AND LENGTH_MASK = word_of_nat n"
    "((word_of_nat n :: 32 word) OR COMPRESSION_FLAG) AND COMPRESSION_FLAG = COMPRESSION_FLAG"
proof -
  let ?w = "word_of_nat n :: 32 word"
  have n: "unat ?w = n" using assms by (intro unat_word32) simp
  have small: "take_bit 31 ?w = ?w"
    using n assms by (simp add: word_unat_eq_iff unsigned_take_bit_eq take_bit_nat_eq_self)
  have mask: "LENGTH_MASK = mask 31" by (simp add: LENGTH_MASK_def mask_eq_exp_minus_1)
  show low: "?w AND LENGTH_MASK = ?w" using small by (simp add: mask take_bit_eq_mask [symmetric])
  have apart: "LENGTH_MASK AND COMPRESSION_FLAG = 0" by (simp add: LENGTH_MASK_def COMPRESSION_FLAG_def)
  show flag: "?w AND COMPRESSION_FLAG = 0"
    using low apart by (metis and.assoc and_zero_eq)
  show "(?w OR COMPRESSION_FLAG) AND LENGTH_MASK = ?w"
    using low apart by (simp add: bit.conj_disj_distrib2 and.commute [of COMPRESSION_FLAG])
  show "(?w OR COMPRESSION_FLAG) AND COMPRESSION_FLAG = COMPRESSION_FLAG"
    using flag by (simp add: bit.conj_disj_distrib2)
qed

lemma COMPRESSION_FLAG_ne [simp]: "COMPRESSION_FLAG \<noteq> 0"
  by (simp add: COMPRESSION_FLAG_def)

interpretation bridge_framing: framing enc_packet dec_packet "\<lambda>p. length (snd p) \<le> MAX_MESSAGE_SIZE"
proof
  fix p :: "bool \<times> bytes" and rest
  assume ok: "length (snd p) \<le> MAX_MESSAGE_SIZE"
  show "enc_packet p \<noteq> []" by (simp add: enc_packet_def)
  have "unat (word_of_nat (length (snd p)) :: 32 word) = length (snd p)"
    using ok by (intro unat_word32) (simp add: MAX_MESSAGE_SIZE_def)
  moreover have "length (snd p) < 2 ^ 31" using ok by (simp add: MAX_MESSAGE_SIZE_def)
  note header_word [OF this]
  ultimately show "dec_packet (enc_packet p @ rest) = Some (p, rest)"
    using ok by (cases p) (auto simp: dec_packet_def enc_packet_def Let_def)
qed

text \<open>
  \<open>bridge_recv\<close> runs direction 2 on the bytes that arrive, with the limiter granting and the
  writes succeeding: it returns the blocks written to the raw stream, the bridge, and the bytes
  not yet taken.
\<close>

fun written_blocks :: "bridge_action list \<Rightarrow> bytes list" where
  "written_blocks [] = []"
| "written_blocks (Write dir d # as) = d # written_blocks as"
| "written_blocks (Limiter_wait n (Write_op dir d len) # as) = d # written_blocks as"
| "written_blocks (_ # as) = written_blocks as"

function bridge_recv :: "zstd \<Rightarrow> bytes \<Rightarrow> bridge \<Rightarrow> bytes list \<times> bridge \<times> bytes" where
  "bridge_recv z bs b =
     (if br_stopped b \<or> length bs < 4 then ([], b, bs)
      else
        (case on_header Success (take 4 bs) b of
           ((b1, acts), None) \<Rightarrow> ([], b1, drop 4 bs)
         | ((b1, acts), Some (len, compressed)) \<Rightarrow>
             if length (drop 4 bs) < len then ([], b1, bs)
             else
               (case on_body z compressed Success (take len (drop 4 bs)) b1 of
                  (b2, acts2) \<Rightarrow>
                    (case bridge_recv z (drop len (drop 4 bs)) b2 of
                       (ds, b3, r) \<Rightarrow> (written_blocks acts2 @ ds, b3, r)))))"
  by pat_completeness auto
termination
  by (relation "measure (\<lambda>(z, bs, b). length bs)") auto

declare bridge_recv.simps [simp del]

lemma submit_op_blocks [simp]:
  "written_blocks (snd (submit_op n (Write_op dir d len) b)) = [d]"
  "br_stopped (fst (submit_op n (Write_op dir d len) b)) = br_stopped b"
  by (simp_all add: submit_op_def)

lemma recv_one:
  assumes "\<not> br_stopped b" and "length body \<le> MAX_MESSAGE_SIZE"
    and "unpack z MAX_DECOMPRESSED_SIZE (c, body) = Some d"
  shows "\<exists>b'. \<not> br_stopped b' \<and>
    bridge_recv z (enc_packet (c, body) @ rest) b =
      (case bridge_recv z rest b' of (ds, b3, r) \<Rightarrow> (d # ds, b3, r))"
proof -
  have n: "unat (word_of_nat (length body) :: 32 word) = length body"
    using assms(2) by (intro unat_word32) (simp add: MAX_MESSAGE_SIZE_def)
  have len: "length body < 2 ^ 31" using assms(2) by (simp add: MAX_MESSAGE_SIZE_def)
  let ?b = "fst (submit_op (length d) (Write_op 2 d (length d)) b)"
  have "bridge_recv z (enc_packet (c, body) @ rest) b =
      (case bridge_recv z rest ?b of (ds, b3, r) \<Rightarrow> (d # ds, b3, r))"
    using assms n header_word [OF len]
    by (subst bridge_recv.simps)
       (auto simp: enc_packet_def on_header_def on_body_def Let_def case_prod_beta)
  with assms(1) show ?thesis by (intro exI [of _ ?b]) simp
qed

lemma recv_packets:
  assumes "\<not> br_stopped b"
    and "list_all (\<lambda>p. length (snd p) \<le> MAX_MESSAGE_SIZE \<and> unpack z MAX_DECOMPRESSED_SIZE p \<noteq> None) ps"
  shows "\<exists>b'. \<not> br_stopped b' \<and> bridge_recv z (concat (map enc_packet ps)) b =
    (map (\<lambda>p. the (unpack z MAX_DECOMPRESSED_SIZE p)) ps, b', [])"
  using assms
proof (induction ps arbitrary: b)
  case Nil
  then show ?case by (subst bridge_recv.simps) auto
next
  case (Cons p ps)
  obtain d where d: "unpack z MAX_DECOMPRESSED_SIZE p = Some d" using Cons.prems(2) by auto
  obtain b1 where b1: "\<not> br_stopped b1" "bridge_recv z (enc_packet p @ concat (map enc_packet ps)) b =
      (case bridge_recv z (concat (map enc_packet ps)) b1 of (ds, b3, r) \<Rightarrow> (d # ds, b3, r))"
    using recv_one [OF Cons.prems(1), of "snd p" z "fst p" d] d Cons.prems(2) by auto
  from Cons.IH [OF b1(1)] Cons.prems(2) b1(2) d show ?case by auto
qed

lemma pack_ok:
  assumes "zstd_lossless z" and "length data \<le> MAX_MESSAGE_SIZE"
  shows "length (snd (pack z level data)) \<le> MAX_MESSAGE_SIZE"
    and "unpack z MAX_DECOMPRESSED_SIZE (pack z level data) = Some data"
proof -
  show "length (snd (pack z level data)) \<le> MAX_MESSAGE_SIZE"
    using assms(2) by (auto simp: pack_def split: option.splits)
  have "length data \<le> MAX_DECOMPRESSED_SIZE" using assms(2) by (simp add: size_limits)
  then show "unpack z MAX_DECOMPRESSED_SIZE (pack z level data) = Some data"
    using assms(1) by (auto simp: pack_def unpack_def zstd_lossless_def split: option.splits)
qed

section \<open>Properties\<close>

lemma bridge_packets:
  assumes "zstd_lossless z" and "\<not> br_stopped b" and "list_all (\<lambda>d. length d \<le> 32768) blocks"
  shows "\<exists>b'. \<not> br_stopped b' \<and>
    bridge_recv z (concat (map (\<lambda>d. enc_packet (pack z level d)) blocks)) b = (blocks, b', [])"
proof -
  have ok: "length d \<le> MAX_MESSAGE_SIZE" if "d \<in> set blocks" for d
    using that assms(3) by (force simp: list_all_iff MAX_MESSAGE_SIZE_def)
  have "list_all (\<lambda>p. length (snd p) \<le> MAX_MESSAGE_SIZE \<and> unpack z MAX_DECOMPRESSED_SIZE p \<noteq> None)
      (map (pack z level) blocks)"
    using ok pack_ok [OF assms(1)] by (auto simp: list_all_iff)
  from recv_packets [OF assms(2) this] obtain b' where "\<not> br_stopped b'"
    "bridge_recv z (concat (map enc_packet (map (pack z level) blocks))) b =
      (map (\<lambda>p. the (unpack z MAX_DECOMPRESSED_SIZE p)) (map (pack z level) blocks), b', [])" by blast
  moreover have "map (\<lambda>p. the (unpack z MAX_DECOMPRESSED_SIZE p)) (map (pack z level) blocks) = blocks"
    using ok pack_ok(2) [OF assms(1)] by (auto intro: map_idI)
  ultimately show ?thesis by (auto simp: comp_def)
qed

text \<open>
  Compression is transparent: the packets that one bridge makes of the blocks it reads, each
  compressed or left as it is, are turned back by the bridge at the other end into the same
  blocks, in order, with nothing left over and without stopping, given a lossless compressor.
\<close>

theorem bridge_compression_transparent:
  assumes "zstd_lossless z" and "\<not> br_stopped b" and "list_all (\<lambda>d. length d \<le> 32768) blocks"
  shows "\<exists>b'. \<not> br_stopped b' \<and>
    bridge_recv z (concat (map (\<lambda>d. enc_packet (pack z level d)) blocks)) b = (blocks, b', [])"
  using assms by (rule bridge_packets)

theorem bridge_compression_transparent_witness:
  "fst (bridge_recv rle (concat (map (\<lambda>d. enc_packet (pack rle 1 d)) [replicate 9 7, [1, 2, 3]])) (Bridge True 1 False)) =
     [replicate 9 7, [1, 2, 3]]"
  using bridge_compression_transparent [OF rle_lossless, of "Bridge True 1 False" "[replicate 9 7, [1, 2, 3]]" 1]
  by (auto simp: Bridge_def)

text \<open>
  C32: Whatever the peer sends, a block that the bridge writes to the raw stream is at most
  16 MiB (a packet that claims to be larger is refused before it is decompressed), and the buffer
  that is allocated for a packet's body is at most 1 MiB.
\<close>

theorem bridge_output_bounded:
  assumes "zstd_bounded z"
  shows "(on_header ec header b = (r, Some (len, compressed)) \<longrightarrow> len \<le> MAX_MESSAGE_SIZE) \<and>
    (length body \<le> MAX_MESSAGE_SIZE \<longrightarrow>
       list_all (\<lambda>d. length d \<le> MAX_DECOMPRESSED_SIZE) (written_blocks (snd (on_body z compressed ec body b))))"
proof -
  have bound: "z_decompress z cap c = Some d \<Longrightarrow> length d \<le> cap" for cap c d
    using assms by (simp add: zstd_bounded_def)
  have "length d \<le> MAX_DECOMPRESSED_SIZE"
    if "unpack z MAX_DECOMPRESSED_SIZE (compressed, body) = Some d" "length body \<le> MAX_MESSAGE_SIZE" for d
    using that
    by (auto simp: unpack_def size_limits split: if_splits content_size.splits dest!: bound)
  moreover have "written_blocks (snd (HandleStop b)) = []" by (simp add: HandleStop_def)
  ultimately show ?thesis
    by (auto simp: on_header_def on_body_def Let_def split: if_splits option.splits)
qed

theorem bridge_output_bounded_witness:
  "list_all (\<lambda>d. length d \<le> MAX_DECOMPRESSED_SIZE)
     (written_blocks (snd (on_body rle True Success (7 # be32 9) (Bridge True 1 False))))"
  using bridge_output_bounded [OF rle_bounded, of Success "[]" "Bridge True 1 False"
      "(Bridge True 1 False, [])" 0 True "7 # be32 9"]
  by (simp add: MAX_MESSAGE_SIZE_def)

end
