(* ===== verification/Udp_Bridge.thy ===== *)
theory Udp_Bridge
  imports Bridge
begin

text \<open>
  The two \<open>UdpBridge\<close> classes (\<open>src/server/server.cpp\<close>, \<open>src/client/client.cpp\<close>): datagrams over
  a work stream, each behind a 16-bit header whose top bit marks compression. The server only
  takes packets off the stream and sends them to the user; the client does both directions.
\<close>

section \<open>Operations\<close>

datatype udp_action =
    U_read_exact nat
  | U_receive
  | U_wait_send nat bytes
  | U_send bytes
  | U_wait_write nat bytes
  | U_write bytes
  | U_close

definition udp_read_buf_size :: nat where "udp_read_buf_size = 65535"

text \<open>\<open>DoReadFromStream\<close>: the header completion, with what the body completion captures.\<close>

definition udp_on_header :: "error_code \<Rightarrow> bytes \<Rightarrow> udp_action list \<times> (nat \<times> bool) option" where
  "udp_on_header ec header_bytes =
     (if ec \<noteq> Success then ([U_close], None)
      else
        (let header = of_be16 header_bytes;
             len = unat (header AND 0x7FFF);
             compressed = (header AND 0x8000 \<noteq> 0)
         in if udp_read_buf_size < len then ([U_close], None)
            else ([U_read_exact len], Some (len, compressed))))"

definition udp_on_body :: "zstd \<Rightarrow> bool \<Rightarrow> bool \<Rightarrow> error_code \<Rightarrow> bytes \<Rightarrow> udp_action list" where
  "udp_on_body z limited compressed ec body =
     (if ec \<noteq> Success then [U_close]
      else (case unpack z 65535 (compressed, body) of
              None \<Rightarrow> [U_close]
            | Some d \<Rightarrow> if limited then [U_wait_send (length d) d] else [U_send d]))"

text \<open>After \<open>async_send_to\<close>: the server closes the stream on an error, the client just stops reading.\<close>

definition server_udp_sent :: "error_code \<Rightarrow> udp_action list" where
  "server_udp_sent ec = (if ec = Success then [U_read_exact 2] else [U_close])"

definition client_udp_sent :: "error_code \<Rightarrow> udp_action list" where
  "client_udp_sent ec = (if ec = Success then [U_read_exact 2] else [])"

text \<open>\<open>DoReadFromLocal\<close>: a datagram from the local service becomes a packet.\<close>

definition udp_packet :: "zstd \<Rightarrow> bool \<Rightarrow> int \<Rightarrow> bytes \<Rightarrow> bytes" where
  "udp_packet z compress level data =
     (case (if compress then z_compress z level data else None) of
        Some c \<Rightarrow> if length c < length data
                  then be16 (word_of_nat (length c) OR 0x8000) @ c
                  else be16 (word_of_nat (length data)) @ data
      | None \<Rightarrow> be16 (word_of_nat (length data)) @ data)"

definition udp_on_local :: "zstd \<Rightarrow> bool \<Rightarrow> int \<Rightarrow> bool \<Rightarrow> error_code \<Rightarrow> bytes \<Rightarrow> udp_action list" where
  "udp_on_local z compress level limited ec data =
     (if ec \<noteq> Success then [U_close]
      else (let buf = udp_packet z compress level data
            in if limited then [U_wait_write (length buf) buf] else [U_write buf]))"

definition udp_written :: "error_code \<Rightarrow> udp_action list" where
  "udp_written ec = (if ec = Success then [U_receive] else [U_close])"

section \<open>Packets\<close>

definition enc_udp :: "bool \<times> bytes \<Rightarrow> bytes" where
  "enc_udp p =
     be16 (if fst p then word_of_nat (length (snd p)) OR 0x8000 else word_of_nat (length (snd p))) @ snd p"

definition dec_udp :: "bytes \<Rightarrow> ((bool \<times> bytes) \<times> bytes) option" where
  "dec_udp bs =
     (if length bs < 2 then None
      else (case udp_on_header Success (take 2 bs) of
              (acts, None) \<Rightarrow> None
            | (acts, Some (len, compressed)) \<Rightarrow>
                if length (drop 2 bs) < len then None
                else Some ((compressed, take len (drop 2 bs)), drop len (drop 2 bs))))"

lemma udp_header_word:
  assumes "n < 32768"
  shows "(word_of_nat n :: 16 word) AND 0x7FFF = word_of_nat n"
    "(word_of_nat n :: 16 word) AND 0x8000 = 0"
    "((word_of_nat n :: 16 word) OR 0x8000) AND 0x7FFF = word_of_nat n"
    "((word_of_nat n :: 16 word) OR 0x8000) AND 0x8000 = 0x8000"
proof -
  let ?w = "word_of_nat n :: 16 word"
  have n: "unat ?w = n" using assms by (intro unat_word16) simp
  have "take_bit 15 ?w = ?w"
    using n assms by (simp add: word_unat_eq_iff unsigned_take_bit_eq take_bit_nat_eq_self)
  moreover have m: "(0x7FFF :: 16 word) = mask 15" by (simp add: mask_eq_exp_minus_1)
  ultimately show low: "?w AND 0x7FFF = ?w" by (simp only: m take_bit_eq_mask)
  have apart: "(0x7FFF :: 16 word) AND 0x8000 = 0" by simp
  have "?w AND 0x8000 = (?w AND 0x7FFF) AND 0x8000" by (simp only: low)
  also have "\<dots> = 0" by (simp only: and.assoc apart and_zero_eq)
  finally show flag: "?w AND 0x8000 = 0" .
  show "(?w OR 0x8000) AND 0x7FFF = ?w" using low by (simp add: bit.conj_disj_distrib2)
  show "(?w OR 0x8000) AND 0x8000 = 0x8000" using flag by (simp add: bit.conj_disj_distrib2)
qed

interpretation udp_framing: framing enc_udp dec_udp "\<lambda>p. length (snd p) < 32768"
proof
  fix p :: "bool \<times> bytes" and rest
  assume ok: "length (snd p) < 32768"
  show "enc_udp p \<noteq> []" by (simp add: enc_udp_def)
  have "unat (word_of_nat (length (snd p)) :: 16 word) = length (snd p)"
    using ok by (intro unat_word16) simp
  note hw = this udp_header_word [OF ok]
  show "dec_udp (enc_udp p @ rest) = Some (p, rest)"
  proof (cases p)
    case (Pair c body)
    show ?thesis
      using hw ok unfolding Pair
      by (cases c) (simp_all add: dec_udp_def enc_udp_def udp_on_header_def udp_read_buf_size_def Let_def)
  qed
qed

definition udp_pack :: "zstd \<Rightarrow> bool \<Rightarrow> int \<Rightarrow> bytes \<Rightarrow> bool \<times> bytes" where
  "udp_pack z compress level data = (if compress then pack z level data else (False, data))"

lemma udp_packet_enc: "udp_packet z uc level = (\<lambda>data. enc_udp (udp_pack z uc level data))"
  by (rule ext) (auto simp: udp_packet_def udp_pack_def pack_def enc_udp_def split: option.splits)

lemma udp_pack_ok:
  assumes "zstd_lossless z" and "length data < 32768"
  shows "length (snd (udp_pack z uc level data)) < 32768"
    and "unpack z 65535 (udp_pack z uc level data) = Some data"
  using assms
  by (auto simp: udp_pack_def pack_def unpack_def zstd_lossless_def split: option.splits)

section \<open>Properties\<close>

text \<open>
  Datagrams shorter than 32 KiB keep their boundaries and their contents: the packets that
  the client makes of them are cut apart again and sent on by the server one by one, with and
  without compression.
\<close>

theorem udp_datagrams_roundtrip:
  assumes "zstd_lossless z" and "list_all (\<lambda>d. length d < 32768) ds"
  shows "fst (parse_stream dec_udp (concat (map (udp_packet z uc level) ds))) = map (udp_pack z uc level) ds \<and>
    map (\<lambda>p. udp_on_body z False (fst p) Success (snd p))
      (fst (parse_stream dec_udp (concat (map (udp_packet z uc level) ds)))) = map (\<lambda>d. [U_send d]) ds"
proof -
  have ok: "length (snd (udp_pack z uc level d)) < 32768" "unpack z 65535 (udp_pack z uc level d) = Some d"
    if "d \<in> set ds" for d
    using that assms(2) udp_pack_ok [OF assms(1), of d] by (auto simp: list_all_iff)
  have none: "dec_udp [] = None" by (simp add: dec_udp_def)
  have "parse_stream dec_udp (concat (map enc_udp (map (udp_pack z uc level) ds))) = (map (udp_pack z uc level) ds, [])"
    using udp_framing.parse_frames [OF _ none, of "map (udp_pack z uc level) ds"] ok by (simp add: list_all_iff)
  then have parse: "fst (parse_stream dec_udp (concat (map (udp_packet z uc level) ds))) = map (udp_pack z uc level) ds"
    by (simp add: udp_packet_enc comp_def)
  show ?thesis
    unfolding parse using ok(2) by (auto simp: udp_on_body_def)
qed

theorem udp_datagrams_roundtrip_witness:
  "map (\<lambda>p. udp_on_body rle False (fst p) Success (snd p))
      (fst (parse_stream dec_udp (concat (map (udp_packet rle True 1) [replicate 20 3, [1, 2]])))) =
    [[U_send (replicate 20 3)], [U_send [1, 2]]]"
  using udp_datagrams_roundtrip [OF rle_lossless, of "[replicate 20 3, [1, 2]]" True 1, THEN conjunct2]
  by (simp only: list.pred_inject list.map length_replicate list.size) simp

text \<open>
  A datagram of 32768 to 65535 bytes that is not compressed is misread: its length collides
  with the compression flag, so the receiver takes it for a compressed packet that is 32768
  bytes shorter, and the stream is out of step from there on.
\<close>

theorem udp_large_datagram_misread:
  assumes "32768 \<le> length data" and "length data \<le> 65535"
  shows "udp_on_header Success (take 2 (udp_packet z False level data)) =
    ([U_read_exact (length data - 32768)], Some (length data - 32768, True))"
proof -
  define k where "k = length data - 32768"
  have k: "k < 32768" "length data = k + 32768" using assms by (simp_all add: k_def)
  let ?w = "word_of_nat k :: 16 word"
  have "(word_of_nat (length data) :: 16 word) = ?w + 0x8000" by (simp add: k)
  also have "\<dots> = ?w OR 0x8000"
    using udp_header_word(2) [OF k(1)] by (simp add: disjunctive_add_eq_or)
  finally have w: "(word_of_nat (length data) :: 16 word) = ?w OR 0x8000" .
  have "unat ?w = k" using k(1) by (intro unat_word16) simp
  with udp_header_word(3,4) [OF k(1)] w k show ?thesis
    by (simp add: udp_packet_def udp_on_header_def udp_read_buf_size_def Let_def)
qed

theorem udp_large_datagram_misread_witness:
  "udp_on_header Success (take 2 (udp_packet rle False 1 (replicate 40000 0))) =
    ([U_read_exact 7232], Some (7232, True))"
  using udp_large_datagram_misread [of "replicate 40000 0" rle 1] by simp

end
