(* ===== verification/Control_Channel.thy ===== *)
theory Control_Channel
  imports Bridge
begin

text \<open>
  The control channel: \<open>SendMessage\<close>, \<open>DoReadHeader\<close> and \<open>DoReadBody\<close>, which
  \<open>ControlSession\<close> (\<open>src/server/server.cpp\<close>) and \<open>Client\<close> (\<open>src/client/client.cpp\<close>) share
  line by line. A message is length-prefixed like a bridge packet, compressed whenever the
  compressor succeeds, and limited to \<open>MAX_CONTROL_MESSAGE_SIZE\<close>. What the two sides do
  when a message is refused differs and is in their own theories.
\<close>

section \<open>Operations\<close>

definition ctl_pack :: "zstd \<Rightarrow> bool \<Rightarrow> int \<Rightarrow> Message \<Rightarrow> bool \<times> bytes" where
  "ctl_pack z compression level m =
     (case (if compression then z_compress z level (Message_Encode m) else None) of
        Some c \<Rightarrow> (True, c)
      | None \<Rightarrow> (False, Message_Encode m))"

definition SendMessage :: "zstd \<Rightarrow> bool \<Rightarrow> int \<Rightarrow> Message \<Rightarrow> bytes" where
  "SendMessage z compression level m = enc_packet (ctl_pack z compression level m)"

definition DoReadHeader :: "bytes \<Rightarrow> (nat \<times> bool) option" where
  "DoReadHeader header =
     (let h = of_be32 header;
          len = unat (h AND LENGTH_MASK)
      in if MAX_CONTROL_MESSAGE_SIZE < len then None
         else Some (len, h AND COMPRESSION_FLAG \<noteq> 0))"

datatype ctl_event = Ctl_bad_size | Ctl_exception exn | Ctl_message Message

definition DoReadBody :: "zstd \<Rightarrow> bool \<Rightarrow> bytes \<Rightarrow> ctl_event" where
  "DoReadBody z is_compressed body =
     (case unpack z MAX_DECOMPRESSED_SIZE (is_compressed, body) of
        None \<Rightarrow> Ctl_bad_size
      | Some d \<Rightarrow> (case Message_Decode d of Inl e \<Rightarrow> Ctl_exception e | Inr m \<Rightarrow> Ctl_message m))"

section \<open>Messages on the stream\<close>

definition dec_control :: "bytes \<Rightarrow> ((bool \<times> bytes) \<times> bytes) option" where
  "dec_control bs =
     (if length bs < 4 then None
      else (case DoReadHeader (take 4 bs) of
              None \<Rightarrow> None
            | Some (len, compressed) \<Rightarrow>
                if length (drop 4 bs) < len then None
                else Some ((compressed, take len (drop 4 bs)), drop len (drop 4 bs))))"

interpretation control_framing:
  framing enc_packet dec_control "\<lambda>p. length (snd p) \<le> MAX_CONTROL_MESSAGE_SIZE"
proof
  fix p :: "bool \<times> bytes" and rest
  assume ok: "length (snd p) \<le> MAX_CONTROL_MESSAGE_SIZE"
  show "enc_packet p \<noteq> []" by (simp add: enc_packet_def)
  have "length (snd p) < 2 ^ 31" using ok by (simp add: MAX_CONTROL_MESSAGE_SIZE_def)
  note hw = header_word [OF this]
  have "unat (word_of_nat (length (snd p)) :: 32 word) = length (snd p)"
    using ok by (intro unat_word32) (simp add: MAX_CONTROL_MESSAGE_SIZE_def)
  note hw = this hw
  show "dec_control (enc_packet p @ rest) = Some (p, rest)"
  proof (cases p)
    case (Pair c body)
    show ?thesis
      using hw ok unfolding Pair
      by (cases c) (simp_all add: dec_control_def enc_packet_def DoReadHeader_def Let_def)
  qed
qed

text \<open>The documented bound on the size of compressed data (\<open>ZSTD_COMPRESSBOUND\<close>).\<close>

definition zstd_compress_bound :: "zstd \<Rightarrow> bool" where
  "zstd_compress_bound z \<longleftrightarrow>
     (\<forall>level src c. z_compress z level src = Some c \<longrightarrow> length c \<le> length src + length src div 256 + 64)"

lemma rle_compress_bound: "zstd_compress_bound rle"
  by (auto simp: zstd_compress_bound_def rle_def rle_compress_def split: if_splits)

fun canonical_type :: "MessageType \<Rightarrow> bool" where
  "canonical_type (Other_type b) = (7 < unat b)"
| "canonical_type t = True"

lemma canonical_byte_type: "canonical_type t \<Longrightarrow> type_of_byte (byte_of_type t) = t"
proof (cases t)
  case (Other_type b)
  moreover assume "canonical_type t"
  ultimately have "7 < unat b" by simp
  then have "b \<noteq> 0 \<and> b \<noteq> 1 \<and> b \<noteq> 2 \<and> b \<noteq> 3 \<and> b \<noteq> 4 \<and> b \<noteq> 5 \<and> b \<noteq> 6 \<and> b \<noteq> 7" by auto
  with Other_type show ?thesis by (simp add: type_of_byte_def)
qed (simp_all add: type_of_byte_def)

lemma Decode_Encode: "canonical_type (msg_type m) \<Longrightarrow> Message_Decode (Message_Encode m) = Inr m"
  by (simp add: Message_Decode_def Message_Encode_def canonical_byte_type)

lemma ctl_pack_ok:
  assumes "zstd_lossless z" and "zstd_compress_bound z"
    and "length (Message_Encode m) \<le> 4000000" and "canonical_type (msg_type m)"
  shows "length (snd (ctl_pack z compression level m)) \<le> MAX_CONTROL_MESSAGE_SIZE \<and>
    (case ctl_pack z compression level m of (c, body) \<Rightarrow> DoReadBody z c body = Ctl_message m)"
proof -
  let ?e = "Message_Encode m"
  have small: "length ?e \<le> MAX_DECOMPRESSED_SIZE" "length ?e \<le> MAX_CONTROL_MESSAGE_SIZE"
    using assms(3) by (simp_all add: size_limits)
  have read: "DoReadBody z False ?e = Ctl_message m"
    by (simp add: DoReadBody_def unpack_def Decode_Encode [OF assms(4)])
  show ?thesis
  proof (cases "if compression then z_compress z level ?e else None")
    case None
    with small read show ?thesis by (simp add: ctl_pack_def)
  next
    case (Some c)
    then have c: "z_compress z level ?e = Some c" by (simp split: if_splits)
    then have z: "z_content_size z c = Size_known (length ?e)" "z_decompress z (length ?e) c = Some ?e"
      using assms(1) by (simp_all add: zstd_lossless_def)
    have "length c \<le> length ?e + length ?e div 256 + 64"
      using assms(2) c by (simp add: zstd_compress_bound_def)
    moreover have "length ?e div 256 \<le> 15625" using assms(3) by linarith
    ultimately have "length c \<le> MAX_CONTROL_MESSAGE_SIZE"
      using assms(3) by (simp add: MAX_CONTROL_MESSAGE_SIZE_def)
    moreover have "DoReadBody z True c = Ctl_message m"
      using z small(1) by (simp add: DoReadBody_def unpack_def Decode_Encode [OF assms(4)])
    ultimately show ?thesis using Some by (simp add: ctl_pack_def)
  qed
qed

section \<open>Properties\<close>



end
