(* ===== verification/Server_State.thy ===== *)
theory Server_State
  imports Rate_Limiter "HOL-Library.AList"
begin

text \<open>
  The shared state of \<open>Server\<close> (\<open>src/server/server.h\<close>, \<open>server.cpp\<close>) and the operations on it
  that other components call: client names, virtual-host routes, rate limiters, and the tickets
  of user connections that wait for their work stream. Each operation is one critical section of
  the code. Sessions, mux sessions, listeners, sockets and UDP endpoints are references; an
  \<open>unordered_map\<close> is an association list with distinct keys. Times are nanoseconds.
\<close>

section \<open>State\<close>

record tcp_session_info =
  ti_socket :: nat
  ti_initial_data :: bytes
  ti_proxy_name :: string
  ti_created_at :: nat

record udp_session_info =
  ui_listener :: nat
  ui_endpoint :: nat
  ui_proxy_name :: string
  ui_created_at :: nat

record ticket_expiration =
  te_ticket :: string
  te_is_udp :: bool
  te_expires_at :: nat

record vhost_route =
  vr_session :: nat
  vr_proxy_name :: string
  vr_type :: string

record server =
  sv_token :: string
  allowed_ports :: "(16 word \<times> 16 word) list"
  allowed_clients :: "string list"
  active_client_names :: "string list"
  sv_sessions :: "(string \<times> nat) list"
  vhost_routes :: "(string \<times> vhost_route) list"
  proxy_rate_limiters :: "(string \<times> limiter) list"
  pending_user_conns :: "(string \<times> tcp_session_info) list"
  pending_udp_sessions :: "(string \<times> udp_session_info) list"
  ticket_expiration_queue :: "ticket_expiration list"
  endpoint_to_ticket :: "((nat \<times> nat) \<times> string) list"
  mux_to_control :: "(nat \<times> nat) list"

definition new_server :: "string \<Rightarrow> (16 word \<times> 16 word) list \<Rightarrow> string list \<Rightarrow> server" where
  "new_server token ports clients =
     \<lparr>sv_token = token, allowed_ports = ports, allowed_clients = clients, active_client_names = [],
      sv_sessions = [], vhost_routes = [], proxy_rate_limiters = [], pending_user_conns = [],
      pending_udp_sessions = [], ticket_expiration_queue = [], endpoint_to_ticket = [],
      mux_to_control = []\<rparr>"

section \<open>Policy\<close>

definition IsPortAllowed :: "16 word \<Rightarrow> server \<Rightarrow> bool" where
  "IsPortAllowed port s =
     (allowed_ports s = [] \<or> list_ex (\<lambda>(lo, hi). lo \<le> port \<and> port \<le> hi) (allowed_ports s))"

definition IsClientAllowed :: "string \<Rightarrow> server \<Rightarrow> bool" where
  "IsClientAllowed name s = (allowed_clients s = [] \<or> name \<in> set (allowed_clients s))"

section \<open>Client names\<close>

text \<open>\<open>std::to_string\<close> of a non-negative integer.\<close>

definition digit_char :: "nat \<Rightarrow> char" where
  "digit_char d = char_of (48 + d)"

fun to_string :: "nat \<Rightarrow> string" where
  "to_string n = (if n < 10 then [digit_char n] else to_string (n div 10) @ [digit_char (n mod 10)])"

declare to_string.simps [simp del]

fun of_decimal :: "string \<Rightarrow> nat" where
  "of_decimal s = foldl (\<lambda>n c. 10 * n + (of_char c - 48)) 0 s"

lemma of_decimal_to_string: "of_decimal (to_string n) = n"
proof (induction n rule: to_string.induct)
  case (1 n)
  have digit: "of_char (digit_char d) - 48 = d" if "d < 10" for d
    using that by (simp add: digit_char_def)
  show ?case
  proof (cases "n < 10")
    case True
    then show ?thesis by (subst to_string.simps) (simp add: digit)
  next
    case False
    have "of_decimal (to_string n) = 10 * of_decimal (to_string (n div 10)) + n mod 10"
      using False by (subst to_string.simps) (simp add: digit)
    with 1 [OF False] show ?thesis by simp
  qed
qed

lemma to_string_inj: "inj to_string"
  by (metis injI of_decimal_to_string)

text \<open>The suffix loop of \<open>AllocateClientName\<close>; it ends because the set of active names is finite.\<close>

lemma suffix_inj: "inj (\<lambda>j. name @ ''_'' @ to_string j)"
  using to_string_inj by (auto simp: inj_def)

lemma taken_finite: "finite {j. k \<le> j \<and> name @ ''_'' @ to_string j \<in> set active}"
proof -
  have "finite ((\<lambda>j. name @ ''_'' @ to_string j) -` set active)"
    by (rule finite_vimageI) (simp_all add: suffix_inj del: append.simps)
  then show ?thesis by (rule finite_subset [rotated]) auto
qed

function free_name :: "string list \<Rightarrow> string \<Rightarrow> nat \<Rightarrow> string" where
  "free_name active name suffix =
     (if name @ ''_'' @ to_string suffix \<in> set active then free_name active name (suffix + 1)
      else name @ ''_'' @ to_string suffix)"
  by pat_completeness auto
termination
proof (relation "measure (\<lambda>(active, name, k). card {j. k \<le> j \<and> name @ ''_'' @ to_string j \<in> set active})")
  fix active name and suffix :: nat
  assume taken: "name @ ''_'' @ to_string suffix \<in> set active"
  let ?A = "{j. suffix + 1 \<le> j \<and> name @ ''_'' @ to_string j \<in> set active}"
    and ?B = "{j. suffix \<le> j \<and> name @ ''_'' @ to_string j \<in> set active}"
  have "?A \<subseteq> ?B" by auto
  moreover have "suffix \<in> ?B" "suffix \<notin> ?A" using taken by simp_all
  ultimately have "?A \<subset> ?B" by blast
  then show "((active, name, suffix + 1), active, name, suffix) \<in>
      measure (\<lambda>(active, name, k). card {j. k \<le> j \<and> name @ ''_'' @ to_string j \<in> set active})"
    using psubset_card_mono [OF taken_finite] by simp
qed simp

declare free_name.simps [simp del]

definition AllocateClientName :: "string \<Rightarrow> nat \<Rightarrow> server \<Rightarrow> string \<times> server" where
  "AllocateClientName requested session s =
     (let name = (if requested = [] then ''client'' else requested);
          final = (if name \<in> set (active_client_names s)
                   then free_name (active_client_names s) name 1 else name)
      in (final, s\<lparr>active_client_names := final # active_client_names s,
                   sv_sessions := AList.update final session (sv_sessions s)\<rparr>))"

definition ReleaseClientName :: "string \<Rightarrow> server \<Rightarrow> server" where
  "ReleaseClientName name s =
     s\<lparr>active_client_names := removeAll name (active_client_names s),
       sv_sessions := AList.delete name (sv_sessions s)\<rparr>"

lemma free_name_free: "free_name active name k \<notin> set active"
  by (induction active name k rule: free_name.induct) (subst free_name.simps, simp)

lemma free_name_shape: "\<exists>j\<ge>k. free_name active name k = name @ ''_'' @ to_string j"
proof (induction active name k rule: free_name.induct)
  case (1 active name k)
  show ?case
  proof (cases "name @ ''_'' @ to_string k \<in> set active")
    case True
    with 1 obtain j where "k + 1 \<le> j" "free_name active name (k + 1) = name @ ''_'' @ to_string j" by blast
    with True show ?thesis by (subst free_name.simps) (auto intro!: exI [of _ j])
  next
    case False
    then show ?thesis by (subst free_name.simps) (auto intro!: exI [of _ k])
  qed
qed

lemma free_name_tried:
  "\<exists>j\<ge>k. free_name active name k = name @ ''_'' @ to_string j \<and>
     (\<forall>i. k \<le> i \<and> i < j \<longrightarrow> name @ ''_'' @ to_string i \<in> set active)"
proof (induction active name k rule: free_name.induct)
  case (1 active name k)
  show ?case
  proof (cases "name @ ''_'' @ to_string k \<in> set active")
    case True
    with 1 obtain j where j: "k + 1 \<le> j" "free_name active name (k + 1) = name @ ''_'' @ to_string j"
      "\<forall>i. k + 1 \<le> i \<and> i < j \<longrightarrow> name @ ''_'' @ to_string i \<in> set active" by blast
    have "name @ ''_'' @ to_string i \<in> set active" if "k \<le> i" "i < j" for i
      using that True j(3) by (cases "i = k") auto
    with j True show ?thesis by (subst free_name.simps) (auto intro!: exI [of _ j])
  next
    case False
    then show ?thesis by (subst free_name.simps) (auto intro!: exI [of _ k])
  qed
qed

lemma free_name_bound:
  "\<exists>j. k \<le> j \<and> j \<le> k + length active \<and> free_name active name k = name @ ''_'' @ to_string j"
proof -
  obtain j where j: "k \<le> j" "free_name active name k = name @ ''_'' @ to_string j"
    "\<forall>i. k \<le> i \<and> i < j \<longrightarrow> name @ ''_'' @ to_string i \<in> set active"
    using free_name_tried by blast
  have "card ((\<lambda>i. name @ ''_'' @ to_string i) ` {k..<j}) = j - k"
    using to_string_inj by (subst card_image) (auto simp: inj_on_def inj_def)
  moreover have "card ((\<lambda>i. name @ ''_'' @ to_string i) ` {k..<j}) \<le> card (set active)"
    using j(3) by (intro card_mono) auto
  ultimately have "j \<le> k + length active" using card_length [of active] j(1) by linarith
  with j show ?thesis by blast
qed

text \<open>
  C35: The search for a free name ends: the name is the requested one, or gets a suffix that is at
  most one more than the number of active names.
\<close>

theorem allocate_name_terminates:
  "let name = (if requested = [] then ''client'' else requested);
       final = fst (AllocateClientName requested session s)
   in final = name \<or>
      (\<exists>j. j \<le> length (active_client_names s) + 1 \<and> final = name @ ''_'' @ to_string j)"
  using free_name_bound [of 1 "active_client_names s" "if requested = [] then ''client'' else requested"]
  by (auto simp: AllocateClientName_def Let_def add.commute)

section \<open>Routes and rate limiters\<close>

definition AddVhostRoute :: "string \<Rightarrow> nat \<Rightarrow> string \<Rightarrow> string \<Rightarrow> server \<Rightarrow> server" where
  "AddVhostRoute domain session proxy_name type s =
     s\<lparr>vhost_routes := AList.update domain
         \<lparr>vr_session = session, vr_proxy_name = proxy_name, vr_type = type\<rparr> (vhost_routes s)\<rparr>"

definition RemoveVhostRoute :: "string \<Rightarrow> server \<Rightarrow> server" where
  "RemoveVhostRoute domain s = s\<lparr>vhost_routes := AList.delete domain (vhost_routes s)\<rparr>"

definition GetRateLimiter :: "string \<Rightarrow> server \<Rightarrow> limiter option" where
  "GetRateLimiter proxy_name s = map_of (proxy_rate_limiters s) proxy_name"

definition CreateRateLimiter :: "nat \<Rightarrow> string \<Rightarrow> int \<Rightarrow> server \<Rightarrow> server" where
  "CreateRateLimiter now proxy_name rate s =
     s\<lparr>proxy_rate_limiters := AList.update proxy_name
         (case map_of (proxy_rate_limiters s) proxy_name of
            None \<Rightarrow> new_limiter rate now
          | Some l \<Rightarrow> set_rate rate l) (proxy_rate_limiters s)\<rparr>"

definition RemoveRateLimiter :: "string \<Rightarrow> server \<Rightarrow> server" where
  "RemoveRateLimiter proxy_name s =
     s\<lparr>proxy_rate_limiters := AList.delete proxy_name (proxy_rate_limiters s)\<rparr>"

definition RemoveMuxControl :: "nat \<Rightarrow> server \<Rightarrow> server" where
  "RemoveMuxControl mux s = s\<lparr>mux_to_control := AList.delete mux (mux_to_control s)\<rparr>"

section \<open>Tickets\<close>

definition ticket_lifetime :: nat where "ticket_lifetime = 10 * 10 ^ 9"

definition MAX_PENDING_TICKETS :: nat where "MAX_PENDING_TICKETS = 512"

definition RemoveEndpoint :: "nat \<Rightarrow> nat \<Rightarrow> server \<Rightarrow> server" where
  "RemoveEndpoint listener endpoint s =
     s\<lparr>endpoint_to_ticket := AList.delete (listener, endpoint) (endpoint_to_ticket s)\<rparr>"

definition expire_ticket :: "ticket_expiration \<Rightarrow> server \<Rightarrow> server" where
  "expire_ticket e s =
     (if te_is_udp e
      then (case map_of (pending_udp_sessions s) (te_ticket e) of
              None \<Rightarrow> s
            | Some u \<Rightarrow> (RemoveEndpoint (ui_listener u) (ui_endpoint u) s)
                \<lparr>pending_udp_sessions := AList.delete (te_ticket e) (pending_udp_sessions s)\<rparr>)
      else s\<lparr>pending_user_conns := AList.delete (te_ticket e) (pending_user_conns s)\<rparr>)"

lemma expire_ticket_queue [simp]:
  "ticket_expiration_queue (expire_ticket e s) = ticket_expiration_queue s"
  by (simp add: expire_ticket_def RemoveEndpoint_def split: option.splits)

function DoLazyCleanup :: "nat \<Rightarrow> server \<Rightarrow> server" where
  "DoLazyCleanup now s =
     (case ticket_expiration_queue s of
        [] \<Rightarrow> s
      | oldest # q \<Rightarrow>
          if te_expires_at oldest \<le> now
          then DoLazyCleanup now ((expire_ticket oldest s)\<lparr>ticket_expiration_queue := q\<rparr>)
          else s)"
  by pat_completeness auto
termination
  by (relation "measure (\<lambda>(now, s). length (ticket_expiration_queue s))") auto

declare DoLazyCleanup.simps [simp del]

definition pending_count :: "server \<Rightarrow> nat" where
  "pending_count s = length (pending_user_conns s) + length (pending_udp_sessions s)"

definition emplace :: "'k \<Rightarrow> 'v \<Rightarrow> ('k \<times> 'v) list \<Rightarrow> ('k \<times> 'v) list" where
  "emplace k v m = (if map_of m k = None then (k, v) # m else m)"

definition RegisterUserConn :: "nat \<Rightarrow> string \<Rightarrow> nat \<Rightarrow> string \<Rightarrow> bytes \<Rightarrow> server \<Rightarrow> server" where
  "RegisterUserConn now ticket socket proxy_name initial_data s =
     (let s1 = DoLazyCleanup now s in
      if MAX_PENDING_TICKETS \<le> pending_count s1 then s1
      else s1\<lparr>pending_user_conns := emplace ticket
                \<lparr>ti_socket = socket, ti_initial_data = initial_data, ti_proxy_name = proxy_name,
                 ti_created_at = now\<rparr> (pending_user_conns s1),
              ticket_expiration_queue := ticket_expiration_queue s1 @
                [\<lparr>te_ticket = ticket, te_is_udp = False, te_expires_at = now + ticket_lifetime\<rparr>]\<rparr>)"

definition RegisterUdpSession :: "nat \<Rightarrow> string \<Rightarrow> nat \<Rightarrow> nat \<Rightarrow> string \<Rightarrow> server \<Rightarrow> server" where
  "RegisterUdpSession now ticket listener endpoint proxy_name s =
     (let s1 = DoLazyCleanup now s in
      if MAX_PENDING_TICKETS \<le> pending_count s1 then s1
      else s1\<lparr>pending_udp_sessions := emplace ticket
                \<lparr>ui_listener = listener, ui_endpoint = endpoint, ui_proxy_name = proxy_name,
                 ui_created_at = now\<rparr> (pending_udp_sessions s1),
              ticket_expiration_queue := ticket_expiration_queue s1 @
                [\<lparr>te_ticket = ticket, te_is_udp = True, te_expires_at = now + ticket_lifetime\<rparr>]\<rparr>)"

definition ClearPendingForProxy :: "string \<Rightarrow> server \<Rightarrow> server" where
  "ClearPendingForProxy proxy_name s =
     s\<lparr>pending_user_conns := filter (\<lambda>(t, i). ti_proxy_name i \<noteq> proxy_name) (pending_user_conns s),
       pending_udp_sessions := filter (\<lambda>(t, u). ui_proxy_name u \<noteq> proxy_name) (pending_udp_sessions s)\<rparr>"

text \<open>The critical section in which a work stream claims the connection of its ticket.\<close>

datatype claim = Claimed_tcp tcp_session_info | Claimed_udp udp_session_info | Not_found

definition claim_ticket :: "string \<Rightarrow> server \<Rightarrow> claim \<times> server" where
  "claim_ticket ticket s =
     (case map_of (pending_user_conns s) ticket of
        Some i \<Rightarrow> (Claimed_tcp i, s\<lparr>pending_user_conns := AList.delete ticket (pending_user_conns s)\<rparr>)
      | None \<Rightarrow>
          (case map_of (pending_udp_sessions s) ticket of
             Some u \<Rightarrow> (Claimed_udp u,
               (RemoveEndpoint (ui_listener u) (ui_endpoint u) s)
                 \<lparr>pending_udp_sessions := AList.delete ticket (pending_udp_sessions s)\<rparr>)
           | None \<Rightarrow> (Not_found, s)))"

text \<open>\<open>UdpProxyListener::DoReceive\<close>: the datagram itself is not kept anywhere.\<close>

definition udp_listener_receive ::
    "nat \<Rightarrow> nat \<Rightarrow> nat \<Rightarrow> string \<Rightarrow> string \<Rightarrow> bytes \<Rightarrow> server \<Rightarrow> server \<times> string option" where
  "udp_listener_receive now listener endpoint ticket proxy_name datagram s =
     (case map_of (endpoint_to_ticket s) (listener, endpoint) of
        Some t \<Rightarrow> (s, None)
      | None \<Rightarrow>
          (RegisterUdpSession now ticket listener endpoint proxy_name
             (s\<lparr>endpoint_to_ticket := AList.update (listener, endpoint) ticket (endpoint_to_ticket s)\<rparr>),
           Some ticket))"

section \<open>Invariant of the tickets\<close>

definition queue_sorted :: "server \<Rightarrow> bool" where
  "queue_sorted s \<longleftrightarrow> sorted (map te_expires_at (ticket_expiration_queue s))"

definition tracked_tcp :: "server \<Rightarrow> bool" where
  "tracked_tcp s \<longleftrightarrow> list_all (\<lambda>(t, i).
     \<lparr>te_ticket = t, te_is_udp = False, te_expires_at = ti_created_at i + ticket_lifetime\<rparr>
       \<in> set (ticket_expiration_queue s)) (pending_user_conns s)"

definition tracked_udp :: "server \<Rightarrow> bool" where
  "tracked_udp s \<longleftrightarrow> list_all (\<lambda>(t, u).
     \<lparr>te_ticket = t, te_is_udp = True, te_expires_at = ui_created_at u + ticket_lifetime\<rparr>
       \<in> set (ticket_expiration_queue s)) (pending_udp_sessions s)"

definition tickets_ok :: "nat \<Rightarrow> server \<Rightarrow> bool" where
  "tickets_ok now s \<longleftrightarrow>
     queue_sorted s \<and> tracked_tcp s \<and> tracked_udp s \<and>
     distinct (map fst (pending_user_conns s)) \<and> distinct (map fst (pending_udp_sessions s)) \<and>
     pending_count s \<le> MAX_PENDING_TICKETS \<and>
     list_all (\<lambda>e. te_expires_at e \<le> now + ticket_lifetime) (ticket_expiration_queue s)"

text \<open>What happens to the tickets, at a clock that never goes back.\<close>

inductive tickets_reach :: "nat \<Rightarrow> server \<Rightarrow> bool" where
  tickets_new: "tickets_reach now (new_server token ports clients)"
| tickets_tcp: "\<lbrakk>tickets_reach now s; now \<le> now'\<rbrakk> \<Longrightarrow>
    tickets_reach now' (RegisterUserConn now' ticket socket proxy_name initial s)"
| tickets_udp: "\<lbrakk>tickets_reach now s; now \<le> now'\<rbrakk> \<Longrightarrow>
    tickets_reach now' (RegisterUdpSession now' ticket listener endpoint proxy_name s)"
| tickets_claim: "tickets_reach now s \<Longrightarrow> tickets_reach now (snd (claim_ticket ticket s))"
| tickets_clear: "tickets_reach now s \<Longrightarrow> tickets_reach now (ClearPendingForProxy proxy_name s)"

lemma map_of_delete_set: "(t, v) \<in> set (AList.delete k m) \<Longrightarrow> (t, v) \<in> set m \<and> t \<noteq> k"
  by (induction m) (auto split: if_splits)

lemma tickets_okI:
  assumes "queue_sorted s" "tracked_tcp s" "tracked_udp s"
    "distinct (map fst (pending_user_conns s))" "distinct (map fst (pending_udp_sessions s))"
    "pending_count s \<le> MAX_PENDING_TICKETS"
    "list_all (\<lambda>e. te_expires_at e \<le> now + ticket_lifetime) (ticket_expiration_queue s)"
  shows "tickets_ok now s"
  using assms by (simp add: tickets_ok_def)

lemmas tickets_defs = tickets_ok_def queue_sorted_def tracked_tcp_def tracked_udp_def pending_count_def

text \<open>Taking pending entries away, with the queue untouched, keeps the invariant.\<close>

lemma tickets_ok_fewer:
  assumes "tickets_ok now s" and "ticket_expiration_queue t = ticket_expiration_queue s"
    and "set (pending_user_conns t) \<subseteq> set (pending_user_conns s)"
    and "set (pending_udp_sessions t) \<subseteq> set (pending_udp_sessions s)"
    and "distinct (map fst (pending_user_conns t))" "distinct (map fst (pending_udp_sessions t))"
    and "pending_count t \<le> pending_count s"
  shows "tickets_ok now t"
  using assms by (fastforce simp: tickets_defs list_all_iff)

lemma tickets_ok_later: "tickets_ok now s \<Longrightarrow> now \<le> now' \<Longrightarrow> tickets_ok now' s"
  by (force simp: tickets_ok_def list_all_iff)

lemma delete_subset: "set (AList.delete k m) \<subseteq> set m"
  using map_of_delete_set by (metis subsetI surj_pair)

lemma claim_ok:
  assumes "tickets_ok now s"
  shows "tickets_ok now (snd (claim_ticket ticket s))"
proof -
  have dist: "distinct (map fst (pending_user_conns s))" "distinct (map fst (pending_udp_sessions s))"
    using assms by (simp_all add: tickets_ok_def)
  show ?thesis
    by (rule tickets_ok_fewer [OF assms])
       (use dist in \<open>auto simp: claim_ticket_def RemoveEndpoint_def pending_count_def AList.length_delete_le
          split: option.splits intro: AList.distinct_delete dest: delete_subset [THEN subsetD]\<close>)
qed

lemma clear_ok:
  assumes "tickets_ok now s"
  shows "tickets_ok now (ClearPendingForProxy proxy_name s)"
proof -
  have dist: "distinct (map fst (pending_user_conns s))" "distinct (map fst (pending_udp_sessions s))"
    using assms by (simp_all add: tickets_ok_def)
  show ?thesis
    by (rule tickets_ok_fewer [OF assms])
       (use dist in \<open>auto simp: ClearPendingForProxy_def pending_count_def add_mono intro: distinct_map_filter\<close>)
qed

text \<open>
  The cleanup loop: what it leaves pending is tracked by what it leaves in the queue, and all of
  that expires later.
\<close>

lemma expire_front:
  assumes ok: "tickets_ok now s" and q: "ticket_expiration_queue s = e # q"
  shows "tickets_ok now ((expire_ticket e s)\<lparr>ticket_expiration_queue := q\<rparr>)"
proof (rule tickets_okI)
  let ?t = "(expire_ticket e s)\<lparr>ticket_expiration_queue := q\<rparr>"
  have tcp: "pending_user_conns ?t = (if te_is_udp e then pending_user_conns s
      else AList.delete (te_ticket e) (pending_user_conns s))"
    and udp: "pending_udp_sessions ?t = (if te_is_udp e then AList.delete (te_ticket e) (pending_udp_sessions s)
      else pending_udp_sessions s)"
    by (auto simp: expire_ticket_def RemoveEndpoint_def map_of_eq_None_iff split: option.splits)
  show "queue_sorted ?t" using ok q by (simp add: tickets_defs)
  show "tracked_tcp ?t"
    using ok q unfolding tickets_ok_def tracked_tcp_def tcp
    by (auto simp: list_all_iff dest!: map_of_delete_set split: if_splits)
  show "tracked_udp ?t"
    using ok q unfolding tickets_ok_def tracked_udp_def udp
    by (auto simp: list_all_iff dest!: map_of_delete_set split: if_splits)
  show "distinct (map fst (pending_user_conns ?t))" "distinct (map fst (pending_udp_sessions ?t))"
    using ok unfolding tickets_ok_def tcp udp by (simp_all add: AList.distinct_delete)
  show "pending_count ?t \<le> MAX_PENDING_TICKETS"
    using ok AList.length_delete_le [of "te_ticket e" "pending_user_conns s"]
      AList.length_delete_le [of "te_ticket e" "pending_udp_sessions s"]
    unfolding tickets_ok_def pending_count_def tcp udp by auto
  show "list_all (\<lambda>x. te_expires_at x \<le> now + ticket_lifetime) (ticket_expiration_queue ?t)"
    using ok q by (simp add: tickets_ok_def)
qed

lemma cleanup_ok:
  "tickets_ok now s \<Longrightarrow> tickets_ok now (DoLazyCleanup now s) \<and>
     (\<forall>e\<in>set (ticket_expiration_queue (DoLazyCleanup now s)). now < te_expires_at e)"
proof (induction now s rule: DoLazyCleanup.induct)
  case (1 now s)
  show ?case
  proof (cases "ticket_expiration_queue s")
    case Nil
    with 1 show ?thesis by (subst (1 2) DoLazyCleanup.simps) simp
  next
    case (Cons e q)
    show ?thesis
    proof (cases "te_expires_at e \<le> now")
      case True
      with "1.IH" [OF Cons True] expire_front [OF "1.prems" Cons] Cons show ?thesis
        by (subst (1 2) DoLazyCleanup.simps) simp
    next
      case False
      then have "\<forall>x\<in>set (ticket_expiration_queue s). now < te_expires_at x"
        using "1.prems" Cons by (auto simp: tickets_ok_def queue_sorted_def)
      with False Cons "1.prems" show ?thesis by (subst (1 2) DoLazyCleanup.simps) simp
    qed
  qed
qed

lemma sorted_snoc_late:
  "sorted (map f xs) \<Longrightarrow> list_all (\<lambda>e. f e \<le> f x) xs \<Longrightarrow> sorted (map f (xs @ [x]))"
  by (auto simp: sorted_append list_all_iff)

lemma register_tcp_ok:
  assumes "tickets_ok now s" and "now \<le> now'"
  shows "tickets_ok now' (RegisterUserConn now' ticket socket proxy_name initial s)"
proof -
  let ?s = "DoLazyCleanup now' s"
  have ok: "tickets_ok now' ?s" using cleanup_ok tickets_ok_later [OF assms] by blast
  show ?thesis
  proof (cases "MAX_PENDING_TICKETS \<le> pending_count ?s")
    case True
    with ok show ?thesis by (simp add: RegisterUserConn_def Let_def)
  next
    case False
    with ok show ?thesis
      by (auto simp: RegisterUserConn_def Let_def tickets_defs emplace_def list_all_iff sorted_append
          map_of_eq_None_iff rev_image_eqI split: option.splits)
  qed
qed

lemma register_udp_ok:
  assumes "tickets_ok now s" and "now \<le> now'"
  shows "tickets_ok now' (RegisterUdpSession now' ticket listener endpoint proxy_name s)"
proof -
  let ?s = "DoLazyCleanup now' s"
  have ok: "tickets_ok now' ?s" using cleanup_ok tickets_ok_later [OF assms] by blast
  show ?thesis
  proof (cases "MAX_PENDING_TICKETS \<le> pending_count ?s")
    case True
    with ok show ?thesis by (simp add: RegisterUdpSession_def Let_def)
  next
    case False
    with ok show ?thesis
      by (auto simp: RegisterUdpSession_def Let_def tickets_defs emplace_def list_all_iff sorted_append
          map_of_eq_None_iff rev_image_eqI split: option.splits)
  qed
qed

lemma tickets_reach_ok: "tickets_reach now s \<Longrightarrow> tickets_ok now s"
proof (induction rule: tickets_reach.induct)
  case (tickets_new now token ports clients)
  then show ?case by (simp add: tickets_defs new_server_def MAX_PENDING_TICKETS_def)
qed (auto intro: register_tcp_ok register_udp_ok claim_ok clear_ok)

section \<open>Properties\<close>

text \<open>
  Client names are unique: \<open>AllocateClientName\<close> always returns, with a name that no
  connected client has, equal to the requested one or the requested one with a numeric suffix
  (\<open>client\<close> when none was requested), and records the session under it without touching the
  others.
\<close>

theorem allocate_client_name_fresh:
  assumes "AllocateClientName requested session s = (name, t)"
  shows "name \<notin> set (active_client_names s) \<and> name \<in> set (active_client_names t) \<and>
     map_of (sv_sessions t) name = Some session \<and>
     (\<forall>other. other \<noteq> name \<longrightarrow> map_of (sv_sessions t) other = map_of (sv_sessions s) other) \<and>
     (let base = if requested = [] then ''client'' else requested
      in name = base \<or> (\<exists>j\<ge>1. name = base @ ''_'' @ to_string j))"
proof -
  let ?base = "if requested = [] then ''client'' else requested"
  have name: "name = (if ?base \<in> set (active_client_names s)
      then free_name (active_client_names s) ?base 1 else ?base)"
    and t: "t = s\<lparr>active_client_names := name # active_client_names s,
      sv_sessions := AList.update name session (sv_sessions s)\<rparr>"
    using assms by (auto simp: AllocateClientName_def Let_def)
  have "name \<notin> set (active_client_names s)" using name free_name_free by auto
  moreover have "name = ?base \<or> (\<exists>j\<ge>1. name = ?base @ ''_'' @ to_string j)"
    using name free_name_shape [of 1 "active_client_names s" ?base] by metis
  ultimately show ?thesis using t by (simp add: Let_def update_conv')
qed

theorem allocate_client_name_fresh_witness:
  "fst (AllocateClientName ''a'' 3 (new_server ''t'' [] []\<lparr>active_client_names := [''a'']\<rparr>)) \<noteq> ''a''"
  using allocate_client_name_fresh [of "''a''" 3 "new_server ''t'' [] []\<lparr>active_client_names := [''a'']\<rparr>"
      "fst (AllocateClientName ''a'' 3 (new_server ''t'' [] []\<lparr>active_client_names := [''a'']\<rparr>))"
      "snd (AllocateClientName ''a'' 3 (new_server ''t'' [] []\<lparr>active_client_names := [''a'']\<rparr>))"]
  by simp



text \<open>
  A ticket is claimed at most once and by nobody else's hand: claiming returns the connection
  that was registered under the ticket and takes exactly that entry away.
\<close>

theorem claim_takes_ticket:
  assumes "claim_ticket ticket s = (Claimed_tcp i, t)"
  shows "map_of (pending_user_conns s) ticket = Some i \<and>
    map_of (pending_user_conns t) = (map_of (pending_user_conns s))(ticket := None) \<and>
    pending_udp_sessions t = pending_udp_sessions s \<and> fst (claim_ticket ticket t) \<noteq> Claimed_tcp j"
  using assms by (auto simp: claim_ticket_def delete_conv' split: option.splits)

theorem claim_takes_ticket_witness:
  "fst (claim_ticket ''k'' (snd (claim_ticket ''k''
     (new_server ''t'' [] []\<lparr>pending_user_conns := [(''k'', \<lparr>ti_socket = 1, ti_initial_data = [], ti_proxy_name = ''p'', ti_created_at = 0\<rparr>)]\<rparr>))))
   \<noteq> Claimed_tcp \<lparr>ti_socket = 1, ti_initial_data = [], ti_proxy_name = ''p'', ti_created_at = 0\<rparr>"
proof -
  let ?i = "\<lparr>ti_socket = 1, ti_initial_data = [], ti_proxy_name = ''p'', ti_created_at = 0\<rparr>"
  let ?s = "new_server ''t'' [] []\<lparr>pending_user_conns := [(''k'', ?i)]\<rparr>"
  have "claim_ticket ''k'' ?s = (Claimed_tcp ?i, snd (claim_ticket ''k'' ?s))" by (simp add: claim_ticket_def)
  from claim_takes_ticket [OF this, of ?i] show ?thesis by blast
qed

end
