(* ===== verification/Control_Session.thy ===== *)
theory Control_Session
  imports Server_State Control_Channel
begin

text \<open>
  \<open>ControlSession\<close> (\<open>src/server/server.cpp\<close>): login, registration and removal of proxies, and
  the release of everything when the session stops. Handlers run on the session's strand and are
  functions of the session and the shared server state.

  Binding a listening socket is the operating system's: \<open>listen type port\<close> is \<open>None\<close> when it
  succeeds and the text of the exception otherwise. \<open>ref\<close> is the identity of a listener that a
  handler creates, \<open>now\<close> its reading of the clock. An exception of a \<open>Deserialize\<close> is
  \<open>Inl\<close>; \<open>DoReadBody\<close> turns it into a stop.
\<close>

section \<open>State and operations\<close>

record listener =
  pl_name :: string
  pl_port :: "16 word"
  pl_ref :: nat

record csession =
  cs_ref :: nat
  cs_mux :: "nat option"
  client_name :: string
  proxies :: "listener list"
  udp_proxies :: "listener list"
  registered_domains :: "string list"
  authenticated :: bool
  compression_enabled :: bool

datatype cs_out =
    Sent MessageType bytes
  | Start_listener nat
  | Stop_listener nat
  | Stop_mux nat
  | Close_stream

definition ControlSession :: "nat \<Rightarrow> nat option \<Rightarrow> csession" where
  "ControlSession ref mux =
     \<lparr>cs_ref = ref, cs_mux = mux, client_name = [], proxies = [], udp_proxies = [],
      registered_domains = [], authenticated = False, compression_enabled = False\<rparr>"

definition FindProxy :: "string \<Rightarrow> listener list \<Rightarrow> listener option" where
  "FindProxy name ps = find (\<lambda>p. pl_name p = name) ps"

definition release_proxy :: "listener \<Rightarrow> server \<Rightarrow> server" where
  "release_proxy p sv = RemoveRateLimiter (pl_name p) (ClearPendingForProxy (pl_name p) sv)"

definition session_Stop :: "csession \<Rightarrow> server \<Rightarrow> csession \<times> server \<times> cs_out list" where
  "session_Stop cs sv =
     (let sv1 = (if authenticated cs then ReleaseClientName (client_name cs) sv else sv);
          sv2 = (case cs_mux cs of None \<Rightarrow> sv1 | Some m \<Rightarrow> RemoveMuxControl m sv1);
          sv3 = fold release_proxy (proxies cs) sv2;
          sv4 = fold release_proxy (udp_proxies cs) sv3;
          sv5 = fold RemoveVhostRoute (registered_domains cs) sv4
      in (cs\<lparr>proxies := [], udp_proxies := [], registered_domains := []\<rparr>, sv5,
          (case cs_mux cs of None \<Rightarrow> [] | Some m \<Rightarrow> [Stop_mux m]) @
          map (\<lambda>p. Stop_listener (pl_ref p)) (proxies cs) @
          map (\<lambda>p. Stop_listener (pl_ref p)) (udp_proxies cs) @ [Close_stream]))"

definition login_error :: "string \<Rightarrow> cs_out" where
  "login_error text =
     Sent LoginResp (LoginRespMessage_Serialize \<lparr>lr_status = ''error'', lr_name = [], lr_message = text\<rparr>)"

definition HandleLogin :: "bytes \<Rightarrow> csession \<Rightarrow> server \<Rightarrow> exn + (csession \<times> server \<times> cs_out list)" where
  "HandleLogin body cs sv =
     (case LoginMessage_Deserialize body of
        Inl e \<Rightarrow> Inl e
      | Inr m \<Rightarrow>
          if lm_token m \<noteq> sv_token sv
          then (case session_Stop cs sv of (cs', sv', outs) \<Rightarrow>
                  Inr (cs', sv', login_error ''Invalid token'' # outs))
          else if \<not> IsClientAllowed (lm_name m) sv
          then (case session_Stop cs sv of (cs', sv', outs) \<Rightarrow>
                  Inr (cs', sv', login_error ''client name not allowed'' # outs))
          else
            (case AllocateClientName (lm_name m) (cs_ref cs) sv of (name, sv') \<Rightarrow>
               Inr (cs\<lparr>client_name := name, authenticated := True\<rparr>, sv',
                    [Sent LoginResp (LoginRespMessage_Serialize
                       \<lparr>lr_status = ''ok'', lr_name = name, lr_message = []\<rparr>)])))"

definition proxy_resp :: "string \<Rightarrow> string \<Rightarrow> string \<Rightarrow> cs_out" where
  "proxy_resp status name text =
     Sent RegisterProxyResp (RegisterProxyRespMessage_Serialize
       \<lparr>rr_status = status, rr_name = name, rr_message = text\<rparr>)"

definition is_vhost_type :: "string \<Rightarrow> bool" where
  "is_vhost_type type \<longleftrightarrow> type = ''http'' \<or> type = ''https''"

definition HandleRegisterProxy ::
    "(string \<Rightarrow> 16 word \<Rightarrow> string option) \<Rightarrow> nat \<Rightarrow> nat \<Rightarrow> RegisterProxyMessage \<Rightarrow> csession \<Rightarrow> server \<Rightarrow>
     csession \<times> server \<times> cs_out list" where
  "HandleRegisterProxy listen now ref m cs sv =
     (let name = rp_name m;
          type = (if rp_type m = [] then ''tcp'' else rp_type m);
          sv1 = (if 0 < sint (rp_bandwidth_limit m)
                 then CreateRateLimiter now name (sint (rp_bandwidth_limit m)) sv else sv)
      in if \<not> is_vhost_type type \<and> \<not> IsPortAllowed (rp_remote_port m) sv1
         then (cs, sv1, [proxy_resp ''error'' name ''port not allowed''])
         else if is_vhost_type type
         then (cs\<lparr>registered_domains := fold List.insert (rp_custom_domains m) (registered_domains cs)\<rparr>,
               fold (\<lambda>d. AddVhostRoute d (cs_ref cs) name type) (rp_custom_domains m) sv1,
               [proxy_resp ''ok'' name []])
         else
           (case listen type (rp_remote_port m) of
              Some what \<Rightarrow> (cs, sv1, [proxy_resp ''error'' name what])
            | None \<Rightarrow>
                (let p = \<lparr>pl_name = name, pl_port = rp_remote_port m, pl_ref = ref\<rparr>
                 in (if type = ''udp'' then cs\<lparr>udp_proxies := udp_proxies cs @ [p]\<rparr>
                     else cs\<lparr>proxies := proxies cs @ [p]\<rparr>,
                     sv1, [Start_listener ref, proxy_resp ''ok'' name []]))))"

text \<open>\<open>find_if\<close> followed by \<open>erase\<close>: the first listener with the name goes.\<close>

fun erase_named :: "string \<Rightarrow> listener list \<Rightarrow> listener list" where
  "erase_named name [] = []"
| "erase_named name (p # ps) = (if pl_name p = name then ps else p # erase_named name ps)"

definition HandleUnregisterProxy :: "UnregisterProxyMessage \<Rightarrow> csession \<Rightarrow> csession \<times> cs_out list" where
  "HandleUnregisterProxy m cs =
     (case FindProxy (up_name m) (proxies cs) of
        Some p \<Rightarrow> (cs\<lparr>proxies := erase_named (up_name m) (proxies cs)\<rparr>, [Stop_listener (pl_ref p)])
      | None \<Rightarrow>
          (case FindProxy (up_name m) (udp_proxies cs) of
             Some p \<Rightarrow> (cs\<lparr>udp_proxies := erase_named (up_name m) (udp_proxies cs)\<rparr>, [Stop_listener (pl_ref p)])
           | None \<Rightarrow> (cs, [])))"

definition HandleMessage ::
    "(string \<Rightarrow> 16 word \<Rightarrow> string option) \<Rightarrow> nat \<Rightarrow> nat \<Rightarrow> Message \<Rightarrow> csession \<Rightarrow> server \<Rightarrow>
     exn + (csession \<times> server \<times> cs_out list)" where
  "HandleMessage listen now ref msg cs sv =
     (if msg_type msg = Login then HandleLogin (msg_body msg) cs sv
      else if \<not> authenticated cs then Inr (session_Stop cs sv)
      else if msg_type msg = RegisterProxy
      then (case RegisterProxyMessage_Deserialize (msg_body msg) of
              Inl e \<Rightarrow> Inl e
            | Inr m \<Rightarrow> Inr (HandleRegisterProxy listen now ref m cs sv))
      else if msg_type msg = UnregisterProxy
      then (case UnregisterProxyMessage_Deserialize (msg_body msg) of
              Inl e \<Rightarrow> Inl e
            | Inr m \<Rightarrow> (case HandleUnregisterProxy m cs of (cs', outs) \<Rightarrow> Inr (cs', sv, outs)))
      else Inr (cs, sv, []))"

text \<open>
  The completion of a message body. The last component tells whether the next header is read.
\<close>

definition session_on_body ::
    "zstd \<Rightarrow> (string \<Rightarrow> 16 word \<Rightarrow> string option) \<Rightarrow> nat \<Rightarrow> nat \<Rightarrow> bool \<Rightarrow> error_code \<Rightarrow> bytes \<Rightarrow>
     csession \<Rightarrow> server \<Rightarrow> (csession \<times> server \<times> cs_out list) \<times> bool" where
  "session_on_body z listen now ref is_compressed ec body cs0 sv =
     (let cs = (if is_compressed then cs0\<lparr>compression_enabled := True\<rparr> else cs0) in
      if ec \<noteq> Success then (session_Stop cs sv, False)
      else
        (case DoReadBody z is_compressed body of
           Ctl_message m \<Rightarrow>
             (case HandleMessage listen now ref m cs sv of
                Inl e \<Rightarrow> (session_Stop cs sv, False)
              | Inr r \<Rightarrow> (r, True))
         | _ \<Rightarrow> (session_Stop cs sv, False)))"

text \<open>The authentication timer of \<open>HandleNewMuxStream\<close>.\<close>

definition auth_timeout :: "csession \<Rightarrow> server \<Rightarrow> csession \<times> server \<times> cs_out list" where
  "auth_timeout cs sv = (if authenticated cs then (cs, sv, []) else session_Stop cs sv)"

section \<open>Reachable sessions\<close>

text \<open>
  Between the handlers of one session the other sessions change the server state; they never
  change the token or the policy.
\<close>

definition same_policy :: "server \<Rightarrow> server \<Rightarrow> bool" where
  "same_policy s t \<longleftrightarrow> sv_token t = sv_token s \<and> allowed_ports t = allowed_ports s \<and>
     allowed_clients t = allowed_clients s"

inductive cs_reach :: "csession \<Rightarrow> server \<Rightarrow> bool" where
  cs_new: "cs_reach (ControlSession ref mux) sv"
| cs_body: "\<lbrakk>cs_reach cs sv; session_on_body z listen now r c ec body cs sv = ((cs', sv', outs), cont)\<rbrakk>
    \<Longrightarrow> cs_reach cs' sv'"
| cs_stop: "\<lbrakk>cs_reach cs sv; session_Stop cs sv = (cs', sv', outs)\<rbrakk> \<Longrightarrow> cs_reach cs' sv'"
| cs_others: "\<lbrakk>cs_reach cs sv; same_policy sv sv'\<rbrakk> \<Longrightarrow> cs_reach cs sv'"

definition owns_nothing :: "csession \<Rightarrow> bool" where
  "owns_nothing cs \<longleftrightarrow> proxies cs = [] \<and> udp_proxies cs = [] \<and> registered_domains cs = []"

definition ports_ok :: "csession \<Rightarrow> server \<Rightarrow> bool" where
  "ports_ok cs sv \<longleftrightarrow> list_all (\<lambda>p. IsPortAllowed (pl_port p) sv) (proxies cs @ udp_proxies cs)"

definition cs_inv :: "csession \<Rightarrow> server \<Rightarrow> bool" where
  "cs_inv cs sv \<longleftrightarrow> (\<not> authenticated cs \<longrightarrow> owns_nothing cs) \<and> ports_ok cs sv"

lemma same_policy_refl [simp]: "same_policy s s"
  by (simp add: same_policy_def)

lemma same_policy_trans: "same_policy s t \<Longrightarrow> same_policy t u \<Longrightarrow> same_policy s u"
  by (simp add: same_policy_def)

lemma IsPortAllowed_policy: "same_policy s t \<Longrightarrow> IsPortAllowed p t = IsPortAllowed p s"
  by (simp add: IsPortAllowed_def same_policy_def)

lemma policy_kept:
  "same_policy s (ReleaseClientName n s)" "same_policy s (RemoveMuxControl m s)"
  "same_policy s (release_proxy p s)" "same_policy s (RemoveVhostRoute d s)"
  "same_policy s (CreateRateLimiter now n r s)" "same_policy s (AddVhostRoute d c n ty s)"
  "same_policy s (snd (AllocateClientName n c s))"
  by (simp_all add: same_policy_def ReleaseClientName_def RemoveMuxControl_def release_proxy_def
      RemoveRateLimiter_def ClearPendingForProxy_def RemoveVhostRoute_def CreateRateLimiter_def
      AddVhostRoute_def AllocateClientName_def Let_def)

lemma policy_fold:
  assumes "\<And>x t. same_policy t (f x t)"
  shows "same_policy s (fold f xs s)"
  using assms by (induction xs arbitrary: s) (auto intro: same_policy_trans)

lemma policy_then: "same_policy s t \<Longrightarrow> (\<And>u. same_policy u (f u)) \<Longrightarrow> same_policy s (f t)"
  by (blast intro: same_policy_trans)

lemma session_Stop_shape:
  assumes "session_Stop cs sv = (cs', sv', outs)"
  shows "cs' = cs\<lparr>proxies := [], udp_proxies := [], registered_domains := []\<rparr>" "same_policy sv sv'"
proof -
  let ?sv1 = "if authenticated cs then ReleaseClientName (client_name cs) sv else sv"
  let ?sv2 = "case cs_mux cs of None \<Rightarrow> ?sv1 | Some m \<Rightarrow> RemoveMuxControl m ?sv1"
  have 2: "same_policy sv ?sv2"
    by (auto simp: policy_kept split: option.splits intro: policy_then)
  have "same_policy sv (fold RemoveVhostRoute (registered_domains cs)
      (fold release_proxy (udp_proxies cs) (fold release_proxy (proxies cs) ?sv2)))"
    by (intro policy_then [OF _ policy_fold] 2 policy_kept)
  with assms show "same_policy sv sv'" by (auto simp: session_Stop_def Let_def)
  show "cs' = cs\<lparr>proxies := [], udp_proxies := [], registered_domains := []\<rparr>"
    using assms by (auto simp: session_Stop_def Let_def)
qed

lemma cs_inv_policy: "cs_inv cs sv \<Longrightarrow> same_policy sv sv' \<Longrightarrow> cs_inv cs sv'"
  by (simp add: cs_inv_def ports_ok_def IsPortAllowed_policy)

lemma session_Stop_inv: "session_Stop cs sv = (cs', sv', outs) \<Longrightarrow> cs_inv cs' sv'"
  by (drule session_Stop_shape(1)) (simp add: cs_inv_def owns_nothing_def ports_ok_def)

lemma HandleRegisterProxy_inv:
  assumes "cs_inv cs sv" "authenticated cs"
    and "HandleRegisterProxy listen now ref m cs sv = (cs', sv', outs)"
  shows "cs_inv cs' sv'"
proof -
  define sv1 where "sv1 = (if 0 < sint (rp_bandwidth_limit m)
     then CreateRateLimiter now (rp_name m) (sint (rp_bandwidth_limit m)) sv else sv)"
  have "cs_inv cs sv1" using cs_inv_policy [OF assms(1)] assms(1) by (simp add: sv1_def policy_kept)
  moreover have "same_policy sv1 (fold (\<lambda>d. AddVhostRoute d c n ty) ds sv1)" for c n ty ds
    by (intro policy_fold policy_kept)
  ultimately show ?thesis
    using assms(2) cs_inv_policy [of cs sv1]
      assms(3) [unfolded HandleRegisterProxy_def Let_def, folded sv1_def]
    by (auto simp: cs_inv_def ports_ok_def is_vhost_type_def split: if_splits option.splits)
qed

lemma erase_named_subset: "set (erase_named n ps) \<subseteq> set ps"
  by (induction ps) auto

lemma HandleUnregisterProxy_inv:
  assumes "cs_inv cs sv" "authenticated cs" "HandleUnregisterProxy m cs = (cs', outs)"
  shows "cs_inv cs' sv"
  using assms erase_named_subset [of "up_name m" "proxies cs"] erase_named_subset [of "up_name m" "udp_proxies cs"]
  by (auto simp: HandleUnregisterProxy_def cs_inv_def ports_ok_def list_all_iff split: option.splits)

lemma HandleLogin_inv:
  assumes "cs_inv cs sv" "HandleLogin body cs sv = Inr (cs', sv', outs)"
  shows "cs_inv cs' sv'"
proof -
  have "cs_inv cs' sv'" if "AllocateClientName n c sv = (name, sv')" "cs' = cs\<lparr>client_name := name, authenticated := True\<rparr>"
    for n c name
    using that assms(1) policy_kept(7) [of sv n c] cs_inv_policy [OF assms(1), of sv']
    by (simp add: cs_inv_def ports_ok_def)
  with assms(2) show ?thesis
    by (auto simp: HandleLogin_def split: sum.splits if_splits prod.splits dest: session_Stop_inv)
qed

lemma HandleMessage_inv:
  assumes "cs_inv cs sv" "HandleMessage listen now ref msg cs sv = Inr (cs', sv', outs)"
  shows "cs_inv cs' sv'"
  using assms
  by (auto simp: HandleMessage_def split: if_splits sum.splits prod.splits
      dest: session_Stop_inv HandleRegisterProxy_inv HandleUnregisterProxy_inv HandleLogin_inv)

lemma session_on_body_inv:
  assumes "cs_inv cs sv" "session_on_body z listen now r c ec body cs sv = ((cs', sv', outs), cont)"
  shows "cs_inv cs' sv'"
proof -
  have "cs_inv (if c then cs\<lparr>compression_enabled := True\<rparr> else cs) sv"
    using assms(1) by (simp add: cs_inv_def owns_nothing_def ports_ok_def)
  with assms(2) show ?thesis
    by (auto simp: session_on_body_def Let_def split: if_splits ctl_event.splits sum.splits
        dest: session_Stop_inv HandleMessage_inv)
qed

lemma cs_reach_inv: "cs_reach cs sv \<Longrightarrow> cs_inv cs sv"
proof (induction rule: cs_reach.induct)
  case (cs_new ref mux sv)
  show ?case by (simp add: ControlSession_def cs_inv_def owns_nothing_def ports_ok_def)
qed (auto dest: session_on_body_inv session_Stop_inv cs_inv_policy)

section \<open>Authentication and policy\<close>

lemma stop_unauthenticated:
  assumes "\<not> authenticated cs" "owns_nothing cs" "session_Stop cs sv = (cs', sv', outs)"
  shows "cs' = cs" "sv' = (case cs_mux cs of None \<Rightarrow> sv | Some m \<Rightarrow> RemoveMuxControl m sv)"
    "outs = (case cs_mux cs of None \<Rightarrow> [] | Some m \<Rightarrow> [Stop_mux m]) @ [Close_stream]"
  using assms by (auto simp: session_Stop_def Let_def owns_nothing_def split: option.splits)

definition credentials_ok :: "bytes \<Rightarrow> server \<Rightarrow> bool" where
  "credentials_ok body sv = (case LoginMessage_Deserialize body of
       Inl e \<Rightarrow> False | Inr m \<Rightarrow> lm_token m = sv_token sv \<and> IsClientAllowed (lm_name m) sv)"

definition unchanged_tables :: "server \<Rightarrow> server \<Rightarrow> bool" where
  "unchanged_tables s t \<longleftrightarrow> vhost_routes t = vhost_routes s \<and>
     proxy_rate_limiters t = proxy_rate_limiters s \<and> pending_user_conns t = pending_user_conns s \<and>
     pending_udp_sessions t = pending_udp_sessions s"

lemma stop_unauthenticated_tables:
  assumes "\<not> authenticated cs" "owns_nothing cs" "session_Stop cs sv = (cs', sv', outs)"
  shows "cs' = cs \<and> unchanged_tables sv sv' \<and> active_client_names sv' = active_client_names sv \<and>
     Start_listener r \<notin> set outs"
  using stop_unauthenticated [OF assms]
  by (auto simp: unchanged_tables_def RemoveMuxControl_def split: option.splits)

lemma HandleLogin_unauthenticated:
  assumes "\<not> authenticated cs" "owns_nothing cs" "HandleLogin body cs sv = Inr (cs', sv', outs)"
  shows "owns_nothing cs' \<and> unchanged_tables sv sv' \<and> Start_listener r \<notin> set outs \<and>
     (authenticated cs' \<longleftrightarrow> credentials_ok body sv) \<and>
     (authenticated cs' \<or> active_client_names sv' = active_client_names sv)"
proof (cases "credentials_ok body sv")
  case True
  with assms show ?thesis
    by (auto simp: HandleLogin_def credentials_ok_def owns_nothing_def unchanged_tables_def
        AllocateClientName_def Let_def split: sum.splits)
next
  case False
  with assms obtain outs' why where "session_Stop cs sv = (cs', sv', outs')" "outs = login_error why # outs'"
    by (auto simp: HandleLogin_def credentials_ok_def split: sum.splits if_splits prod.splits)
  with stop_unauthenticated_tables [OF assms(1,2) this(1)] assms(1,2) False show ?thesis
    by (auto simp: login_error_def)
qed


definition demo_server :: server where
  "demo_server = new_server ''secret'' [(1000, 2000)] []"

definition login_msg :: "string \<Rightarrow> string \<Rightarrow> Message" where
  "login_msg token name = \<lparr>msg_type = Login,
     msg_body = LoginMessage_Serialize \<lparr>lm_token = token, lm_name = name\<rparr>\<rparr>"


text \<open>
  C6: The port policy holds at all times. Whatever a client sends, every TCP and UDP listener a
  reachable session holds is on a port of the configured ranges (or no range is configured).
\<close>

theorem listeners_on_allowed_ports:
  assumes "cs_reach cs sv"
  shows "\<forall>p \<in> set (proxies cs @ udp_proxies cs). IsPortAllowed (pl_port p) sv"
  using cs_reach_inv [OF assms] by (auto simp: cs_inv_def ports_ok_def list_all_iff)

definition proxy_msg :: "string \<Rightarrow> string \<Rightarrow> 16 word \<Rightarrow> string list \<Rightarrow> 64 word \<Rightarrow> RegisterProxyMessage" where
  "proxy_msg name type port domains limit =
     \<lparr>rp_name = name, rp_type = type, rp_remote_port = port, rp_custom_domains = domains,
      rp_bandwidth_limit = limit\<rparr>"

definition after_body ::
    "zstd \<Rightarrow> (string \<Rightarrow> 16 word \<Rightarrow> string option) \<Rightarrow> nat \<Rightarrow> nat \<Rightarrow> bytes \<Rightarrow> csession \<times> server \<Rightarrow> csession \<times> server" where
  "after_body z listen now ref body st =
     (case session_on_body z listen now ref False Success body (fst st) (snd st) of
        ((cs, sv, outs), cont) \<Rightarrow> (cs, sv))"

lemma cs_reach_after_body:
  "cs_reach (fst st) (snd st) \<Longrightarrow>
     cs_reach (fst (after_body z listen now ref body st)) (snd (after_body z listen now ref body st))"
  by (auto simp: after_body_def intro: cs_body split: prod.splits)

definition register_msg :: "RegisterProxyMessage \<Rightarrow> Message" where
  "register_msg m = \<lparr>msg_type = RegisterProxy, msg_body = RegisterProxyMessage_Serialize m\<rparr>"

lemma body_message:
  "(\<forall>b. msg_type m \<noteq> Other_type b) \<Longrightarrow> DoReadBody z False (Message_Encode m) = Ctl_message m"
  by (simp add: DoReadBody_def unpack_def Message_Decode_Encode)

lemma login_body:
  assumes "LoginMessage_ok m" "lm_token m = sv_token sv" "IsClientAllowed (lm_name m) sv"
  shows "after_body z listen now ref (Message_Encode \<lparr>msg_type = Login, msg_body = LoginMessage_Serialize m\<rparr>) (cs, sv) =
     (case AllocateClientName (lm_name m) (cs_ref cs) sv of (name, sv') \<Rightarrow>
        (cs\<lparr>client_name := name, authenticated := True\<rparr>, sv'))"
  using assms
  by (simp add: after_body_def session_on_body_def body_message HandleMessage_def HandleLogin_def login.roundtrip
      case_prod_beta)

lemma register_body:
  assumes "RegisterProxyMessage_ok m" "authenticated cs"
  shows "after_body z listen now ref (Message_Encode (register_msg m)) (cs, sv) =
     (case HandleRegisterProxy listen now ref m cs sv of (cs', sv', outs) \<Rightarrow> (cs', sv'))"
  using assms
  by (simp add: after_body_def session_on_body_def body_message HandleMessage_def register_msg_def
      register_proxy.roundtrip case_prod_beta)

definition demo_run :: "csession \<times> server" where
  "demo_run = after_body rle (\<lambda>_ _. None) 0 5 (Message_Encode (register_msg (proxy_msg ''web'' [] 1500 [] 0)))
     (after_body rle (\<lambda>_ _. None) 0 4 (Message_Encode (login_msg ''secret'' ''a''))
        (ControlSession 2 (Some 7), demo_server))"

lemma demo_run_proxies: "proxies (fst demo_run) = [\<lparr>pl_name = ''web'', pl_port = 1500, pl_ref = 5\<rparr>]"
  by (simp add: demo_run_def login_msg_def login_body register_body LoginMessage_ok_def proxy_msg_def
      RegisterProxyMessage_ok_def IsClientAllowed_def demo_server_def new_server_def AllocateClientName_def
      ControlSession_def HandleRegisterProxy_def Let_def is_vhost_type_def IsPortAllowed_def)

theorem listeners_on_allowed_ports_witness:
  "proxies (fst demo_run) = [\<lparr>pl_name = ''web'', pl_port = 1500, pl_ref = 5\<rparr>] \<and>
   list_all (\<lambda>p. IsPortAllowed (pl_port p) (snd demo_run)) (proxies (fst demo_run) @ udp_proxies (fst demo_run))"
proof -
  have "cs_reach (fst demo_run) (snd demo_run)"
    unfolding demo_run_def by (intro cs_reach_after_body) (simp add: cs_new)
  from listeners_on_allowed_ports [OF this] show ?thesis by (simp add: demo_run_proxies list_all_iff)
qed

section \<open>Registration and removal\<close>

lemma FindProxy_append:
  "FindProxy n (ps @ [p]) = (case FindProxy n ps of Some q \<Rightarrow> Some q | None \<Rightarrow> if pl_name p = n then Some p else None)"
  by (induction ps) (auto simp: FindProxy_def)

lemma erase_named_append:
  "FindProxy n ps = None \<Longrightarrow> erase_named n (ps @ [p]) = (if pl_name p = n then ps else ps @ [p])"
  by (induction ps) (auto simp: FindProxy_def split: if_splits)

lemma route_added:
  "map_of (vhost_routes (fold (\<lambda>d. AddVhostRoute d c n ty) ds s)) d =
     (if d \<in> set ds then Some \<lparr>vr_session = c, vr_proxy_name = n, vr_type = ty\<rparr> else map_of (vhost_routes s) d)"
  by (induction ds arbitrary: s) (auto simp: AddVhostRoute_def update_conv')

definition unregister_msg :: "string \<Rightarrow> Message" where
  "unregister_msg name = \<lparr>msg_type = UnregisterProxy, msg_body = UnregisterProxyMessage_Serialize \<lparr>up_name = name\<rparr>\<rparr>"

lemma HandleUnregister_message:
  assumes "authenticated cs" "short name"
  shows "HandleMessage listen now ref (unregister_msg name) cs sv =
     (case HandleUnregisterProxy \<lparr>up_name = name\<rparr> cs of (cs', outs) \<Rightarrow> Inr (cs', sv, outs))"
  using assms by (simp add: HandleMessage_def unregister_msg_def
      unregister_proxy.roundtrip UnregisterProxyMessage_ok_def)

text \<open>
  Registering and unregistering. The removal of a freshly registered proxy takes away the
  listener it started, stops it, and leaves the other listeners of the session as they were before the
  registration. It leaves the server state alone: the virtual-host routes of an \<open>http\<close> or
  \<open>https\<close> proxy (and every rate limiter) are still in place after the proxy was unregistered.
\<close>

theorem unregister_undoes_listeners_only:
  assumes "authenticated cs" "short (rp_name m)"
    and "FindProxy (rp_name m) (proxies cs) = None" "FindProxy (rp_name m) (udp_proxies cs) = None"
    and "HandleRegisterProxy listen now ref m cs sv = (cs1, sv1, outs1)"
  shows "HandleMessage listen now' ref' (unregister_msg (rp_name m)) cs1 sv1 =
      Inr (cs\<lparr>registered_domains := registered_domains cs1\<rparr>, sv1,
           if Start_listener ref \<in> set outs1 then [Stop_listener ref] else []) \<and>
    (is_vhost_type (rp_type m) \<and> d \<in> set (rp_custom_domains m) \<longrightarrow>
      map_of (vhost_routes sv1) d =
        Some \<lparr>vr_session = cs_ref cs, vr_proxy_name = rp_name m, vr_type = rp_type m\<rparr>)"
proof -
  have auth: "authenticated cs1"
    using assms(1,5) by (auto simp: HandleRegisterProxy_def Let_def split: if_splits option.splits)
  show ?thesis
    using assms(3-5)
    by (auto simp: HandleUnregister_message [OF auth assms(2)] HandleUnregisterProxy_def HandleRegisterProxy_def
        Let_def proxy_resp_def FindProxy_append erase_named_append route_added is_vhost_type_def
        split: if_splits option.splits)
qed

definition demo_session :: csession where
  "demo_session = (ControlSession 2 (Some 7))\<lparr>client_name := ''a'', authenticated := True\<rparr>"

theorem unregister_undoes_listeners_only_witness:
  "case HandleRegisterProxy (\<lambda>_ _. None) 0 5 (proxy_msg ''web'' ''http'' 0 [''a.org''] 0) demo_session demo_server of
     (cs1, sv1, outs1) \<Rightarrow>
       HandleMessage (\<lambda>_ _. None) 0 6 (unregister_msg ''web'') cs1 sv1 =
         Inr (demo_session\<lparr>registered_domains := [''a.org'']\<rparr>, sv1, []) \<and>
       map_of (vhost_routes sv1) ''a.org'' = Some \<lparr>vr_session = 2, vr_proxy_name = ''web'', vr_type = ''http''\<rparr>"
proof -
  obtain cs1 sv1 outs1 where
    r: "HandleRegisterProxy (\<lambda>_ _. None) 0 5 (proxy_msg ''web'' ''http'' 0 [''a.org''] 0) demo_session demo_server =
       (cs1, sv1, outs1)"
    using prod_cases3 by blast
  then have o: "Start_listener 5 \<notin> set outs1" "registered_domains cs1 = [''a.org'']"
    by (auto simp: HandleRegisterProxy_def Let_def proxy_msg_def is_vhost_type_def demo_session_def ControlSession_def
        proxy_resp_def)
  have "cs_ref demo_session = 2" "authenticated demo_session" "proxies demo_session = []" "udp_proxies demo_session = []"
    by (simp_all add: demo_session_def ControlSession_def)
  with unregister_undoes_listeners_only [OF _ _ _ _ r, where now' = 0 and ref' = 6 and d = "''a.org''"] o
  show ?thesis unfolding r by (simp add: proxy_msg_def FindProxy_def is_vhost_type_def)
qed

section \<open>What a stop releases\<close>

lemma release_proxies:
  "vhost_routes (fold release_proxy ps s) = vhost_routes s"
  "mux_to_control (fold release_proxy ps s) = mux_to_control s"
  "active_client_names (fold release_proxy ps s) = active_client_names s"
  "sv_sessions (fold release_proxy ps s) = sv_sessions s"
  "map_of (proxy_rate_limiters (fold release_proxy ps s)) n =
     (if n \<in> pl_name ` set ps then None else map_of (proxy_rate_limiters s) n)"
  "pending_user_conns (fold release_proxy ps s) =
     filter (\<lambda>(t, i). ti_proxy_name i \<notin> pl_name ` set ps) (pending_user_conns s)"
  "pending_udp_sessions (fold release_proxy ps s) =
     filter (\<lambda>(t, u). ui_proxy_name u \<notin> pl_name ` set ps) (pending_udp_sessions s)"
  by (induction ps arbitrary: s)
    (auto simp: release_proxy_def RemoveRateLimiter_def ClearPendingForProxy_def delete_conv' case_prod_beta
      intro!: filter_cong)

lemma remove_routes:
  "proxy_rate_limiters (fold RemoveVhostRoute ds s) = proxy_rate_limiters s"
  "mux_to_control (fold RemoveVhostRoute ds s) = mux_to_control s"
  "active_client_names (fold RemoveVhostRoute ds s) = active_client_names s"
  "pending_user_conns (fold RemoveVhostRoute ds s) = pending_user_conns s"
  "pending_udp_sessions (fold RemoveVhostRoute ds s) = pending_udp_sessions s"
  "map_of (vhost_routes (fold RemoveVhostRoute ds s)) d = (if d \<in> set ds then None else map_of (vhost_routes s) d)"
  by (induction ds arbitrary: s) (auto simp: RemoveVhostRoute_def delete_conv')

lemma stop_prefix:
  fixes cs :: csession and sv :: server
  defines "sv1 \<equiv> (if authenticated cs then ReleaseClientName (client_name cs) sv else sv)"
  defines "sv2 \<equiv> (case cs_mux cs of None \<Rightarrow> sv1 | Some m \<Rightarrow> RemoveMuxControl m sv1)"
  shows "vhost_routes sv2 = vhost_routes sv" "proxy_rate_limiters sv2 = proxy_rate_limiters sv"
    "pending_user_conns sv2 = pending_user_conns sv" "pending_udp_sessions sv2 = pending_udp_sessions sv"
    "active_client_names sv2 = (if authenticated cs then removeAll (client_name cs) (active_client_names sv)
       else active_client_names sv)"
    "map_of (mux_to_control sv2) k = (if cs_mux cs = Some k then None else map_of (mux_to_control sv) k)"
  by (auto simp: sv2_def sv1_def RemoveMuxControl_def ReleaseClientName_def delete_conv' split: option.splits)

lemma session_stop_active:
  "session_Stop cs sv = (cs', sv', outs) \<Longrightarrow>
     active_client_names sv' = (if authenticated cs then removeAll (client_name cs) (active_client_names sv)
       else active_client_names sv)"
  by (auto simp: session_Stop_def Let_def remove_routes release_proxies stop_prefix)



text \<open>
  A second stop is not harmless. The flag \<open>authenticated_\<close> survives \<open>Stop\<close>, so when a session is
  stopped again after another client took over its name, the stop takes the name away
  from the other, live client: it is missing from the session table and is handed out again.
\<close>

theorem second_stop_releases_foreign_name:
  assumes "authenticated cs" "client_name cs \<noteq> []"
    and "session_Stop cs sv = (cs1, sv1, outs1)"
    and "AllocateClientName (client_name cs) other sv1 = (n, sv2)"
    and "session_Stop cs1 sv2 = (cs2, sv3, outs2)"
  shows "n = client_name cs \<and> map_of (sv_sessions sv2) n = Some other \<and>
    n \<notin> set (active_client_names sv3) \<and> fst (AllocateClientName n third sv3) = n"
proof -
  have free: "client_name cs \<notin> set (active_client_names sv1)"
    using session_stop_active [OF assms(3)] assms(1) by simp
  with assms(2,4) have n: "n = client_name cs" "map_of (sv_sessions sv2) n = Some other"
    by (auto simp: AllocateClientName_def Let_def update_conv')
  have "n \<notin> set (active_client_names sv3)"
    using session_stop_active [OF assms(5)] assms(1) session_Stop_shape(1) [OF assms(3)] n(1) by simp
  with n assms(2) show ?thesis by (simp add: AllocateClientName_def Let_def)
qed

theorem second_stop_releases_foreign_name_witness:
  "case session_Stop demo_session demo_server of (cs1, sv1, outs1) \<Rightarrow>
     (case AllocateClientName ''a'' 9 sv1 of (n, sv2) \<Rightarrow>
        (case session_Stop cs1 sv2 of (cs2, sv3, outs2) \<Rightarrow>
           n = ''a'' \<and> map_of (sv_sessions sv2) ''a'' = Some 9 \<and> ''a'' \<notin> set (active_client_names sv3)))"
proof -
  obtain cs1 sv1 outs1 n sv2 cs2 sv3 outs2 where
    r: "session_Stop demo_session demo_server = (cs1, sv1, outs1)"
      "AllocateClientName ''a'' 9 sv1 = (n, sv2)" "session_Stop cs1 sv2 = (cs2, sv3, outs2)"
    by (metis prod_cases3 surj_pair)
  have d: "authenticated demo_session" "client_name demo_session = ''a''"
    by (simp_all add: demo_session_def ControlSession_def)
  from second_stop_releases_foreign_name [OF d(1) _ r(1), unfolded d(2), OF _ r(2,3)]
  show ?thesis by (auto simp: r)
qed

end
