(* ===== verification/Vhost.thy ===== *)
theory Vhost
  imports Server_State Protocol "HOL-Library.Monad_Syntax"
begin

text \<open>
  Virtual hosts: \<open>Server::DoVhostAccept\<close> (\<open>src/server/server.cpp\<close>). The first bytes of a user
  connection are searched for a host name, the \<open>Host\<close> header of an HTTP request or the server
  name of a TLS ClientHello, and the connection becomes a pending user connection of the
  proxy that the name is routed to.

  The parsers read a C array through indices they compute from the input. A read is
  \<open>byte_at data i\<close>, which is \<open>None\<close> outside the array, so that a parser result of \<open>None\<close> is an access
  out of bounds. Sums of a position and at most three lengths below \<open>2 ^ 16\<close> stay far below the
  range of \<open>size_t\<close>.
\<close>

section \<open>The Host header\<close>

definition blanks :: string where
  "blanks = [CHR '' '', CHR 0x09, CHR 0x0D, CHR 0x0A]"

definition http_crlf :: string where "http_crlf = [CHR 0x0D, CHR 0x0A]"

definition http_domain :: "bytes \<Rightarrow> string" where
  "http_domain buffer =
     (let data = string_of_bytes buffer in
      case find_sub ''Host: '' data of
        None \<Rightarrow> []
      | Some pos \<Rightarrow>
          (case find_sub_from http_crlf data pos of
             None \<Rightarrow> []
           | Some ends \<Rightarrow>
               (let field = take (sub64 ends (pos + 6)) (drop (pos + 6) data);
                    domain = (case find_sub '':'' field of Some colon \<Rightarrow> take colon field | None \<Rightarrow> field)
                in trim_right blanks (trim_left blanks domain))))"

section \<open>The server name of a ClientHello\<close>

definition byte_at :: "bytes \<Rightarrow> nat \<Rightarrow> nat option" where
  "byte_at data i = (if i < length data then Some (unat (data ! i)) else None)"

definition u16 :: "bytes \<Rightarrow> nat \<Rightarrow> nat option" where
  "u16 data i = do { a \<leftarrow> byte_at data i; b \<leftarrow> byte_at data (i + 1); Some (a * 256 + b) }"

definition sni_name :: "bytes \<Rightarrow> nat \<Rightarrow> string option" where
  "sni_name data pos =
     (if pos + 2 \<le> length data
      then do {
        list_len \<leftarrow> u16 data pos;
        if pos + 2 + 3 \<le> length data
        then do {
          name_type \<leftarrow> byte_at data (pos + 2);
          if name_type = 0
          then do {
            name_len \<leftarrow> u16 data (pos + 3);
            if pos + 5 + name_len \<le> length data
            then Some (string_of_bytes (take name_len (drop (pos + 5) data)))
            else Some []
          } else Some []
        } else Some []
      } else Some [])"

function sni_extensions :: "bytes \<Rightarrow> nat \<Rightarrow> nat \<Rightarrow> string option" where
  "sni_extensions data end_ext pos =
     (if pos + 4 \<le> length data \<and> pos + 4 \<le> end_ext
      then (case (u16 data pos, u16 data (pos + 2)) of
              (Some etype, Some elen) \<Rightarrow>
                if etype = 0 then sni_name data (pos + 4)
                else sni_extensions data end_ext (pos + 4 + elen)
            | _ \<Rightarrow> None)
      else Some [])"
  by pat_completeness auto
termination
  by (relation "measure (\<lambda>(data, end_ext, pos). length data - pos)") auto

declare sni_extensions.simps [simp del]

definition sni_hello :: "bytes \<Rightarrow> nat \<Rightarrow> string option" where
  "sni_hello data pos0 =
     (if pos0 < length data
      then do {
        sess_id_len \<leftarrow> byte_at data pos0;
        let pos1 = pos0 + 1 + sess_id_len;
        if pos1 + 2 \<le> length data
        then do {
          cipher_len \<leftarrow> u16 data pos1;
          let pos2 = pos1 + 2 + cipher_len;
          if pos2 + 1 \<le> length data
          then do {
            comp_len \<leftarrow> byte_at data pos2;
            let pos3 = pos2 + 1 + comp_len;
            if pos3 + 2 \<le> length data
            then do {
              ext_len \<leftarrow> u16 data pos3;
              sni_extensions data (pos3 + 2 + ext_len) (pos3 + 2)
            } else Some []
          } else Some []
        } else Some []
      } else Some [])"

definition sni_domain :: "bytes \<Rightarrow> string option" where
  "sni_domain data =
     (if 5 < length data
      then do {
        record_type \<leftarrow> byte_at data 0;
        if record_type = 0x16
        then do {
          len \<leftarrow> u16 data 3;
          if len + 5 \<le> length data
          then do {
            handshake_type \<leftarrow> byte_at data 5;
            if handshake_type = 0x01 then sni_hello data (5 + 4 + 2 + 32) else Some []
          } else Some []
        } else Some []
      } else Some [])"

section \<open>Routing\<close>

definition vhost_domain :: "string \<Rightarrow> bytes \<Rightarrow> string option" where
  "vhost_domain type buffer =
     (if type = ''http'' then Some (http_domain buffer)
      else if type = ''https'' then sni_domain buffer else Some [])"

text \<open>
  The completion of the first read. \<open>alive\<close> tells whether a session still exists (the routes
  hold weak pointers), \<open>ticket\<close> is made of the clock and \<open>rand\<close>. The result has the message for
  the control session, with the session that sends it.
\<close>

definition vhost_on_read ::
    "(nat \<Rightarrow> bool) \<Rightarrow> nat \<Rightarrow> string \<Rightarrow> nat \<Rightarrow> string \<Rightarrow> error_code \<Rightarrow> bytes \<Rightarrow> server \<Rightarrow>
     (server \<times> (nat \<times> NewUserConnMessage) option) option" where
  "vhost_on_read alive now ticket socket type ec buffer sv =
     (if ec \<noteq> Success then Some (sv, None)
      else do {
        domain \<leftarrow> vhost_domain type buffer;
        Some (case map_of (vhost_routes sv) domain of
                None \<Rightarrow> (sv, None)
              | Some r \<Rightarrow>
                  if alive (vr_session r)
                  then (RegisterUserConn now ticket socket (vr_proxy_name r) buffer sv,
                        Some (vr_session r, \<lparr>nu_proxy_name = vr_proxy_name r, nu_ticket = ticket\<rparr>))
                  else (sv, None))
      })"

section \<open>Memory safety of the parsers\<close>

lemma at_in_bounds: "i < length data \<Longrightarrow> \<exists>b<256. byte_at data i = Some b"
  using unsigned_less [of "data ! i"] by (simp add: byte_at_def)

lemma u16_in_bounds: "i + 1 < length data \<Longrightarrow> \<exists>v. u16 data i = Some v"
  using at_in_bounds [of i data] at_in_bounds [of "i + 1" data] by (auto simp: u16_def)

lemma guard_defined: "(b \<Longrightarrow> f \<noteq> None) \<Longrightarrow> (if b then f else Some []) \<noteq> None"
  by simp

lemma bind_defined: "\<exists>v. m = Some v \<Longrightarrow> (\<And>v. m = Some v \<Longrightarrow> f v \<noteq> None) \<Longrightarrow> Option.bind m f \<noteq> None"
  by auto

lemma byte_at_defined: "i < length data \<Longrightarrow> \<exists>v. byte_at data i = Some v"
  using at_in_bounds by blast

lemmas parser_defined = guard_defined bind_defined byte_at_defined u16_in_bounds

lemma sni_name_in_bounds: "sni_name data pos \<noteq> None"
  unfolding sni_name_def by (intro parser_defined; (linarith | simp))

lemma sni_extensions_in_bounds: "sni_extensions data end_ext pos \<noteq> None"
proof (induction data end_ext pos rule: sni_extensions.induct)
  case (1 data end_ext pos)
  show ?case
  proof (cases "pos + 4 \<le> length data \<and> pos + 4 \<le> end_ext")
    case True
    then obtain etype elen where u: "u16 data pos = Some etype" "u16 data (pos + 2) = Some elen"
      using u16_in_bounds [of pos data] u16_in_bounds [of "pos + 2" data] by auto
    from 1 [OF True refl u] sni_name_in_bounds True show ?thesis
      by (subst sni_extensions.simps) (auto simp only: u prod.case option.case if_True split: if_split)
  next
    case False
    then show ?thesis by (subst sni_extensions.simps) (simp only: if_False option.distinct not_False_eq_True)
  qed
qed

lemma sni_hello_in_bounds: "sni_hello data pos \<noteq> None"
  unfolding sni_hello_def Let_def
  by (intro parser_defined sni_extensions_in_bounds; linarith)

lemma sni_domain_in_bounds: "sni_domain data \<noteq> None"
  unfolding sni_domain_def
  by (intro parser_defined sni_hello_in_bounds; linarith)

lemma vhost_domain_defined: "vhost_domain type buffer \<noteq> None"
  by (simp add: vhost_domain_def sni_domain_in_bounds del: not_None_eq)

lemma vhost_parsers_defined:
  "\<exists>sv' out. vhost_on_read alive now ticket socket type ec buffer sv = Some (sv', out)"
  using vhost_domain_defined [of type buffer] by (auto simp: vhost_on_read_def split: option.splits)


section \<open>ClientHello messages\<close>

text \<open>
  The ClientHello of RFC 8446 in one TLS record: versions, random, session identifier, cipher
  suites, compression methods, and extensions, among them a server name list with one host name.
\<close>

record client_hello =
  ch_record_version :: bytes
  ch_handshake_length :: bytes
  ch_version_random :: bytes
  ch_session_id :: bytes
  ch_ciphers :: bytes
  ch_compression :: bytes
  ch_before :: "(16 word \<times> bytes) list"
  ch_server_name :: string
  ch_after :: bytes

definition sized16 :: "bytes \<Rightarrow> bytes" where
  "sized16 d = be16 (word_of_nat (length d)) @ d"

definition sized8 :: "bytes \<Rightarrow> bytes" where
  "sized8 d = word_of_nat (length d) # d"

definition extension :: "16 word \<times> bytes \<Rightarrow> bytes" where
  "extension e = be16 (fst e) @ sized16 (snd e)"

definition sni_body :: "string \<Rightarrow> bytes" where
  "sni_body name = sized16 (0 # sized16 (bytes_of_string name))"

definition hello_extensions :: "client_hello \<Rightarrow> bytes" where
  "hello_extensions h = concat (map extension (ch_before h)) @ extension (0, sni_body (ch_server_name h)) @ ch_after h"

definition hello_prefix :: "client_hello \<Rightarrow> bytes" where
  "hello_prefix h = ch_version_random h @ sized8 (ch_session_id h) @ sized16 (ch_ciphers h) @ sized8 (ch_compression h)"

definition handshake :: "client_hello \<Rightarrow> bytes" where
  "handshake h = 0x01 # ch_handshake_length h @ hello_prefix h @ sized16 (hello_extensions h)"

definition hello_record :: "client_hello \<Rightarrow> bytes" where
  "hello_record h = 0x16 # ch_record_version h @ sized16 (handshake h)"

definition hello_ok :: "client_hello \<Rightarrow> bool" where
  "hello_ok h \<longleftrightarrow> length (ch_record_version h) = 2 \<and> length (ch_handshake_length h) = 3 \<and>
     length (ch_version_random h) = 34 \<and> length (ch_session_id h) < 256 \<and> length (ch_compression h) < 256 \<and>
     list_all (\<lambda>e. fst e \<noteq> 0) (ch_before h) \<and> length (handshake h) < 65536"

lemma byte_at_append [simp]: "byte_at (xs @ b # ys) (length xs) = Some (unat b)"
  by (simp add: byte_at_def)

lemma unat_be16: "unat (ucast (drop_bit 8 v) :: byte) * 256 + unat (ucast v :: byte) = unat (v :: 16 word)"
proof -
  have "unat v < 2 ^ 16" using unsigned_less [of v] by simp
  then show ?thesis
    by (simp add: unsigned_ucast_eq drop_bit_eq_div take_bit_eq_mod unat_div_distrib)
qed

lemma u16_append [simp]: "u16 (xs @ be16 v @ ys) (length xs) = Some (unat v)"
proof -
  have "byte_at (xs @ be16 v @ ys) (length xs) = Some (unat (ucast (drop_bit 8 v) :: byte))"
    "byte_at (xs @ be16 v @ ys) (length xs + 1) = Some (unat (ucast v :: byte))"
    by (simp_all add: byte_at_def be16_def nth_append)
  then show ?thesis by (simp add: u16_def unat_be16)
qed

lemma u16_at: "data = xs @ be16 v @ ys \<Longrightarrow> i = length xs \<Longrightarrow> u16 data i = Some (unat v)"
  by simp

lemma byte_at_at: "data = xs @ b # ys \<Longrightarrow> i = length xs \<Longrightarrow> byte_at data i = Some (unat b)"
  by simp

lemma length_sized [simp]: "length (sized16 d) = 2 + length d" "length (sized8 d) = 1 + length d"
  by (simp_all add: sized16_def sized8_def)

lemma length_extension [simp]: "length (extension e) = 4 + length (snd e)"
  by (simp add: extension_def)

lemma sni_name_found:
  assumes "length name < 65531"
  shows "sni_name (xs @ sni_body name @ ys) (length xs) = Some name"
proof -
  let ?n = "bytes_of_string name" and ?data = "xs @ sni_body name @ ys"
  define l where "l = (word_of_nat (length name + 3) :: 16 word)"
  have data: "?data = xs @ be16 l @ 0 # be16 (word_of_nat (length name)) @ ?n @ ys"
    by (simp add: sni_body_def sized16_def l_def add.commute)
  have l: "u16 ?data (length xs) = Some (unat l)"
    by (rule u16_at [OF data]) simp
  have t: "byte_at ?data (length xs + 2) = Some (unat (0 :: byte))"
    by (rule byte_at_at [of _ "xs @ be16 l" 0]) (simp_all add: data)
  have "u16 ?data (length xs + 3) = Some (unat (word_of_nat (length name) :: 16 word))"
    by (rule u16_at [of _ "xs @ be16 l @ [0]"]) (simp_all add: data)
  then have m: "u16 ?data (length xs + 3) = Some (length name)"
    using assms by (simp add: unat_word16)
  have d: "take (length name) (drop (length xs + 5) ?data) = ?n"
    by (simp add: sni_body_def sized16_def be16_def)
  have len: "length ?data = length xs + 5 + length name + length ys"
    by (simp add: sni_body_def)
  show ?thesis
    unfolding sni_name_def len l t m Option.bind.bind_lunit by (simp only: d) simp
qed

lemma extension_fields:
  assumes "data = xs @ extension e @ ys" "length (snd e) < 65536"
  shows "u16 data (length xs) = Some (unat (fst e))" "u16 data (length xs + 2) = Some (length (snd e))"
    "length xs + 4 \<le> length data"
proof -
  have "u16 data (length xs + 2) = Some (unat (word_of_nat (length (snd e)) :: 16 word))"
    by (rule u16_at [of _ "xs @ be16 (fst e)"]) (simp_all add: assms(1) extension_def sized16_def)
  then show "u16 data (length xs + 2) = Some (length (snd e))" using assms(2) by (simp add: unat_word16)
  show "u16 data (length xs) = Some (unat (fst e))"
    by (rule u16_at) (simp_all add: assms(1) extension_def)
qed (simp add: assms(1))

lemma sni_extensions_skip:
  assumes "data = xs @ extension e @ ys" "length (snd e) < 65536" "fst e \<noteq> 0" "length xs + 4 \<le> end_ext"
  shows "sni_extensions data end_ext (length xs) = sni_extensions data end_ext (length (xs @ extension e))"
proof -
  have "unat (fst e) \<noteq> 0" using assms(3) by (simp add: unat_eq_0)
  then show ?thesis
    using extension_fields [OF assms(1,2)] assms(4)
    by (subst sni_extensions.simps) (simp only: prod.case option.case if_False simp_thms if_True length_append
        length_extension add.assoc)
qed

lemma sni_extensions_found:
  assumes "data = xs @ extension (0, sni_body name) @ ys" "length (sni_body name) < 65536" "length xs + 4 \<le> end_ext"
  shows "sni_extensions data end_ext (length xs) = Some name"
proof -
  have f: "u16 data (length xs) = Some 0" "u16 data (length xs + 2) = Some (length (sni_body name))"
    "length xs + 4 \<le> length data"
    using extension_fields [OF assms(1)] assms(2) by simp_all
  have split: "data = (xs @ be16 0 @ be16 (word_of_nat (length (sni_body name)))) @ sni_body name @ ys"
    by (simp add: assms(1) extension_def sized16_def)
  have "sni_name data (length xs + 4) = Some name"
    using sni_name_found [of name "xs @ be16 0 @ be16 (word_of_nat (length (sni_body name)))" ys] assms(2)
    unfolding split by (simp add: sni_body_def)
  then show ?thesis
    using f assms(3) by (subst sni_extensions.simps) (simp only: prod.case option.case if_True simp_thms)
qed

lemma sni_extensions_walk:
  assumes "data = xs @ concat (map extension es) @ extension (0, sni_body name) @ ys"
    and "list_all (\<lambda>e. fst e \<noteq> 0 \<and> length (snd e) < 65536) es" "length (sni_body name) < 65536"
    and "length xs + length (concat (map extension es)) + 4 \<le> end_ext"
  shows "sni_extensions data end_ext (length xs) = Some name"
  using assms
proof (induction es arbitrary: xs)
  case Nil
  then show ?case by (intro sni_extensions_found) simp_all
next
  case (Cons e es)
  have "sni_extensions data end_ext (length xs) = sni_extensions data end_ext (length (xs @ extension e))"
    by (rule sni_extensions_skip [of _ _ _ "concat (map extension es) @ extension (0, sni_body name) @ ys"])
      (use Cons.prems in auto)
  also have "\<dots> = Some name" by (rule Cons.IH) (use Cons.prems in auto)
  finally show ?case .
qed

lemma length_member_concat: "e \<in> set es \<Longrightarrow> length (snd e) \<le> length (concat (map extension es))"
  by (induction es) auto

lemma sni_hello_found:
  assumes "data = xs @ sized8 sid @ sized16 ciphers @ sized8 cmp @ sized16 exts @ ys"
    and "length sid < 256" "length ciphers < 65536" "length cmp < 256" "length exts < 65536"
  shows "sni_hello data (length xs) =
    sni_extensions data (length (xs @ sized8 sid @ sized16 ciphers @ sized8 cmp) + 2 + length exts)
      (length (xs @ sized8 sid @ sized16 ciphers @ sized8 cmp) + 2)"
proof -
  let ?p1 = "length xs + 1 + length sid" and ?p2 = "length xs + 1 + length sid + 2 + length ciphers"
    and ?p3 = "length xs + 1 + length sid + 2 + length ciphers + 1 + length cmp"
  have "byte_at data (length xs) = Some (unat (word_of_nat (length sid) :: byte))"
    by (rule byte_at_at) (simp_all add: assms(1) sized8_def)
  moreover have "u16 data ?p1 = Some (unat (word_of_nat (length ciphers) :: 16 word))"
    by (rule u16_at [of _ "xs @ sized8 sid"]) (simp_all add: assms(1) sized16_def)
  moreover have "byte_at data ?p2 = Some (unat (word_of_nat (length cmp) :: byte))"
    by (rule byte_at_at [of _ "xs @ sized8 sid @ sized16 ciphers"]) (simp_all add: assms(1) sized8_def)
  moreover have "u16 data ?p3 = Some (unat (word_of_nat (length exts) :: 16 word))"
    by (rule u16_at [of _ "xs @ sized8 sid @ sized16 ciphers @ sized8 cmp"]) (simp_all add: assms(1) sized16_def)
  moreover have "unat (word_of_nat n :: byte) = n" if "n < 256" for n
    using that by (simp add: unat_of_nat take_bit_eq_mod)
  ultimately have f: "byte_at data (length xs) = Some (length sid)" "u16 data ?p1 = Some (length ciphers)"
    "byte_at data ?p2 = Some (length cmp)" "u16 data ?p3 = Some (length exts)"
    using assms(2-5) by (simp_all add: unat_word16)
  have len: "length xs < length data" "?p1 + 2 \<le> length data" "?p2 + 1 \<le> length data" "?p3 + 2 \<le> length data"
    by (simp_all add: assms(1))
  show ?thesis
    unfolding sni_hello_def Let_def
    by (simp only: f len Option.bind.bind_lunit if_True) (simp only: length_append length_sized add.assoc)
qed

definition hello_start :: "client_hello \<Rightarrow> bytes" where
  "hello_start h = 0x16 # ch_record_version h @ be16 (word_of_nat (length (handshake h))) @ 0x01 #
     ch_handshake_length h @ ch_version_random h"

lemma hello_record_start:
  "hello_record h = hello_start h @ sized8 (ch_session_id h) @ sized16 (ch_ciphers h) @
     sized8 (ch_compression h) @ sized16 (hello_extensions h)"
  by (simp add: hello_record_def hello_start_def sized16_def handshake_def hello_prefix_def)

lemma length_hello_start: "hello_ok h \<Longrightarrow> length (hello_start h) = 43"
  by (simp add: hello_ok_def hello_start_def)

lemma hello_lengths:
  assumes "hello_ok h"
  shows "length (ch_ciphers h) < 65536" "length (hello_extensions h) < 65536"
    "length (sni_body (ch_server_name h)) < 65536"
    "list_all (\<lambda>e. fst e \<noteq> 0 \<and> length (snd e) < 65536) (ch_before h)"
proof -
  have "length (ch_ciphers h) + length (hello_extensions h) < 65536"
    using assms by (simp add: hello_ok_def handshake_def hello_prefix_def)
  moreover have "length (concat (map extension (ch_before h))) + length (sni_body (ch_server_name h))
      \<le> length (hello_extensions h)"
    by (simp add: hello_extensions_def)
  moreover have "length (snd e) \<le> length (concat (map extension (ch_before h)))" if "e \<in> set (ch_before h)" for e
    using that by (rule length_member_concat)
  ultimately show "length (ch_ciphers h) < 65536" "length (hello_extensions h) < 65536"
      "length (sni_body (ch_server_name h)) < 65536"
      "list_all (\<lambda>e. fst e \<noteq> 0 \<and> length (snd e) < 65536) (ch_before h)"
    using assms by (force simp: hello_ok_def list_all_iff)+
qed

lemma hello_record_head:
  assumes "hello_ok h"
  shows "byte_at (hello_record h @ rest) 0 = Some 0x16" "u16 (hello_record h @ rest) 3 = Some (length (handshake h))"
    "byte_at (hello_record h @ rest) 5 = Some 1"
proof -
  let ?data = "hello_record h @ rest" and ?l = "word_of_nat (length (handshake h)) :: 16 word"
  have "byte_at ?data 0 = Some (unat (0x16 :: byte))"
    by (rule byte_at_at [of _ "[]"]) (simp_all add: hello_record_def)
  then show "byte_at ?data 0 = Some 0x16" by simp
  have "u16 ?data 3 = Some (unat ?l)"
    by (rule u16_at [of _ "0x16 # ch_record_version h"]) (use assms in \<open>simp_all add: hello_record_def sized16_def hello_ok_def\<close>)
  then show "u16 ?data 3 = Some (length (handshake h))" using assms by (simp add: unat_word16 hello_ok_def)
  have "byte_at ?data 5 = Some (unat (1 :: byte))"
    by (rule byte_at_at [of _ "0x16 # ch_record_version h @ be16 ?l"])
      (use assms in \<open>simp_all add: hello_record_def sized16_def hello_ok_def handshake_def\<close>)
  then show "byte_at ?data 5 = Some 1" by simp
qed

lemma hello_record_length: "hello_ok h \<Longrightarrow> length (hello_record h) = 5 + length (handshake h)"
  by (simp add: hello_record_def hello_ok_def)

lemma handshake_length: "hello_ok h \<Longrightarrow> 43 \<le> length (handshake h)"
  by (simp add: handshake_def hello_prefix_def hello_ok_def)

lemma sni_domain_hello:
  assumes "hello_ok h"
  shows "sni_domain (hello_record h @ rest) = sni_hello (hello_record h @ rest) 43"
  using hello_record_head [OF assms, of rest] hello_record_length [OF assms] handshake_length [OF assms]
  unfolding sni_domain_def by (simp only: Option.bind.bind_lunit) auto

lemma sni_hello_record:
  assumes "hello_ok h"
  shows "sni_hello (hello_record h @ rest) 43 = Some (ch_server_name h)"
proof -
  let ?pre = "hello_start h @ sized8 (ch_session_id h) @ sized16 (ch_ciphers h) @ sized8 (ch_compression h)"
  let ?data = "hello_record h @ rest" and ?e = "hello_extensions h"
  note lens = hello_lengths [OF assms]
  have "sni_hello ?data (length (hello_start h)) = sni_extensions ?data (length ?pre + 2 + length ?e) (length ?pre + 2)"
    by (rule sni_hello_found [of _ _ _ _ _ _ rest]) (use assms lens in \<open>simp_all add: hello_record_start hello_ok_def\<close>)
  also have "\<dots> = sni_extensions ?data (length ?pre + 2 + length ?e)
      (length (?pre @ be16 (word_of_nat (length ?e))))" by simp
  also have "\<dots> = Some (ch_server_name h)"
    by (rule sni_extensions_walk [where es = "ch_before h" and ys = "ch_after h @ rest"])
      (use lens in \<open>simp_all add: hello_record_start sized16_def hello_extensions_def\<close>)
  finally show ?thesis by (simp add: length_hello_start [OF assms])
qed


definition demo_hello :: client_hello where
  "demo_hello = \<lparr>ch_record_version = [3, 1], ch_handshake_length = [0, 0, 70],
     ch_version_random = replicate 34 7, ch_session_id = [1, 2], ch_ciphers = [0x13, 0x01],
     ch_compression = [0], ch_before = [(0x0A, [0, 2, 0, 29])], ch_server_name = ''a.org'', ch_after = []\<rparr>"

lemma demo_hello_ok: "hello_ok demo_hello"
  by (simp add: hello_ok_def demo_hello_def handshake_def hello_prefix_def hello_extensions_def sni_body_def)


section \<open>HTTP requests\<close>

lemma find_sub_exact:
  assumes "find_sub pat (xs @ butlast pat) = None" "pat \<noteq> []"
  shows "find_sub pat (xs @ pat @ ys) = Some (length xs)"
proof -
  have "is_prefix pat (drop (length xs) (xs @ pat @ ys))" by simp
  then obtain k where k: "k \<le> length xs" "find_sub pat (xs @ pat @ ys) = Some k"
    using find_sub_le [of pat "length xs" "xs @ pat @ ys"] by auto
  have "k = length xs"
  proof (rule ccontr)
    assume "k \<noteq> length xs"
    with k(1) have less: "k < length xs" by simp
    from k(2) obtain zs where zs: "drop k (xs @ pat @ ys) = pat @ zs"
      by (auto dest!: find_sub_Some simp: is_prefix_iff)
    have "take (length pat) (drop k (xs @ butlast pat)) = take (length pat) (drop k (xs @ pat @ ys))"
      using less assms(2) by (simp, intro take_butlast) (cases pat; simp)
    also have "\<dots> = pat" by (subst zs) simp
    finally have "xs @ butlast pat = take k (xs @ butlast pat) @ pat @ drop (length pat) (drop k (xs @ butlast pat))"
      by (metis append_take_drop_id)
    with assms(1) show False using find_sub_None_iff by metis
  qed
  with k(2) show ?thesis by simp
qed

lemma find_char_absent: "c \<notin> set s \<Longrightarrow> find_sub [c] s = None"
  by (induction s) auto

lemma trim_left_clean: "set s \<inter> set cs = {} \<Longrightarrow> trim_left cs s = s"
  by (cases s) (auto simp: trim_left_def)

lemma trim_right_clean: "set s \<inter> set cs = {} \<Longrightarrow> trim_right cs s = s"
  using trim_right_append_blank [of "[]" cs s] by (cases s rule: rev_cases) auto

text \<open>
  The \<open>Host\<close> header is found. When the first occurrence of \<open>Host: \<close> in the first read is followed by
  a host name and an optional port, the parser returns the host name. The occurrence need not be
  the start of a line: with a header like \<open>X-Forwarded-Host: b.org\<close> in front, the connection is
  routed by that header (take \<open>before\<close> to end in \<open>X-Forwarded-\<close>).
\<close>

theorem http_finds_host:
  assumes "find_sub ''Host: '' (before @ ''Host:'') = None"
    and "set host \<inter> set ('':'' @ blanks) = {}" "CHR 0x0D \<notin> set port" "port = [] \<or> hd port = CHR '':''"
  shows "http_domain (bytes_of_string (before @ ''Host: '' @ host @ port @ http_crlf @ rest)) = host"
proof -
  let ?d = "before @ ''Host: '' @ host @ port @ http_crlf @ rest"
  have pos: "find_sub ''Host: '' ?d = Some (length before)"
    using find_sub_exact [of "''Host: ''" before "host @ port @ http_crlf @ rest"] assms(1) by simp
  have nocr: "CHR 0x0D \<notin> set (''Host: '' @ host @ port)" using assms(2,3) by (auto simp: blanks_def)
  have "find_sub http_crlf ((''Host: '' @ host @ port) @ http_crlf @ rest) = Some (length (''Host: '' @ host @ port))"
    using find_sub_first [OF nocr, of "[CHR 0x0A]" rest] by (simp add: http_crlf_def)
  then have ends: "find_sub_from http_crlf ?d (length before) = Some (length before + 6 + length (host @ port))"
    by (simp add: find_sub_from_def)
  have field: "take (sub64 (length before + 6 + length (host @ port)) (length before + 6))
      (drop (length before + 6) ?d) = host @ port" by simp
  have colon: "(case find_sub '':'' (host @ port) of Some c \<Rightarrow> take c (host @ port) | None \<Rightarrow> host @ port) = host"
  proof (cases port)
    case Nil
    then show ?thesis using assms(2) by (simp add: find_char_absent)
  next
    case (Cons c p)
    then show ?thesis using assms(2,4) find_sub_first [of "CHR '':''" host "[]" p] by simp
  qed
  have "set host \<inter> set blanks = {}" using assms(2) by auto
  then show ?thesis
    unfolding http_domain_def Let_def string_of_bytes_of_string pos option.case ends field colon
    by (simp add: trim_left_clean trim_right_clean)
qed

theorem http_finds_host_witness:
  "http_domain (bytes_of_string (''GET / HTTP/1.1'' @ http_crlf @ ''X-Forwarded-Host: b.org:81'' @ http_crlf @
     ''Host: a.org'' @ http_crlf)) = ''b.org''"
  using http_finds_host [of "''GET / HTTP/1.1'' @ http_crlf @ ''X-Forwarded-''" "''b.org''" "'':81''"
      "''Host: a.org'' @ http_crlf"]
  by (simp add: http_crlf_def blanks_def)

section \<open>Routing of a connection\<close>

text \<open>
  Routing. When the domain of the first read has a route to a live session, the connection becomes
  pending under the ticket with the bytes already read as its initial data, and the
  session is told the proxy and the ticket; the claim of the ticket then yields exactly this
  connection. The type of the route plays no role: an \<open>http\<close> route serves a TLS connection. When the table of
  pending connections is full, the connection is dropped but the session is told all the same.
\<close>

theorem vhost_routes_connection:
  assumes "vhost_domain type buffer = Some d" "map_of (vhost_routes sv) d = Some r" "alive (vr_session r)"
    and "vhost_on_read alive now ticket socket type Success buffer sv = Some (sv', out)"
  shows "out = Some (vr_session r, \<lparr>nu_proxy_name = vr_proxy_name r, nu_ticket = ticket\<rparr>) \<and>
    (pending_count (DoLazyCleanup now sv) < MAX_PENDING_TICKETS \<and>
       map_of (pending_user_conns (DoLazyCleanup now sv)) ticket = None \<longrightarrow>
       fst (claim_ticket ticket sv') = Claimed_tcp \<lparr>ti_socket = socket, ti_initial_data = buffer,
          ti_proxy_name = vr_proxy_name r, ti_created_at = now\<rparr>) \<and>
    (MAX_PENDING_TICKETS \<le> pending_count (DoLazyCleanup now sv) \<longrightarrow> sv' = DoLazyCleanup now sv)"
  using assms
  by (auto simp: vhost_on_read_def RegisterUserConn_def Let_def claim_ticket_def emplace_def)

definition demo_routes :: server where
  "demo_routes = AddVhostRoute ''a.org'' 2 ''web'' ''http'' (new_server ''secret'' [] [])"

theorem vhost_routes_connection_witness:
  "case vhost_on_read (\<lambda>c. c = 2) 5 ''t1'' 9 ''https'' Success (hello_record demo_hello) demo_routes of
     None \<Rightarrow> False
   | Some (sv', out) \<Rightarrow> out = Some (2, \<lparr>nu_proxy_name = ''web'', nu_ticket = ''t1''\<rparr>) \<and>
       fst (claim_ticket ''t1'' sv') = Claimed_tcp \<lparr>ti_socket = 9, ti_initial_data = hello_record demo_hello,
          ti_proxy_name = ''web'', ti_created_at = 5\<rparr>"
proof -
  obtain sv' out where
    r: "vhost_on_read (\<lambda>c. c = 2) 5 ''t1'' 9 ''https'' Success (hello_record demo_hello) demo_routes = Some (sv', out)"
    using vhost_parsers_defined by blast
  have d: "vhost_domain ''https'' (hello_record demo_hello) = Some ''a.org''"
    using sni_domain_hello [OF demo_hello_ok, of "[]"] sni_hello_record [OF demo_hello_ok, of "[]"]
    by (simp add: vhost_domain_def demo_hello_def)
  have m: "map_of (vhost_routes demo_routes) ''a.org'' = Some \<lparr>vr_session = 2, vr_proxy_name = ''web'', vr_type = ''http''\<rparr>"
    by (simp add: demo_routes_def AddVhostRoute_def new_server_def)
  have c: "DoLazyCleanup 5 demo_routes = demo_routes"
    by (subst DoLazyCleanup.simps) (simp add: demo_routes_def AddVhostRoute_def new_server_def)
  have p: "pending_count demo_routes = 0" "pending_user_conns demo_routes = []"
    by (simp_all add: demo_routes_def AddVhostRoute_def new_server_def pending_count_def)
  from vhost_routes_connection [OF d m _ r] show ?thesis
    by (simp add: r c p MAX_PENDING_TICKETS_def)
qed

end
