(* ===== verification/Tickets.thy ===== *)
theory Tickets
  imports Server_State
begin

text \<open>
  The ticket that opens a work stream, as \<open>Client::HandleNewUserConn\<close> and
  \<open>HandleNewUdpUserConn\<close> (\<open>src/client/client.cpp\<close>) write it and \<open>Server::HandleNewMuxStream\<close>
  (\<open>src/server/server.cpp\<close>) reads it.
\<close>

section \<open>Tickets on the wire\<close>

definition ticket_blanks :: string where
  "ticket_blanks = [CHR '' '', CHR 0x0A, CHR 0x0D, CHR 0x09]"

text \<open>The client: a flag, the ticket, and \<open>resize(65, ' ')\<close>, which pads or cuts.\<close>

definition ticket_buf :: "bool \<Rightarrow> string \<Rightarrow> bytes" where
  "ticket_buf compression ticket =
     take 65 ((if compression then 0x01 else 0x00) # bytes_of_string ticket @ replicate 65 0x20)"

text \<open>The server: the flag and the trimmed ticket.\<close>

definition read_ticket :: "bytes \<Rightarrow> bool \<times> string" where
  "read_ticket buf =
     (buf ! 0 = 0x01, trim_right ticket_blanks (string_of_bytes (take 64 (drop 1 buf))))"

section \<open>Tickets arrive\<close>

lemma to_string_chars: "set (to_string n) \<subseteq> digit_char ` {0..<10}"
proof (induction n rule: to_string.induct)
  case (1 n)
  show ?case
  proof (cases "n < 10")
    case True
    then show ?thesis by (subst to_string.simps) auto
  next
    case False
    with 1 show ?thesis by (subst to_string.simps) auto
  qed
qed

lemma length_to_string: "0 < k \<Longrightarrow> n < 10 ^ k \<Longrightarrow> length (to_string n) \<le> k"
proof (induction k arbitrary: n)
  case (Suc k)
  show ?case
  proof (cases "n < 10")
    case True
    then show ?thesis by (subst to_string.simps) simp
  next
    case False
    with Suc.prems have "n div 10 < 10 ^ k" "0 < k" by (cases k; auto)+
    with Suc.IH have "length (to_string (n div 10)) \<le> k" by blast
    with False show ?thesis by (subst to_string.simps) simp
  qed
qed simp

lemma to_string_nonempty: "to_string n \<noteq> []"
  by (subst to_string.simps) simp

lemma digit_not_blank: "d < 10 \<Longrightarrow> digit_char d \<notin> set ticket_blanks"
proof -
  assume "d < 10"
  then have "of_char (digit_char d) = 48 + d" by (simp add: digit_char_def)
  then have "of_char (digit_char d) \<notin> (of_char ` set ticket_blanks :: nat set)" by (simp add: ticket_blanks_def)
  then show ?thesis by blast
qed

lemma to_string_clean: "last (to_string n) \<notin> set ticket_blanks"
proof -
  have "last (to_string n) \<in> digit_char ` {0..<10}"
    using to_string_chars last_in_set [OF to_string_nonempty] by blast
  then show ?thesis using digit_not_blank by auto
qed

lemma read_ticket_buf:
  assumes "length ticket \<le> 64" "ticket = [] \<or> last ticket \<notin> set ticket_blanks"
  shows "read_ticket (ticket_buf compression ticket) = (compression, ticket)"
proof -
  let ?pad = "replicate (64 - length ticket) (CHR '' '')"
  have len: "ticket_buf compression ticket =
      (if compression then 0x01 else 0x00) # bytes_of_string (ticket @ ?pad)"
  proof -
    have "take 64 (bytes_of_string ticket @ replicate 65 (0x20 :: byte)) =
        bytes_of_string ticket @ replicate (64 - length ticket) 0x20"
      using assms(1) by (simp add: take_replicate min_def)
    moreover have "byte_of_char (CHR '' '') = 0x20" by (simp add: byte_of_char_def)
    ultimately show ?thesis
      by (simp add: ticket_buf_def bytes_of_string_def map_replicate)
  qed
  have "set ?pad \<subseteq> set ticket_blanks" by (auto simp: ticket_blanks_def)
  then have "trim_right ticket_blanks (ticket @ ?pad) = ticket"
    using assms(2) by (rule trim_right_append_blank)
  then show ?thesis
    using assms(1) by (simp add: read_ticket_def len del: bytes_of_string_append)
qed

text \<open>
  The three kinds of tickets the server makes, of the clock (below \<open>10 ^ 20\<close> nanoseconds, in the year
  5138) and \<open>rand\<close> (below \<open>2 ^ 31\<close>).
\<close>

definition server_ticket :: "string \<Rightarrow> nat \<Rightarrow> nat \<Rightarrow> bool" where
  "server_ticket t clock r \<longleftrightarrow> t = to_string clock \<or> t = to_string clock @ ''_vhost_'' @ to_string r \<or>
     t = to_string clock @ ''_'' @ to_string r"

lemma server_ticket_fits:
  assumes "server_ticket t clock r" "clock < 10 ^ 20" "r < 2 ^ 31"
  shows "length t \<le> 64" "last t \<notin> set ticket_blanks"
proof -
  have "length (to_string clock) \<le> 20" using assms(2) by (intro length_to_string) simp_all
  moreover have "length (to_string r) \<le> 10" using assms(3) by (intro length_to_string) simp_all
  ultimately show "length t \<le> 64" using assms(1) by (auto simp: server_ticket_def)
  show "last t \<notin> set ticket_blanks"
    using assms(1) to_string_clean to_string_nonempty by (auto simp: server_ticket_def)
qed

end
