(* ===== verification/Work_Conn.thy ===== *)
theory Work_Conn
  imports Control_Session Tickets
begin

text \<open>
  Work connections: how a user connection meets the work stream that serves it. The server accepts a
  user connection and announces a ticket (\<open>ProxyListener::DoAccept\<close>,
  \<open>UdpProxyListener::DoReceive\<close>), the client opens a mux stream and writes the ticket as its first
  65 bytes (\<open>Client::HandleNewUserConn\<close>, \<open>HandleNewUdpUserConn\<close>), and the server splices the
  two (\<open>Server::HandleNewMuxStream\<close>).
\<close>

section \<open>User connections\<close>

record listener_stats =
  active_conns :: "32 word"
  total_conns :: "64 word"

definition dec_active_conns :: "listener_stats \<Rightarrow> listener_stats" where
  "dec_active_conns st = (if 0 < active_conns st then st\<lparr>active_conns := active_conns st - 1\<rparr> else st)"

datatype again = Accept_now | Accept_after_ms nat | Accept_never

text \<open>
  The completion of \<open>ProxyListener\<close>'s \<open>async_accept\<close>. \<open>clock\<close> is the count of the system clock, of
  which the ticket is made, and \<open>alive\<close> tells whether the session still exists.
\<close>

definition proxy_accept ::
    "nat \<Rightarrow> nat \<Rightarrow> nat \<Rightarrow> bool \<Rightarrow> string \<Rightarrow> error_code \<Rightarrow> listener_stats \<Rightarrow> server \<Rightarrow>
     listener_stats \<times> server \<times> NewUserConnMessage option \<times> again" where
  "proxy_accept now clock socket alive proxy_name ec st sv =
     (if ec \<noteq> Success
      then (st, sv, None, if ec = Operation_aborted then Accept_never else Accept_after_ms 100)
      else
        (let ticket = to_string clock in
         (st\<lparr>total_conns := total_conns st + 1, active_conns := active_conns st + 1\<rparr>,
          RegisterUserConn now ticket socket proxy_name [] sv,
          (if alive then Some \<lparr>nu_proxy_name = proxy_name, nu_ticket = ticket\<rparr> else None),
          Accept_now)))"

section \<open>Splicing\<close>

text \<open>
  The bytes that the server sends ahead of a bridge when it has read from the user already.
  The header is an uninitialised variable that only the compressing branch assigns: \<open>uninit\<close>
  is what it holds otherwise.
\<close>

definition initial_packet :: "zstd \<Rightarrow> bytes \<Rightarrow> bool \<Rightarrow> bytes \<Rightarrow> bytes" where
  "initial_packet z uninit compression initial_data =
     (if compression
      then (case z_compress z 1 initial_data of
              Some c \<Rightarrow> if length c < length initial_data
                        then be32 (word_of_nat (length c) OR COMPRESSION_FLAG) @ c
                        else be32 (word_of_nat (length initial_data)) @ initial_data
            | None \<Rightarrow> be32 (word_of_nat (length initial_data)) @ initial_data)
      else uninit @ initial_data)"

datatype work_out =
    Work_ignored
  | Work_closed
  | Tcp_bridge nat bridge "bytes option" "nat option"
  | Udp_bridge nat nat bool bool "nat option"

text \<open>
  The completion of the ticket read. \<open>ctl\<close> are the control sessions by reference. A TCP splice has
  the user socket, the bridge, what is written ahead of it, and the listener whose
  connections the end of the bridge counts down.
\<close>

definition on_ticket ::
    "zstd \<Rightarrow> bytes \<Rightarrow> (nat \<Rightarrow> csession) \<Rightarrow> nat \<Rightarrow> error_code \<Rightarrow> bytes \<Rightarrow> server \<Rightarrow> work_out \<times> server" where
  "on_ticket z uninit ctl mux ec buf sv =
     (if ec \<noteq> Success then (Work_ignored, sv)
      else
        (case read_ticket buf of (compression, ticket) \<Rightarrow>
           (case claim_ticket ticket sv of
              (Not_found, sv') \<Rightarrow> (Work_closed, sv')
            | (Claimed_tcp i, sv') \<Rightarrow>
                (Tcp_bridge (ti_socket i)
                   (Bridge compression 1 (GetRateLimiter (ti_proxy_name i) sv' \<noteq> None))
                   (if ti_initial_data i = [] then None
                    else Some (initial_packet z uninit compression (ti_initial_data i)))
                   (case map_of (mux_to_control sv') mux of
                      None \<Rightarrow> None
                    | Some c \<Rightarrow> map_option pl_ref (FindProxy (ti_proxy_name i) (proxies (ctl c)))),
                 sv')
            | (Claimed_udp u, sv') \<Rightarrow>
                (Udp_bridge (ui_listener u) (ui_endpoint u) compression
                   (GetRateLimiter (ui_proxy_name u) sv' \<noteq> None)
                   (case map_of (mux_to_control sv') mux of
                      None \<Rightarrow> None
                    | Some c \<Rightarrow> map_option pl_ref (FindProxy (ui_proxy_name u) (udp_proxies (ctl c)))),
                 sv'))))"

text \<open>
  A new mux stream: stream 1 is the control stream and gets a session with an authentication
  timer of ten seconds, every other stream must present a ticket.
\<close>

datatype new_stream_out = New_control csession nat | Read_ticket nat

definition HandleNewMuxStream :: "nat \<Rightarrow> nat \<Rightarrow> 32 word \<Rightarrow> server \<Rightarrow> new_stream_out \<times> server" where
  "HandleNewMuxStream ref mux stream_id sv =
     (if stream_id = 1
      then (New_control (ControlSession ref (Some mux)) 10,
            sv\<lparr>mux_to_control := AList.update mux ref (mux_to_control sv)\<rparr>)
      else (Read_ticket 65, sv))"

section \<open>From the user to the local service\<close>

text \<open>
  C9: The rendezvous works. When a user connection is accepted for a proxy whose session lives and there is
  room in the table, the ticket the client receives and writes at the head of
  a work stream, within the ten seconds and whatever else the server did in between to
  other tickets, makes the server splice that stream with exactly this user connection, with the
  compression the client uses, and with the rate limiter of the proxy.
\<close>

theorem work_connection_rendezvous:
  assumes "proxy_accept now clock socket True proxy_name Success st sv = (st', sv1, Some m, again)"
    and "clock < 10 ^ 20" "pending_count (DoLazyCleanup now sv) < MAX_PENDING_TICKETS"
    and "map_of (pending_user_conns (DoLazyCleanup now sv)) (to_string clock) = None"
    and "map_of (pending_user_conns sv2) (nu_ticket m) = map_of (pending_user_conns sv1) (nu_ticket m)"
    and "on_ticket z uninit ctl mux Success (ticket_buf compression (nu_ticket m)) sv2 = (out, sv3)"
  shows "\<exists>counted. out = Tcp_bridge socket
      (Bridge compression 1 (GetRateLimiter (nu_proxy_name m) sv2 \<noteq> None)) None counted \<and>
    nu_proxy_name m = proxy_name \<and> map_of (pending_user_conns sv3) (nu_ticket m) = None"
proof -
  have m: "nu_ticket m = to_string clock" "nu_proxy_name m = proxy_name" and
    sv1: "sv1 = RegisterUserConn now (to_string clock) socket proxy_name [] sv"
    using assms(1) by (auto simp: proxy_accept_def Let_def)
  have read: "read_ticket (ticket_buf compression (nu_ticket m)) = (compression, nu_ticket m)"
    using server_ticket_fits [of "to_string clock" clock 0] assms(2)
    by (intro read_ticket_buf) (simp_all add: m server_ticket_def)
  have "map_of (pending_user_conns sv2) (nu_ticket m) =
      Some \<lparr>ti_socket = socket, ti_initial_data = [], ti_proxy_name = proxy_name, ti_created_at = now\<rparr>"
    using assms(3-5) by (simp add: m sv1 RegisterUserConn_def Let_def emplace_def)
  with assms(6) show ?thesis
    by (auto simp: on_ticket_def read claim_ticket_def m(2) delete_conv' GetRateLimiter_def)
qed

theorem work_connection_rendezvous_witness:
  "case proxy_accept 0 1700 4 True ''web'' Success \<lparr>active_conns = 0, total_conns = 0\<rparr> demo_server of
     (st', sv1, None, again) \<Rightarrow> False
   | (st', sv1, Some m, again) \<Rightarrow>
       (\<exists>counted. fst (on_ticket rle [] (\<lambda>_. ControlSession 2 None) 7 Success (ticket_buf True (nu_ticket m)) sv1) =
          Tcp_bridge 4 (Bridge True 1 (GetRateLimiter ''web'' sv1 \<noteq> None)) None counted)"
proof -
  let ?st = "\<lparr>active_conns = 0, total_conns = 0\<rparr> :: listener_stats"
  obtain st' sv1 m again where
    r: "proxy_accept 0 1700 4 True ''web'' Success ?st demo_server = (st', sv1, Some m, again)"
    by (auto simp: proxy_accept_def Let_def)
  have c: "DoLazyCleanup 0 demo_server = demo_server"
    by (subst DoLazyCleanup.simps) (simp add: demo_server_def new_server_def)
  have p: "pending_count demo_server = 0" "pending_user_conns demo_server = []"
    by (simp_all add: demo_server_def new_server_def pending_count_def)
  have "nu_proxy_name m = ''web''" using r by (auto simp: proxy_accept_def Let_def)
  with work_connection_rendezvous [OF r _ _ _ refl prod.collapse [symmetric], of rle "[]" "\<lambda>_. ControlSession 2 None" 7 True]
  show ?thesis by (simp add: r c p MAX_PENDING_TICKETS_def)
qed

text \<open>
  The bytes a user sent before its connection was spliced. With compression they are sent as one packet that
  the client's bridge unpacks to exactly these bytes. Without compression the packet
  begins with four bytes of uninitialised memory, and the client's bridge, which
  passes everything through, writes these four bytes to the local service first.
\<close>

theorem initial_data_delivery:
  assumes "zstd_lossless z" "length uninit = 4" "length initial_data \<le> 32768"
  shows "(\<exists>b'. bridge_recv z (initial_packet z uninit True initial_data) (Bridge True level limited) =
        ([initial_data], b', [])) \<and>
    written_blocks (snd (on_read_some z 2 Success (initial_packet z uninit False initial_data)
        (Bridge False level limited))) = [uninit @ initial_data]"
proof
  have "initial_packet z uninit True initial_data = enc_packet (pack z 1 initial_data)"
    by (auto simp: initial_packet_def enc_packet_def pack_def split: option.splits)
  moreover have "\<not> br_stopped (Bridge True level limited)" by (simp add: Bridge_def)
  from bridge_packets [OF assms(1) this, of "[initial_data]" 1]
  obtain b' where "bridge_recv z (enc_packet (pack z 1 initial_data)) (Bridge True level limited) = ([initial_data], b', [])"
    using assms(3) by auto
  ultimately show "\<exists>b'. bridge_recv z (initial_packet z uninit True initial_data) (Bridge True level limited) =
      ([initial_data], b', [])" by simp
  show "written_blocks (snd (on_read_some z 2 Success (initial_packet z uninit False initial_data)
      (Bridge False level limited))) = [uninit @ initial_data]"
    by (simp add: on_read_some_def Bridge_def initial_packet_def)
qed

theorem initial_data_delivery_witness:
  "written_blocks (snd (on_read_some rle 2 Success (initial_packet rle [9, 9, 9, 9] False [1, 2])
     (Bridge False 1 False))) = [[9, 9, 9, 9, 1, 2]]"
  using initial_data_delivery [OF rle_lossless, of "[9, 9, 9, 9]" "[1, 2]" 1 False] by simp

text \<open>
  A work stream is not authenticated. Whether the mux session has a control session, logged in or not, has no influence
  on the splice: the ticket, which is the clock's reading for a TCP proxy, is the only
  credential of a work stream.
\<close>

theorem work_stream_needs_no_login:
  assumes "map_of (pending_user_conns sv) ticket = Some i" "length ticket \<le> 64"
    and "ticket = [] \<or> last ticket \<notin> set ticket_blanks" "map_of (mux_to_control sv) mux = None"
  shows "\<exists>b initial. fst (on_ticket z uninit ctl mux Success (ticket_buf c ticket) sv) = Tcp_bridge (ti_socket i) b initial None"
  using assms by (simp add: on_ticket_def read_ticket_buf claim_ticket_def)

theorem work_stream_needs_no_login_witness:
  "\<exists>b initial. fst (on_ticket rle [] (\<lambda>_. ControlSession 2 None) 7 Success (ticket_buf False ''17'')
     (demo_server\<lparr>pending_user_conns := [(''17'',
        \<lparr>ti_socket = 4, ti_initial_data = [], ti_proxy_name = ''web'', ti_created_at = 0\<rparr>)]\<rparr>)) = Tcp_bridge 4 b initial None"
  using work_stream_needs_no_login [of "demo_server\<lparr>pending_user_conns := [(''17'',
        \<lparr>ti_socket = 4, ti_initial_data = [], ti_proxy_name = ''web'', ti_created_at = 0\<rparr>)]\<rparr>" "''17''" _ 7 rle "[]"
        "\<lambda>_. ControlSession 2 None" False]
  by (simp add: demo_server_def new_server_def ticket_blanks_def)

text \<open>
  A rejected connection stays counted. When the table is full, \<open>RegisterUserConn\<close> drops the user's socket,
  but the listener has already counted the connection as active, no bridge will ever count it
  down, and the client is still asked to serve the ticket, which then is not found.
\<close>

theorem rejected_connection_stays_counted:
  assumes "MAX_PENDING_TICKETS \<le> pending_count (DoLazyCleanup now sv)" "clock < 10 ^ 20"
    and "map_of (pending_user_conns (DoLazyCleanup now sv)) (to_string clock) = None"
    and "map_of (pending_udp_sessions (DoLazyCleanup now sv)) (to_string clock) = None"
    and "proxy_accept now clock socket True proxy_name Success st sv = (st', sv1, out, again)"
  shows "active_conns st' = active_conns st + 1 \<and>
    out = Some \<lparr>nu_proxy_name = proxy_name, nu_ticket = to_string clock\<rparr> \<and>
    on_ticket z uninit ctl mux Success (ticket_buf c (to_string clock)) sv1 = (Work_closed, sv1)"
proof -
  have sv1: "sv1 = DoLazyCleanup now sv" and out: "out = Some \<lparr>nu_proxy_name = proxy_name, nu_ticket = to_string clock\<rparr>"
    and st: "active_conns st' = active_conns st + 1"
    using assms(1,5) by (auto simp: proxy_accept_def Let_def RegisterUserConn_def)
  have read: "read_ticket (ticket_buf c (to_string clock)) = (c, to_string clock)"
    using server_ticket_fits [of "to_string clock" clock 0] assms(2)
    by (intro read_ticket_buf) (simp_all add: server_ticket_def)
  show ?thesis using assms(3,4) by (simp add: sv1 out st on_ticket_def read claim_ticket_def)
qed

end
