(* ===== verification/Client.thy ===== *)
theory Client
  imports Control_Channel Tickets
begin

text \<open>
  The client (\<open>src/client/client.cpp\<close>): connecting with failover between QUIC, TCP and WebSocket,
  reconnecting with a growing delay, the control channel, the registration of static and dynamic
  proxies, and the requests to serve user connections.

  Every handler is a function from the client state to the new state and the actions it starts.
  Mux sessions, streams, QUIC sessions and endpoints are references. The operating system and
  ngtcp2 are reached through actions; what comes back is an event, a function of its own.
  \<open>connection_id\<close> is an \<open>int\<close> of the code that is incremented per connection attempt.
\<close>

section \<open>State\<close>

record ProxyConfig =
  pc_name :: string
  pc_type :: string
  pc_local_ip :: string
  pc_local_port :: "16 word"
  pc_remote_port :: "16 word"
  pc_custom_domains :: "string list"
  pc_bandwidth_limit :: "64 word"

record client =
  cl_token :: string
  cl_name :: string
  cl_protocol :: string
  cl_compression :: bool
  cl_compression_level :: int
  conf_d_path :: string
  cl_proxies :: "ProxyConfig list"
  dynamic_proxies :: "(string \<times> ProxyConfig) list"
  cl_rate_limiters :: "(string \<times> limiter) list"
  mux_session :: "nat option"
  control_stream :: "nat option"
  quic_session :: "nat option"
  reconnect_delay_sec :: nat
  connection_id :: nat
  current_protocol :: string
  quic_endpoints :: "nat list"
  quic_endpoint_index :: nat
  stopping :: bool

datatype client_action =
    Resolve nat
  | Tcp_connect nat
  | Quic_connect nat nat
  | Quic_timer nat nat
  | Stop_mux nat
  | Close_quic nat
  | Post_connect
  | Reconnect_after nat
  | Send nat Message
  | Read_header nat
  | Read_body nat nat
  | Connect_local ProxyConfig string
  | Open_udp_work ProxyConfig string
  | Poll_after nat
  | Write_ticket bytes
  | Start_bridge bridge
  | Resolve_local_udp ProxyConfig
  | Start_udp_bridge bool int bool

definition Client :: "string \<Rightarrow> string \<Rightarrow> bool \<Rightarrow> int \<Rightarrow> string \<Rightarrow> string \<Rightarrow> client" where
  "Client token name compression level conf_d protocol =
     \<lparr>cl_token = token, cl_name = name, cl_protocol = protocol, cl_compression = compression,
      cl_compression_level = level, conf_d_path = conf_d, cl_proxies = [], dynamic_proxies = [],
      cl_rate_limiters = [], mux_session = None, control_stream = None, quic_session = None,
      reconnect_delay_sec = 0, connection_id = 0,
      current_protocol = (if protocol = ''auto'' then ''quic'' else protocol),
      quic_endpoints = [], quic_endpoint_index = 0, stopping = False\<rparr>"

definition AddProxy :: "ProxyConfig \<Rightarrow> client \<Rightarrow> client" where
  "AddProxy pc c = c\<lparr>cl_proxies := cl_proxies c @ [pc]\<rparr>"

section \<open>Connecting and reconnecting\<close>

definition DoConnect :: "client \<Rightarrow> client \<times> client_action list" where
  "DoConnect c = (c\<lparr>connection_id := connection_id c + 1\<rparr>, [Resolve (connection_id c + 1)])"

definition ScheduleReconnect :: "client \<Rightarrow> client \<times> client_action list" where
  "ScheduleReconnect c =
     (if stopping c then (c, [])
      else (if reconnect_delay_sec c < 600
            then c\<lparr>reconnect_delay_sec := reconnect_delay_sec c + 10\<rparr> else c,
            [Reconnect_after (reconnect_delay_sec c)]))"

definition drop_sessions :: "client \<Rightarrow> client \<times> client_action list" where
  "drop_sessions c =
     (c\<lparr>connection_id := connection_id c + 1, mux_session := None, quic_session := None,
        control_stream := None\<rparr>,
      (case mux_session c of None \<Rightarrow> [] | Some m \<Rightarrow> [Stop_mux m]) @
      (case quic_session c of None \<Rightarrow> [] | Some q \<Rightarrow> [Close_quic q]))"

definition HandleDisconnect :: "client \<Rightarrow> client \<times> client_action list" where
  "HandleDisconnect c0 =
     (case drop_sessions c0 of (c, acts) \<Rightarrow>
        if stopping c then (c, acts)
        else if cl_protocol c = ''auto'' \<and> current_protocol c = ''quic''
        then (c\<lparr>current_protocol := ''tcp''\<rparr>, acts @ [Post_connect])
        else if cl_protocol c = ''auto'' \<and> current_protocol c = ''tcp''
        then (c\<lparr>current_protocol := ''websocket''\<rparr>, acts @ [Post_connect])
        else
          (case ScheduleReconnect (if cl_protocol c = ''auto'' then c\<lparr>current_protocol := ''quic''\<rparr> else c) of
             (c', acts') \<Rightarrow> (c', acts @ acts')))"

definition Stop :: "client \<Rightarrow> client \<times> client_action list" where
  "Stop c = HandleDisconnect (c\<lparr>stopping := True\<rparr>)"

text \<open>The task posted by a failover, and the reconnect timer: only the first one asks \<open>stopping_\<close>.\<close>

definition posted_connect :: "client \<Rightarrow> client \<times> client_action list" where
  "posted_connect c = (if stopping c then (c, []) else DoConnect c)"

definition reconnect_timer :: "error_code \<Rightarrow> client \<Rightarrow> client \<times> client_action list" where
  "reconnect_timer ec c = (if ec = Success then DoConnect c else (c, []))"

text \<open>
  \<open>TryNextQuicEndpoint\<close>: \<open>rebind\<close> tells whether the UDP socket can be opened, bound and connected for an
  endpoint; \<open>q\<close> is the QUIC session that \<open>DoQuicConnect\<close> creates.
\<close>

definition DoQuicConnect :: "nat \<Rightarrow> nat \<Rightarrow> nat \<Rightarrow> client \<Rightarrow> client \<times> client_action list" where
  "DoQuicConnect q endpoint conn_id c =
     (c\<lparr>quic_session := Some q\<rparr>, [Quic_timer conn_id 5, Quic_connect conn_id endpoint])"

fun next_endpoint :: "(nat \<Rightarrow> bool) \<Rightarrow> nat list \<Rightarrow> nat \<Rightarrow> (nat option \<times> nat)" where
  "next_endpoint rebind [] i = (None, i)"
| "next_endpoint rebind (e # es) i = (if rebind e then (Some e, i + 1) else next_endpoint rebind es (i + 1))"

definition TryNextQuicEndpoint ::
    "(nat \<Rightarrow> bool) \<Rightarrow> nat \<Rightarrow> nat \<Rightarrow> client \<Rightarrow> bool \<times> client \<times> client_action list" where
  "TryNextQuicEndpoint rebind q conn_id c0 =
     (if conn_id \<noteq> connection_id c0 then (False, c0, [])
      else
        (let acts = (case quic_session c0 of None \<Rightarrow> [] | Some old \<Rightarrow> [Close_quic old]);
             c = c0\<lparr>quic_session := None\<rparr>
         in case next_endpoint rebind (drop (quic_endpoint_index c) (quic_endpoints c)) (quic_endpoint_index c) of
              (None, i) \<Rightarrow> (False, c\<lparr>quic_endpoint_index := i\<rparr>, acts)
            | (Some e, i) \<Rightarrow>
                (case DoQuicConnect q e conn_id (c\<lparr>quic_endpoint_index := i\<rparr>) of
                   (c', acts') \<Rightarrow> (True, c', acts @ acts'))))"

text \<open>What three handlers do with it: try the next endpoint, and disconnect when there is none.\<close>

definition try_or_disconnect :: "(nat \<Rightarrow> bool) \<Rightarrow> nat \<Rightarrow> nat \<Rightarrow> client \<Rightarrow> client \<times> client_action list" where
  "try_or_disconnect rebind q conn_id c =
     (case TryNextQuicEndpoint rebind q conn_id c of
        (found, c', acts) \<Rightarrow>
          if found then (c', acts)
          else (case HandleDisconnect c' of (c'', acts') \<Rightarrow> (c'', acts @ acts')))"

definition push_new :: "nat \<Rightarrow> nat list \<Rightarrow> nat list" where
  "push_new e es = (if e \<in> set es then es else es @ [e])"

definition on_resolved ::
    "(nat \<Rightarrow> bool) \<Rightarrow> nat \<Rightarrow> nat \<Rightarrow> error_code \<Rightarrow> nat list \<Rightarrow> client \<Rightarrow> client \<times> client_action list" where
  "on_resolved rebind q conn_id ec results c =
     (if conn_id \<noteq> connection_id c then (c, [])
      else if ec \<noteq> Success then HandleDisconnect c
      else if current_protocol c = ''quic''
      then try_or_disconnect rebind q conn_id
             (c\<lparr>quic_endpoints := fold push_new results [], quic_endpoint_index := 0\<rparr>)
      else (c, [Tcp_connect conn_id]))"

section \<open>The control channel\<close>

definition client_SendMessage :: "Message \<Rightarrow> client \<Rightarrow> client_action list" where
  "client_SendMessage m c = (if control_stream c = None then [] else [Send (connection_id c) m])"

text \<open>The bytes that a \<open>Send\<close> action writes to the control stream.\<close>

definition client_wire :: "zstd \<Rightarrow> client \<Rightarrow> Message \<Rightarrow> bytes" where
  "client_wire z c m = SendMessage z (cl_compression c) (cl_compression_level c) m"

definition on_sent :: "nat \<Rightarrow> error_code \<Rightarrow> client \<Rightarrow> client \<times> client_action list" where
  "on_sent conn_id ec c =
     (if ec = Success \<or> conn_id \<noteq> connection_id c then (c, []) else HandleDisconnect c)"

definition DoLogin :: "client \<Rightarrow> client_action list" where
  "DoLogin c = client_SendMessage \<lparr>msg_type = Login,
     msg_body = LoginMessage_Serialize \<lparr>lm_token = cl_token c, lm_name = cl_name c\<rparr>\<rparr> c"

text \<open>\<open>mux\<close> and \<open>stream\<close> are the mux session and the control stream that the handler creates.\<close>

definition OnConnect :: "nat \<Rightarrow> nat \<Rightarrow> error_code \<Rightarrow> client \<Rightarrow> client \<times> client_action list" where
  "OnConnect mux stream ec c =
     (if ec \<noteq> Success then HandleDisconnect c
      else
        (let c' = c\<lparr>reconnect_delay_sec := 0, mux_session := Some mux, control_stream := Some stream\<rparr>
         in (c', DoLogin c' @ [Read_header (connection_id c')])))"

definition on_tcp_connected :: "nat \<Rightarrow> error_code \<Rightarrow> client \<Rightarrow> client \<times> client_action list" where
  "on_tcp_connected conn_id ec c =
     (if conn_id \<noteq> connection_id c then (c, [])
      else if ec \<noteq> Success then HandleDisconnect c else (c, []))"

definition on_handshake :: "nat \<Rightarrow> nat \<Rightarrow> nat \<Rightarrow> error_code \<Rightarrow> client \<Rightarrow> client \<times> client_action list" where
  "on_handshake mux stream conn_id ec c =
     (if conn_id \<noteq> connection_id c then (c, []) else OnConnect mux stream ec c)"

definition quic_handshake_timer ::
    "(nat \<Rightarrow> bool) \<Rightarrow> nat \<Rightarrow> nat \<Rightarrow> error_code \<Rightarrow> client \<Rightarrow> client \<times> client_action list" where
  "quic_handshake_timer rebind q conn_id ec c =
     (if conn_id \<noteq> connection_id c then (c, [])
      else if ec \<noteq> Success \<or> current_protocol c \<noteq> ''quic'' then (c, [])
      else if cl_protocol c = ''auto''
      then try_or_disconnect rebind q conn_id c
      else HandleDisconnect c)"

definition quic_connected :: "nat \<Rightarrow> nat \<Rightarrow> nat \<Rightarrow> bool \<Rightarrow> client \<Rightarrow> client \<times> client_action list" where
  "quic_connected mux stream conn_id opened c =
     (if conn_id \<noteq> connection_id c then (c, [])
      else if opened then OnConnect mux stream Success c else HandleDisconnect c)"

definition quic_closed :: "(nat \<Rightarrow> bool) \<Rightarrow> nat \<Rightarrow> nat \<Rightarrow> client \<Rightarrow> client \<times> client_action list" where
  "quic_closed rebind q conn_id c =
     (if conn_id \<noteq> connection_id c then (c, [])
      else try_or_disconnect rebind q conn_id c)"

datatype udp_next = Read_again | Read_no_more

definition client_udp_read :: "bool \<Rightarrow> error_code \<Rightarrow> client \<Rightarrow> (client \<times> client_action list) \<times> udp_next" where
  "client_udp_read socket_open ec c =
     (if ec = Success then ((c, []), Read_again)
      else if ec = Operation_aborted then ((c, []), Read_no_more)
      else if ec = Connection_refused \<or> ec = Connection_reset then (HandleDisconnect c, Read_no_more)
      else ((c, []), if socket_open then Read_again else Read_no_more))"

section \<open>Proxies\<close>

definition register_message :: "ProxyConfig \<Rightarrow> Message" where
  "register_message pc = \<lparr>msg_type = RegisterProxy, msg_body = RegisterProxyMessage_Serialize
     \<lparr>rp_name = pc_name pc, rp_type = pc_type pc, rp_remote_port = pc_remote_port pc,
      rp_custom_domains = pc_custom_domains pc, rp_bandwidth_limit = pc_bandwidth_limit pc\<rparr>\<rparr>"

definition unregister_message :: "string \<Rightarrow> Message" where
  "unregister_message name =
     \<lparr>msg_type = UnregisterProxy, msg_body = UnregisterProxyMessage_Serialize \<lparr>up_name = name\<rparr>\<rparr>"

definition client_RegisterProxy :: "nat \<Rightarrow> ProxyConfig \<Rightarrow> client \<Rightarrow> client \<times> client_action list" where
  "client_RegisterProxy now pc c =
     (if 0 < sint (pc_bandwidth_limit pc)
      then c\<lparr>cl_rate_limiters := AList.update (pc_name pc)
               (case map_of (cl_rate_limiters c) (pc_name pc) of
                  None \<Rightarrow> new_limiter (sint (pc_bandwidth_limit pc)) now
                | Some l \<Rightarrow> set_rate (sint (pc_bandwidth_limit pc)) l) (cl_rate_limiters c)\<rparr>
      else c,
      client_SendMessage (register_message pc) c)"

definition client_UnregisterProxy :: "string \<Rightarrow> client \<Rightarrow> client_action list" where
  "client_UnregisterProxy name c = client_SendMessage (unregister_message name) c"

fun register_all :: "nat \<Rightarrow> ProxyConfig list \<Rightarrow> client \<Rightarrow> client \<times> client_action list" where
  "register_all now [] c = (c, [])"
| "register_all now (pc # pcs) c =
     (case client_RegisterProxy now pc c of (c1, acts1) \<Rightarrow>
        case register_all now pcs c1 of (c2, acts2) \<Rightarrow> (c2, acts1 @ acts2))"

text \<open>
  \<open>PollConfDirectory\<close>. \<open>files\<close> are the proxies read from the directory, in the order of its
  entries; the two maps are walked in list order, where the code walks hash tables.
\<close>

definition new_proxies :: "ProxyConfig list \<Rightarrow> (string \<times> ProxyConfig) list" where
  "new_proxies files = fold (\<lambda>pc. AList.update (pc_name pc) pc) files []"

definition proxy_changed :: "ProxyConfig \<Rightarrow> ProxyConfig \<Rightarrow> bool" where
  "proxy_changed old new \<longleftrightarrow>
     pc_type old \<noteq> pc_type new \<or> pc_local_ip old \<noteq> pc_local_ip new \<or>
     pc_local_port old \<noteq> pc_local_port new \<or> pc_remote_port old \<noteq> pc_remote_port new \<or>
     pc_custom_domains old \<noteq> pc_custom_domains new"

definition update_proxy ::
    "nat \<Rightarrow> (string \<times> ProxyConfig) list \<Rightarrow> string \<times> ProxyConfig \<Rightarrow> client \<Rightarrow> client \<times> client_action list" where
  "update_proxy now dyn entry c =
     (case entry of (name, pc) \<Rightarrow>
        case map_of dyn name of
          None \<Rightarrow> client_RegisterProxy now pc c
        | Some old \<Rightarrow>
            if proxy_changed old pc
            then (case client_RegisterProxy now pc c of
                    (c1, acts1) \<Rightarrow> (c1, client_UnregisterProxy name c @ acts1))
            else (c, []))"

fun update_all ::
    "nat \<Rightarrow> (string \<times> ProxyConfig) list \<Rightarrow> (string \<times> ProxyConfig) list \<Rightarrow> client \<Rightarrow> client \<times> client_action list" where
  "update_all now dyn [] c = (c, [])"
| "update_all now dyn (entry # news) c =
     (case update_proxy now dyn entry c of (c1, acts1) \<Rightarrow>
        case update_all now dyn news c1 of (c2, acts2) \<Rightarrow> (c2, acts1 @ acts2))"

definition PollConfDirectory :: "nat \<Rightarrow> ProxyConfig list \<Rightarrow> client \<Rightarrow> client \<times> client_action list" where
  "PollConfDirectory now files c =
     (let news = new_proxies files;
          gone = concat (map (\<lambda>(name, pc). if map_of news name = None then client_UnregisterProxy name c else [])
                             (dynamic_proxies c))
      in case update_all now (dynamic_proxies c) news c of
           (c', acts) \<Rightarrow> (c'\<lparr>dynamic_proxies := news\<rparr>, gone @ acts @ [Poll_after 5]))"

definition RegisterProxies :: "nat \<Rightarrow> ProxyConfig list \<Rightarrow> client \<Rightarrow> client \<times> client_action list" where
  "RegisterProxies now files c =
     (case register_all now (cl_proxies c) c of (c1, acts1) \<Rightarrow>
        if conf_d_path c1 = [] then (c1, acts1)
        else (case PollConfDirectory now files c1 of (c2, acts2) \<Rightarrow> (c2, acts1 @ acts2)))"

section \<open>Serving user connections\<close>

definition HandleNewUdpUserConn :: "ProxyConfig \<Rightarrow> string \<Rightarrow> client \<Rightarrow> client_action list" where
  "HandleNewUdpUserConn pc ticket c =
     (if mux_session c = None then []
      else [Open_udp_work pc ticket, Write_ticket (ticket_buf (cl_compression c) ticket)])"

definition HandleNewUserConn :: "string \<Rightarrow> string \<Rightarrow> client \<Rightarrow> client_action list" where
  "HandleNewUserConn proxy_name ticket c =
     (case (case find (\<lambda>pc. pc_name pc = proxy_name) (cl_proxies c) of
              Some pc \<Rightarrow> Some pc
            | None \<Rightarrow> map_of (dynamic_proxies c) proxy_name) of
        None \<Rightarrow> []
      | Some pc \<Rightarrow>
          if pc_type pc = ''udp'' then HandleNewUdpUserConn pc ticket c else [Connect_local pc ticket])"

definition on_local_connected :: "string \<Rightarrow> error_code \<Rightarrow> client \<Rightarrow> client_action list" where
  "on_local_connected ticket ec c =
     (if ec \<noteq> Success \<or> mux_session c = None then []
      else [Write_ticket (ticket_buf (cl_compression c) ticket)])"

definition on_ticket_written :: "ProxyConfig \<Rightarrow> error_code \<Rightarrow> client \<Rightarrow> client_action list" where
  "on_ticket_written pc ec c =
     (if ec \<noteq> Success then []
      else [Start_bridge (Bridge (cl_compression c) (cl_compression_level c)
              (map_of (cl_rate_limiters c) (pc_name pc) \<noteq> None))])"

definition on_udp_ticket_written :: "ProxyConfig \<Rightarrow> error_code \<Rightarrow> client_action list" where
  "on_udp_ticket_written pc ec = (if ec \<noteq> Success then [] else [Resolve_local_udp pc])"

definition on_udp_resolved :: "ProxyConfig \<Rightarrow> error_code \<Rightarrow> nat list \<Rightarrow> client \<Rightarrow> client_action list" where
  "on_udp_resolved pc ec results c =
     (if ec = Success \<and> results \<noteq> []
      then [Start_udp_bridge (cl_compression c) (cl_compression_level c)
              (map_of (cl_rate_limiters c) (pc_name pc) \<noteq> None)]
      else [])"

section \<open>Messages from the server\<close>

definition client_HandleMessage ::
    "nat \<Rightarrow> ProxyConfig list \<Rightarrow> Message \<Rightarrow> client \<Rightarrow> exn + (client \<times> client_action list)" where
  "client_HandleMessage now files msg c =
     (if msg_type msg = LoginResp
      then (case LoginRespMessage_Deserialize (msg_body msg) of
              Inl e \<Rightarrow> Inl e
            | Inr resp \<Rightarrow>
                if lr_status resp = ''ok''
                then Inr (RegisterProxies now files (if lr_name resp = [] then c else c\<lparr>cl_name := lr_name resp\<rparr>))
                else Inr (c, []))
      else if msg_type msg = RegisterProxyResp
      then (case RegisterProxyRespMessage_Deserialize (msg_body msg) of
              Inl e \<Rightarrow> Inl e | Inr resp \<Rightarrow> Inr (c, []))
      else if msg_type msg = NewUserConn
      then (case NewUserConnMessage_Deserialize (msg_body msg) of
              Inl e \<Rightarrow> Inl e | Inr m \<Rightarrow> Inr (c, HandleNewUserConn (nu_proxy_name m) (nu_ticket m) c))
      else Inr (c, []))"

definition on_control_header :: "nat \<Rightarrow> error_code \<Rightarrow> bytes \<Rightarrow> client \<Rightarrow> client \<times> client_action list" where
  "on_control_header conn_id ec header c =
     (if conn_id \<noteq> connection_id c then (c, [])
      else if ec \<noteq> Success then HandleDisconnect c
      else (case DoReadHeader header of
              None \<Rightarrow> HandleDisconnect c
            | Some (len, compressed) \<Rightarrow> (c, [Read_body len conn_id])))"

text \<open>An exception while a message is decoded or handled is logged, and the next message is read.\<close>

definition on_control_body ::
    "zstd \<Rightarrow> nat \<Rightarrow> ProxyConfig list \<Rightarrow> bool \<Rightarrow> nat \<Rightarrow> error_code \<Rightarrow> bytes \<Rightarrow> client \<Rightarrow> client \<times> client_action list" where
  "on_control_body z now files is_compressed conn_id ec body c =
     (if conn_id \<noteq> connection_id c then (c, [])
      else if ec \<noteq> Success then HandleDisconnect c
      else (case DoReadBody z is_compressed body of
              Ctl_bad_size \<Rightarrow> HandleDisconnect c
            | Ctl_exception e \<Rightarrow> (c, [Read_header conn_id])
            | Ctl_message m \<Rightarrow>
                (case client_HandleMessage now files m c of
                   Inl e \<Rightarrow> (c, [Read_header conn_id])
                 | Inr (c', acts) \<Rightarrow> (c', acts @ [Read_header conn_id]))))"

section \<open>Runs\<close>

text \<open>
  The events of a client. The completions that carry a connection identifier are those of an
  action that was started with it.
\<close>

datatype client_event =
    Ev_run
  | Ev_stop
  | Ev_add ProxyConfig
  | Ev_posted
  | Ev_timer error_code
  | Ev_resolved "nat \<Rightarrow> bool" nat nat error_code "nat list"
  | Ev_tcp nat error_code
  | Ev_handshake nat nat nat error_code
  | Ev_quic_timer "nat \<Rightarrow> bool" nat nat error_code
  | Ev_quic_connected nat nat nat bool
  | Ev_quic_closed "nat \<Rightarrow> bool" nat nat
  | Ev_udp bool error_code
  | Ev_sent nat error_code
  | Ev_header nat error_code bytes
  | Ev_body nat "ProxyConfig list" bool nat error_code bytes
  | Ev_poll nat "ProxyConfig list"

fun client_step :: "zstd \<Rightarrow> client_event \<Rightarrow> client \<Rightarrow> client \<times> client_action list" where
  "client_step z Ev_run c = DoConnect c"
| "client_step z Ev_stop c = Stop c"
| "client_step z (Ev_add pc) c = (AddProxy pc c, [])"
| "client_step z Ev_posted c = posted_connect c"
| "client_step z (Ev_timer ec) c = reconnect_timer ec c"
| "client_step z (Ev_resolved rebind q i ec results) c = on_resolved rebind q i ec results c"
| "client_step z (Ev_tcp i ec) c = on_tcp_connected i ec c"
| "client_step z (Ev_handshake mux stream i ec) c = on_handshake mux stream i ec c"
| "client_step z (Ev_quic_timer rebind q i ec) c = quic_handshake_timer rebind q i ec c"
| "client_step z (Ev_quic_connected mux stream i opened) c = quic_connected mux stream i opened c"
| "client_step z (Ev_quic_closed rebind q i) c = quic_closed rebind q i c"
| "client_step z (Ev_udp is_open ec) c = fst (client_udp_read is_open ec c)"
| "client_step z (Ev_sent i ec) c = on_sent i ec c"
| "client_step z (Ev_header i ec header) c = on_control_header i ec header c"
| "client_step z (Ev_body now files compressed i ec body) c = on_control_body z now files compressed i ec body c"
| "client_step z (Ev_poll now files) c = PollConfDirectory now files c"

fun event_id :: "client_event \<Rightarrow> nat option" where
  "event_id (Ev_resolved rebind q i ec results) = Some i"
| "event_id (Ev_tcp i ec) = Some i"
| "event_id (Ev_handshake mux stream i ec) = Some i"
| "event_id (Ev_quic_timer rebind q i ec) = Some i"
| "event_id (Ev_quic_connected mux stream i opened) = Some i"
| "event_id (Ev_quic_closed rebind q i) = Some i"
| "event_id (Ev_sent i ec) = Some i"
| "event_id (Ev_header i ec header) = Some i"
| "event_id (Ev_body now files compressed i ec body) = Some i"
| "event_id _ = None"

fun action_id :: "client_action \<Rightarrow> nat option" where
  "action_id (Resolve i) = Some i"
| "action_id (Tcp_connect i) = Some i"
| "action_id (Quic_connect i e) = Some i"
| "action_id (Quic_timer i t) = Some i"
| "action_id (Send i m) = Some i"
| "action_id (Read_header i) = Some i"
| "action_id (Read_body len i) = Some i"
| "action_id _ = None"

text \<open>A message header or body arrives only for a read that was started.\<close>

fun enabled :: "client_event \<Rightarrow> client_action set \<Rightarrow> bool" where
  "enabled (Ev_header i ec header) issued = (Read_header i \<in> issued)"
| "enabled (Ev_body now files compressed i ec body) issued = (\<exists>len. Read_body len i \<in> issued)"
| "enabled ev issued = (\<forall>i. event_id ev = Some i \<longrightarrow> (\<exists>a \<in> issued. action_id a = Some i))"

inductive client_reach :: "zstd \<Rightarrow> client \<Rightarrow> client_action set \<Rightarrow> bool" for z where
  client_new: "client_reach z (Client token name compression level conf_d protocol) {}"
| client_next: "\<lbrakk>client_reach z c issued; enabled ev issued; client_step z ev c = (c', acts)\<rbrakk> \<Longrightarrow>
    client_reach z c' (issued \<union> set acts)"

definition is_read :: "client_action \<Rightarrow> bool" where
  "is_read a \<longleftrightarrow> (\<exists>i. a = Read_header i) \<or> (\<exists>len i. a = Read_body len i)"

text \<open>
  What a handler may do: the identifier never goes back, new actions carry the current one, a read is
  started only on a stream that exists, and the control stream goes away only together with
  the identifier.
\<close>

definition handler_ok :: "client \<Rightarrow> client \<times> client_action list \<Rightarrow> bool" where
  "handler_ok c r \<longleftrightarrow>
     connection_id c \<le> connection_id (fst r) \<and>
     (connection_id (fst r) = connection_id c \<longrightarrow> control_stream c \<noteq> None \<longrightarrow> control_stream (fst r) \<noteq> None) \<and>
     (\<forall>a \<in> set (snd r). \<forall>i. action_id a = Some i \<longrightarrow> i = connection_id (fst r)) \<and>
     (\<forall>a \<in> set (snd r). is_read a \<longrightarrow> control_stream (fst r) \<noteq> None)"

definition client_ok :: "client \<Rightarrow> bool" where
  "client_ok c \<longleftrightarrow> reconnect_delay_sec c \<le> 600 \<and> reconnect_delay_sec c mod 10 = 0 \<and>
     (if cl_protocol c = ''auto'' then current_protocol c \<in> {''quic'', ''tcp'', ''websocket''}
      else current_protocol c = cl_protocol c) \<and>
     (control_stream c = None \<longleftrightarrow> mux_session c = None)"

definition step_ok :: "client \<Rightarrow> client \<times> client_action list \<Rightarrow> bool" where
  "step_ok c r \<longleftrightarrow> handler_ok c r \<and> (client_ok c \<longrightarrow> client_ok (fst r))"

lemma step_ok_refl [simp]: "step_ok c (c, [])"
  by (simp add: step_ok_def handler_ok_def)

lemma step_ok_from:
  assumes "step_ok d r" "connection_id d = connection_id c" "control_stream d = control_stream c"
    and "client_ok d = client_ok c"
  shows "step_ok c r"
  using assms by (simp add: step_ok_def handler_ok_def)

lemma client_ok_upd [simp]:
  "client_ok (c\<lparr>stopping := b\<rparr>) = client_ok c"
  "client_ok (c\<lparr>quic_endpoints := es, quic_endpoint_index := i\<rparr>) = client_ok c"
  "client_ok (c\<lparr>cl_name := n\<rparr>) = client_ok c"
  "client_ok (c\<lparr>dynamic_proxies := d\<rparr>) = client_ok c"
  "client_ok (c\<lparr>cl_rate_limiters := l\<rparr>) = client_ok c"
  "client_ok (c\<lparr>cl_proxies := p\<rparr>) = client_ok c"
  by (simp_all add: client_ok_def)

lemma HandleDisconnect_id: "connection_id (fst (HandleDisconnect c)) = connection_id c + 1"
  by (simp add: HandleDisconnect_def drop_sessions_def ScheduleReconnect_def split: option.splits)

lemma HandleDisconnect_actions:
  "a \<in> set (snd (HandleDisconnect c)) \<Longrightarrow> action_id a = None \<and> \<not> is_read a"
  by (auto simp: HandleDisconnect_def drop_sessions_def ScheduleReconnect_def is_read_def
      split: if_splits option.splits)

lemma add10_mod: "n mod 10 = 0 \<Longrightarrow> n < 600 \<Longrightarrow> n + 10 \<le> (600 :: nat) \<and> (n + 10) mod 10 = 0"
  by presburger

lemma HandleDisconnect_client_ok: "client_ok c \<Longrightarrow> client_ok (fst (HandleDisconnect c))"
  using add10_mod [of "reconnect_delay_sec c"]
  by (auto simp: client_ok_def HandleDisconnect_def drop_sessions_def ScheduleReconnect_def
      split: if_splits option.splits)

lemma HandleDisconnect_ok: "step_ok c (HandleDisconnect c)"
  using HandleDisconnect_id [of c] HandleDisconnect_client_ok [of c] HandleDisconnect_actions [of _ c]
  by (fastforce simp: step_ok_def handler_ok_def)

lemma DoConnect_ok: "step_ok c (DoConnect c)"
  by (simp add: step_ok_def handler_ok_def DoConnect_def is_read_def client_ok_def)

lemma Stop_ok: "step_ok c (Stop c)"
  unfolding Stop_def by (rule step_ok_from [OF HandleDisconnect_ok]) simp_all

lemma TryNext_ok:
  "TryNextQuicEndpoint rebind q i c = (found, c', acts) \<Longrightarrow> step_ok c (c', acts) \<and> connection_id c' = connection_id c \<and>
     (\<not> found \<longrightarrow> (\<forall>a \<in> set acts. action_id a = None \<and> \<not> is_read a))"
  by (auto simp: TryNextQuicEndpoint_def DoQuicConnect_def Let_def step_ok_def handler_ok_def client_ok_def is_read_def
      split: if_splits option.splits prod.splits)

lemma step_ok_then_disconnect:
  assumes "step_ok c (c', acts)" "\<forall>a \<in> set acts. action_id a = None \<and> \<not> is_read a"
    and "HandleDisconnect c' = (c'', acts')"
  shows "step_ok c (c'', acts @ acts')"
  using assms(1,2) HandleDisconnect_ok [of c', unfolded assms(3)] HandleDisconnect_id [of c', unfolded assms(3)]
  by (auto simp: step_ok_def handler_ok_def)

lemma try_or_disconnect_ok: "step_ok c (try_or_disconnect rebind q i c)"
proof -
  obtain found c' acts where r: "TryNextQuicEndpoint rebind q i c = (found, c', acts)"
    by (cases "TryNextQuicEndpoint rebind q i c")
  show ?thesis
    using TryNext_ok [OF r] step_ok_then_disconnect [of c c' acts]
    by (auto simp: try_or_disconnect_def r split: prod.splits)
qed

lemma on_resolved_ok: "step_ok c (on_resolved rebind q i ec results c)"
proof -
  let ?c = "c\<lparr>quic_endpoints := fold push_new results [], quic_endpoint_index := 0\<rparr>"
  have "step_ok c (try_or_disconnect rebind q i ?c)"
    by (rule step_ok_from [OF try_or_disconnect_ok]) simp_all
  moreover have "step_ok c (c, [Tcp_connect (connection_id c)])"
    by (simp add: step_ok_def handler_ok_def is_read_def)
  ultimately show ?thesis
    using HandleDisconnect_ok [of c] by (auto simp: on_resolved_def)
qed

lemma OnConnect_ok: "step_ok c (OnConnect mux stream ec c)"
  using HandleDisconnect_ok [of c]
  by (auto simp: OnConnect_def Let_def DoLogin_def client_SendMessage_def)
    (auto simp: step_ok_def handler_ok_def client_ok_def is_read_def)

definition same_connection :: "client \<Rightarrow> client \<Rightarrow> bool" where
  "same_connection c d \<longleftrightarrow> connection_id d = connection_id c \<and> control_stream d = control_stream c \<and>
     client_ok d = client_ok c"

definition quiet_acts :: "client \<Rightarrow> client_action list \<Rightarrow> bool" where
  "quiet_acts c acts \<longleftrightarrow> (\<forall>a \<in> set acts. \<not> is_read a \<and> (\<forall>i. action_id a = Some i \<longrightarrow> i = connection_id c))"

lemma quiet_acts_simps [simp]:
  "quiet_acts c []"
  "quiet_acts c (xs @ ys) \<longleftrightarrow> quiet_acts c xs \<and> quiet_acts c ys"
  "quiet_acts c [Poll_after n]"
  by (auto simp: quiet_acts_def is_read_def)

lemma quiet_acts_concat: "(\<And>x. quiet_acts c (f x)) \<Longrightarrow> quiet_acts c (concat (map f xs))"
  by (induction xs) auto

lemma quiet_acts_same: "same_connection c d \<Longrightarrow> quiet_acts d acts = quiet_acts c acts"
  by (simp add: quiet_acts_def same_connection_def)

lemma step_ok_quiet:
  assumes "same_connection c c'" "quiet_acts c acts"
  shows "step_ok c (c', acts)"
  using assms by (simp add: step_ok_def handler_ok_def same_connection_def quiet_acts_def)

lemma client_SendMessage_quiet [simp]: "quiet_acts c (client_SendMessage m c)"
  by (simp add: quiet_acts_def client_SendMessage_def is_read_def)

lemma register_quiet:
  "client_RegisterProxy now pc c = (c', acts) \<Longrightarrow> same_connection c c' \<and> quiet_acts c acts"
  by (auto simp: client_RegisterProxy_def same_connection_def split: if_splits)

lemma same_connection_trans: "same_connection c d \<Longrightarrow> same_connection d e \<Longrightarrow> same_connection c e"
  by (simp add: same_connection_def)

lemma register_all_quiet:
  "register_all now pcs c = (c', acts) \<Longrightarrow> same_connection c c' \<and>
     quiet_acts c acts"
proof (induction pcs arbitrary: c c' acts)
  case Nil
  then show ?case by (simp add: same_connection_def)
next
  case (Cons pc pcs)
  then obtain c1 acts1 acts2 where
    "client_RegisterProxy now pc c = (c1, acts1)" "register_all now pcs c1 = (c', acts2)" "acts = acts1 @ acts2"
    by (auto split: prod.splits)
  with Cons.IH [of c1 c' acts2] register_quiet [of now pc c c1 acts1] show ?case
    by (auto simp: same_connection_def quiet_acts_same [of c c1])
qed

lemma update_proxy_quiet:
  assumes "update_proxy now dyn entry c = (c', acts)"
  shows "same_connection c c' \<and> quiet_acts c acts"
proof -
  obtain name pc where e: "entry = (name, pc)" by (cases entry)
  have same: "same_connection c c" by (simp add: same_connection_def)
  obtain c1 acts1 where r: "client_RegisterProxy now pc c = (c1, acts1)"
    by (cases "client_RegisterProxy now pc c")
  show ?thesis
    using assms register_quiet [OF r] same
    by (auto simp: update_proxy_def e r client_UnregisterProxy_def split: option.splits if_splits)
qed

lemma update_all_quiet:
  "update_all now dyn news c = (c', acts) \<Longrightarrow> same_connection c c' \<and>
     quiet_acts c acts"
proof (induction news arbitrary: c c' acts)
  case Nil
  then show ?case by (simp add: same_connection_def)
next
  case (Cons entry news)
  then obtain c1 acts1 acts2 where
    "update_proxy now dyn entry c = (c1, acts1)" "update_all now dyn news c1 = (c', acts2)" "acts = acts1 @ acts2"
    by (auto split: prod.splits)
  with Cons.IH [of c1 c' acts2] update_proxy_quiet [of now dyn entry c c1 acts1] show ?case
    by (auto simp: same_connection_def quiet_acts_same [of c c1])
qed

lemma PollConfDirectory_quiet:
  assumes "PollConfDirectory now files c = (c', acts)"
  shows "same_connection c c' \<and> quiet_acts c acts"
proof -
  obtain c1 acts1 where u: "update_all now (dynamic_proxies c) (new_proxies files) c = (c1, acts1)"
    by (cases "update_all now (dynamic_proxies c) (new_proxies files) c")
  from assms u have c': "c' = c1\<lparr>dynamic_proxies := new_proxies files\<rparr>"
    and acts: "acts = concat (map (\<lambda>(name, pc). if map_of (new_proxies files) name = None
        then client_UnregisterProxy name c else []) (dynamic_proxies c)) @ acts1 @ [Poll_after 5]"
    by (simp_all add: PollConfDirectory_def Let_def)
  have "quiet_acts c (case e of (name, pc) \<Rightarrow> if map_of (new_proxies files) name = None
        then client_UnregisterProxy name c else [])" for e
    by (simp add: client_UnregisterProxy_def split: prod.splits)
  then show ?thesis
    using update_all_quiet [OF u] unfolding c' acts
    by (auto simp: same_connection_def intro!: quiet_acts_concat)
qed

lemma HandleNewUserConn_quiet [simp]: "quiet_acts c (HandleNewUserConn n t c)"
  by (auto simp: quiet_acts_def HandleNewUserConn_def HandleNewUdpUserConn_def is_read_def split: option.splits)

lemma RegisterProxies_quiet:
  assumes "RegisterProxies now files c = (c', acts)"
  shows "same_connection c c' \<and> quiet_acts c acts"
proof -
  obtain c1 acts1 where r: "register_all now (cl_proxies c) c = (c1, acts1)"
    by (cases "register_all now (cl_proxies c) c")
  obtain c2 acts2 where p: "PollConfDirectory now files c1 = (c2, acts2)"
    by (cases "PollConfDirectory now files c1")
  show ?thesis
    using assms register_all_quiet [OF r] PollConfDirectory_quiet [OF p]
    by (auto simp: RegisterProxies_def r p quiet_acts_same [of c c1] split: if_splits intro: same_connection_trans)
qed

lemma HandleMessage_quiet:
  assumes "client_HandleMessage now files m c = Inr (c', acts)"
  shows "same_connection c c' \<and> quiet_acts c acts"
proof -
  have same: "same_connection c c" "same_connection c (c\<lparr>cl_name := n\<rparr>)" for n
    by (simp_all add: same_connection_def)
  have "same_connection c c' \<and> quiet_acts c acts"
    if "RegisterProxies now files d = (c', acts)" "same_connection c d" for d
    using RegisterProxies_quiet [OF that(1)] that(2) quiet_acts_same [of c d] by (auto intro: same_connection_trans)
  with assms same show ?thesis
    by (fastforce simp: client_HandleMessage_def split: if_splits sum.splits)
qed

lemma on_control_body_ok:
  assumes "i = connection_id c \<longrightarrow> control_stream c \<noteq> None"
  shows "step_ok c (on_control_body z now files compressed i ec body c)"
proof -
  have again: "step_ok c (c', acts @ [Read_header i])"
    if "i = connection_id c" "same_connection c c'"
      "quiet_acts c acts" for c' acts
    using that assms by (auto simp: step_ok_def handler_ok_def same_connection_def quiet_acts_def)
  have same: "same_connection c c" by (simp add: same_connection_def)
  show ?thesis
    using HandleDisconnect_ok [of c] again [OF _ same, of "[]"] again HandleMessage_quiet [of now files _ c]
    by (auto simp: on_control_body_def split: ctl_event.splits sum.splits)
qed

lemma on_control_header_ok:
  assumes "i = connection_id c \<longrightarrow> control_stream c \<noteq> None"
  shows "step_ok c (on_control_header i ec header c)"
proof -
  have "step_ok c (c, [Read_body len (connection_id c)])" if "i = connection_id c" for len
    using that assms by (auto simp: step_ok_def handler_ok_def)
  then show ?thesis using HandleDisconnect_ok [of c]
    by (auto simp: on_control_header_def split: option.splits)
qed

lemma client_step_ok:
  assumes "\<And>i ec header. ev = Ev_header i ec header \<Longrightarrow> i = connection_id c \<longrightarrow> control_stream c \<noteq> None"
    and "\<And>now files compressed i ec body. ev = Ev_body now files compressed i ec body \<Longrightarrow>
       i = connection_id c \<longrightarrow> control_stream c \<noteq> None"
  shows "step_ok c (client_step z ev c)"
proof (cases ev)
  case (Ev_add pc)
  then show ?thesis by (simp add: AddProxy_def step_ok_quiet same_connection_def)
next
  case (Ev_poll now files)
  obtain c' acts where "PollConfDirectory now files c = (c', acts)" by (cases "PollConfDirectory now files c")
  with PollConfDirectory_quiet [OF this] Ev_poll show ?thesis by (simp add: step_ok_quiet)
qed (use assms HandleDisconnect_ok [of c] DoConnect_ok [of c] in
  \<open>auto simp: Stop_ok posted_connect_def reconnect_timer_def on_resolved_ok on_tcp_connected_def on_handshake_def
     OnConnect_ok quic_handshake_timer_def quic_connected_def quic_closed_def try_or_disconnect_ok
     client_udp_read_def on_sent_def intro!: on_control_header_ok on_control_body_ok\<close>)

definition trace_ok :: "client \<Rightarrow> client_action set \<Rightarrow> bool" where
  "trace_ok c issued \<longleftrightarrow> client_ok c \<and>
     (\<forall>a \<in> issued. \<forall>i. action_id a = Some i \<longrightarrow> i \<le> connection_id c) \<and>
     (\<forall>a \<in> issued. is_read a \<and> action_id a = Some (connection_id c) \<longrightarrow> control_stream c \<noteq> None)"

lemma enabled_step_ok:
  assumes "trace_ok c issued" "enabled ev issued"
  shows "step_ok c (client_step z ev c)"
proof (rule client_step_ok)
  show "i = connection_id c \<longrightarrow> control_stream c \<noteq> None" if "ev = Ev_header i ec header" for i ec header
    using assms that by (force simp: trace_ok_def is_read_def)
  show "i = connection_id c \<longrightarrow> control_stream c \<noteq> None"
    if "ev = Ev_body now files compressed i ec body" for now files compressed i ec body
    using assms that by (force simp: trace_ok_def is_read_def)
qed

lemma trace_ok_step:
  assumes "trace_ok c issued" "enabled ev issued" "client_step z ev c = (c', acts)"
  shows "trace_ok c' (issued \<union> set acts)"
proof -
  have "step_ok c (c', acts)" using enabled_step_ok [OF assms(1,2), of z] assms(3) by simp
  then have h: "client_ok c \<longrightarrow> client_ok c'" "connection_id c \<le> connection_id c'"
      "connection_id c' = connection_id c \<Longrightarrow> control_stream c \<noteq> None \<Longrightarrow> control_stream c' \<noteq> None"
      "\<And>a i. a \<in> set acts \<Longrightarrow> action_id a = Some i \<Longrightarrow> i = connection_id c'"
      "\<And>a. a \<in> set acts \<Longrightarrow> is_read a \<Longrightarrow> control_stream c' \<noteq> None"
    unfolding step_ok_def handler_ok_def fst_conv snd_conv by blast+
  have t: "client_ok c" "\<And>a i. a \<in> issued \<Longrightarrow> action_id a = Some i \<Longrightarrow> i \<le> connection_id c"
      "\<And>a. a \<in> issued \<Longrightarrow> is_read a \<Longrightarrow> action_id a = Some (connection_id c) \<Longrightarrow> control_stream c \<noteq> None"
    using assms(1) unfolding trace_ok_def by blast+
  have "i \<le> connection_id c'" if "a \<in> issued \<union> set acts" "action_id a = Some i" for a i
    using that t(2) [of a i] h(2) h(4) [of a i] by auto
  moreover have "control_stream c' \<noteq> None"
    if a: "a \<in> issued \<union> set acts" "is_read a" "action_id a = Some (connection_id c')" for a
  proof (cases "a \<in> set acts")
    case False
    then have "connection_id c' = connection_id c" using a t(2) h(2) by (simp add: le_antisym)
    then show ?thesis using a False t(3) [of a] h(3) by simp
  qed (use a h(5) in blast)
  ultimately show ?thesis using t(1) h(1) unfolding trace_ok_def by blast
qed

lemma client_reach_ok: "client_reach z c issued \<Longrightarrow> trace_ok c issued"
proof (induction rule: client_reach.induct)
  case (client_new token name compression level conf_d protocol)
  show ?case by (simp add: trace_ok_def client_ok_def Client_def)
qed (rule trace_ok_step)

lemma stale_event: "event_id ev = Some i \<Longrightarrow> i \<noteq> connection_id c \<Longrightarrow> client_step z ev c = (c, [])"
  by (cases ev) (auto simp: on_resolved_def on_tcp_connected_def on_handshake_def quic_handshake_timer_def
      quic_connected_def quic_closed_def on_sent_def on_control_header_def on_control_body_def)


definition demo_client :: client where
  "demo_client = Client ''secret'' ''a'' False 1 [] ''auto''"

lemma demo_reach: "client_reach z (fst (DoConnect demo_client)) {Resolve 1}"
proof -
  have "client_step z Ev_run demo_client = (fst (DoConnect demo_client), [Resolve 1])"
    by (simp add: DoConnect_def demo_client_def Client_def)
  from client_next [OF client_new _ this [unfolded demo_client_def]] show ?thesis
    by (simp add: demo_client_def)
qed


section \<open>Failover and reconnection\<close>

definition retries :: "client_action list \<Rightarrow> client_action list" where
  "retries acts = filter (\<lambda>a. a = Post_connect \<or> (\<exists>d. a = Reconnect_after d)) acts"

lemma retries_simps [simp]:
  "retries (xs @ ys) = retries xs @ retries ys" "retries [] = []"
  "retries [Post_connect] = [Post_connect]" "retries [Reconnect_after d] = [Reconnect_after d]"
  "retries [Stop_mux m] = []" "retries [Close_quic q] = []"
  by (simp_all add: retries_def)

lemma HandleDisconnect_retries:
  "retries (snd (HandleDisconnect c)) =
     (if stopping c then []
      else if cl_protocol c = ''auto'' \<and> current_protocol c \<in> {''quic'', ''tcp''} then [Post_connect]
      else [Reconnect_after (reconnect_delay_sec c)])"
  by (auto simp: HandleDisconnect_def drop_sessions_def ScheduleReconnect_def split: option.splits)



text \<open>
  A stopped client can come back. \<open>Stop\<close> does not cancel the reconnect timer, and the
  timer's handler does not ask \<open>stopping_\<close>: when it fires after \<open>Stop\<close>, the client starts a new connection
  attempt. The handler that a failover posts does ask.
\<close>

theorem stopped_client_reconnects:
  "snd (reconnect_timer Success (fst (Stop c))) = [Resolve (connection_id c + 2)] \<and>
   snd (posted_connect (fst (Stop c))) = []"
proof -
  have "connection_id (fst (Stop c)) = connection_id c + 1" by (simp add: Stop_def HandleDisconnect_id)
  moreover have "stopping (fst (Stop c))" by (simp add: Stop_def HandleDisconnect_def drop_sessions_def)
  ultimately show ?thesis by (simp add: reconnect_timer_def DoConnect_def posted_connect_def)
qed

section \<open>Dynamic proxies\<close>

text \<open>
  The abstract view: the registrations that the server holds for this client, by name, as the
  messages sent on the control stream set and remove them.
\<close>

definition apply_msg ::
    "Message \<Rightarrow> (string \<Rightarrow> RegisterProxyMessage option) \<Rightarrow> string \<Rightarrow> RegisterProxyMessage option" where
  "apply_msg m v =
     (if msg_type m = RegisterProxy
      then (case RegisterProxyMessage_Deserialize (msg_body m) of Inl e \<Rightarrow> v | Inr r \<Rightarrow> v(rp_name r \<mapsto> r))
      else if msg_type m = UnregisterProxy
      then (case UnregisterProxyMessage_Deserialize (msg_body m) of Inl e \<Rightarrow> v | Inr r \<Rightarrow> v(up_name r := None))
      else v)"

fun apply_acts ::
    "client_action list \<Rightarrow> (string \<Rightarrow> RegisterProxyMessage option) \<Rightarrow> string \<Rightarrow> RegisterProxyMessage option" where
  "apply_acts [] v = v"
| "apply_acts (Send i m # acts) v = apply_acts acts (apply_msg m v)"
| "apply_acts (_ # acts) v = apply_acts acts v"

definition message_of :: "ProxyConfig \<Rightarrow> RegisterProxyMessage" where
  "message_of pc = \<lparr>rp_name = pc_name pc, rp_type = pc_type pc, rp_remote_port = pc_remote_port pc,
      rp_custom_domains = pc_custom_domains pc, rp_bandwidth_limit = pc_bandwidth_limit pc\<rparr>"

definition without_limit :: "RegisterProxyMessage \<Rightarrow> RegisterProxyMessage" where
  "without_limit m = m\<lparr>rp_bandwidth_limit := 0\<rparr>"

definition named_ok :: "(string \<times> ProxyConfig) list \<Rightarrow> bool" where
  "named_ok ps \<longleftrightarrow> distinct (map fst ps) \<and>
     list_all (\<lambda>(n, pc). pc_name pc = n \<and> RegisterProxyMessage_ok (message_of pc)) ps"

lemma apply_acts_append [simp]: "apply_acts (xs @ ys) v = apply_acts ys (apply_acts xs v)"
  by (induction xs v rule: apply_acts.induct) auto

lemma apply_register:
  assumes "control_stream c \<noteq> None" "RegisterProxyMessage_ok (message_of pc)"
  shows "apply_acts (client_SendMessage (register_message pc) c) v = v(pc_name pc \<mapsto> message_of pc)"
  using assms by (auto simp: client_SendMessage_def register_message_def apply_msg_def message_of_def
      register_proxy.roundtrip)

lemma apply_unregister:
  assumes "control_stream c \<noteq> None" "short n"
  shows "apply_acts (client_UnregisterProxy n c) v = v(n := None)"
  using assms by (auto simp: client_UnregisterProxy_def client_SendMessage_def unregister_message_def apply_msg_def
      unregister_proxy.roundtrip UnregisterProxyMessage_ok_def)

lemma named_okD: "named_ok ps \<Longrightarrow> (n, pc) \<in> set ps \<Longrightarrow>
    pc_name pc = n \<and> short n \<and> RegisterProxyMessage_ok (message_of pc)"
  by (auto simp: named_ok_def list_all_iff RegisterProxyMessage_ok_def message_of_def)

lemma register_fields:
  assumes "client_RegisterProxy now pc c = (c', acts)"
  shows "control_stream c' = control_stream c" "dynamic_proxies c' = dynamic_proxies c"
    "acts = client_SendMessage (register_message pc) c"
  using assms by (auto simp: client_RegisterProxy_def split: if_splits)

lemma update_proxy_view:
  assumes "update_proxy now dyn (n, pc) c = (c', acts)" "control_stream c \<noteq> None"
    and "pc_name pc = n" "short n" "RegisterProxyMessage_ok (message_of pc)"
  shows "apply_acts acts v = (case map_of dyn n of
        Some old \<Rightarrow> if proxy_changed old pc then v(n \<mapsto> message_of pc) else v
      | None \<Rightarrow> v(n \<mapsto> message_of pc))"
    "control_stream c' = control_stream c"
  using assms register_fields [of now pc c]
  by (auto simp: update_proxy_def apply_register apply_unregister split: option.splits if_splits prod.splits)

lemma update_all_view:
  assumes "update_all now dyn news c = (c', acts)" "control_stream c \<noteq> None" "named_ok news"
  shows "apply_acts acts v n = (case map_of news n of
        None \<Rightarrow> v n
      | Some pc \<Rightarrow> (case map_of dyn n of
          Some old \<Rightarrow> if proxy_changed old pc then Some (message_of pc) else v n
        | None \<Rightarrow> Some (message_of pc)))"
  using assms
proof (induction news arbitrary: c acts v)
  case Nil
  then show ?case by simp
next
  case (Cons entry news)
  obtain k pc where e: "entry = (k, pc)" by (cases entry)
  with Cons.prems(1) obtain c1 acts1 acts2 where
    u: "update_proxy now dyn (k, pc) c = (c1, acts1)" "update_all now dyn news c1 = (c', acts2)" "acts = acts1 @ acts2"
    by (auto split: prod.splits)
  have k: "pc_name pc = k" "short k" "RegisterProxyMessage_ok (message_of pc)"
    using named_okD [OF Cons.prems(3), of k pc] e by auto
  have news: "named_ok news" "map_of news k = None"
    using Cons.prems(3) e by (auto simp: named_ok_def map_of_eq_None_iff)
  note one = update_proxy_view [OF u(1) Cons.prems(2) k]
  have "apply_acts acts v n = apply_acts acts2 (apply_acts acts1 v) n" by (simp add: u(3))
  also have "\<dots> = (case map_of news n of
        None \<Rightarrow> apply_acts acts1 v n
      | Some pc \<Rightarrow> (case map_of dyn n of
          Some old \<Rightarrow> if proxy_changed old pc then Some (message_of pc) else apply_acts acts1 v n
        | None \<Rightarrow> Some (message_of pc)))"
    using Cons.prems(2) one(2) by (intro Cons.IH [OF u(2) _ news(1)]) simp
  finally show ?case
    using news(2) by (auto simp: e one(1) split: option.splits)
qed

lemma gone_view:
  assumes "control_stream c \<noteq> None" "list_all (\<lambda>(n, pc). short n) dyn"
  shows "apply_acts (concat (map (\<lambda>(name, pc). if map_of news name = None then client_UnregisterProxy name c else []) dyn)) v n =
    (if map_of news n = None \<and> n \<in> fst ` set dyn then None else v n)"
  using assms(2)
  by (induction dyn arbitrary: v) (auto simp: apply_unregister [OF assms(1)])

lemma new_proxies_ok:
  assumes "list_all (\<lambda>pc. RegisterProxyMessage_ok (message_of pc)) files"
  shows "named_ok (new_proxies files)"
proof -
  have "named_ok (fold (\<lambda>pc. AList.update (pc_name pc) pc) files ps)" if "named_ok ps" for ps
    using assms that
  proof (induction files arbitrary: ps)
    case (Cons pc files)
    have "e \<in> set ps \<or> e = (pc_name pc, pc)" if "e \<in> set (AList.update (pc_name pc) pc ps)" for e
      using that by (induction ps) (auto split: if_splits)
    then have "named_ok (AList.update (pc_name pc) pc ps)"
      using Cons.prems unfolding named_ok_def list_all_iff by (fastforce simp: distinct_update)
    with Cons show ?case by simp
  qed simp
  then show ?thesis by (simp add: new_proxies_def named_ok_def)
qed


definition demo_proxy :: "string \<Rightarrow> 16 word \<Rightarrow> 64 word \<Rightarrow> ProxyConfig" where
  "demo_proxy name port limit = \<lparr>pc_name = name, pc_type = ''tcp'', pc_local_ip = ''127.0.0.1'', pc_local_port = 80,
     pc_remote_port = port, pc_custom_domains = [], pc_bandwidth_limit = limit\<rparr>"

definition demo_connected :: client where
  "demo_connected = demo_client\<lparr>mux_session := Some 1, control_stream := Some 1,
     dynamic_proxies := [(''p'', demo_proxy ''p'' 1001 0)]\<rparr>"

lemma demo_proxy_ok: "short name \<Longrightarrow> RegisterProxyMessage_ok (message_of (demo_proxy name port limit))"
  by (simp add: RegisterProxyMessage_ok_def message_of_def demo_proxy_def)


lemma update_all_unchanged:
  assumes "\<And>n pc. (n, pc) \<in> set news \<Longrightarrow> \<exists>old. map_of dyn n = Some old \<and> \<not> proxy_changed old pc"
  shows "update_all now dyn news c = (c, [])"
  using assms
proof (induction news)
  case (Cons e news)
  obtain n pc where e: "e = (n, pc)" by (cases e)
  with Cons.prems [of n pc] have "update_proxy now dyn e c = (c, [])" by (auto simp: update_proxy_def)
  with Cons show ?case by simp
qed simp

lemma poll_unchanged:
  assumes "\<And>n. map_of (dynamic_proxies c) n \<noteq> None \<Longrightarrow> map_of (new_proxies files) n \<noteq> None"
    and "\<And>n pc. (n, pc) \<in> set (new_proxies files) \<Longrightarrow>
       \<exists>old. map_of (dynamic_proxies c) n = Some old \<and> \<not> proxy_changed old pc"
  shows "snd (PollConfDirectory now files c) = [Poll_after 5]"
proof -
  have "map_of (new_proxies files) n \<noteq> None" if "(n, pc) \<in> set (dynamic_proxies c)" for n pc
    using assms(1) [of n] that by (simp add: map_of_eq_None_iff image_iff) force
  then have "concat (map (\<lambda>(name, pc). if map_of (new_proxies files) name = None
      then client_UnregisterProxy name c else []) (dynamic_proxies c)) = []" by fastforce
  then show ?thesis
    using update_all_unchanged [of "new_proxies files" "dynamic_proxies c" now c] assms(2)
    by (simp add: PollConfDirectory_def Let_def)
qed

lemma register_all_sends:
  assumes "control_stream c \<noteq> None" "register_all now pcs c = (c', acts)"
  shows "acts = map (\<lambda>pc. Send (connection_id c) (register_message pc)) pcs \<and>
    control_stream c' \<noteq> None \<and> dynamic_proxies c' = dynamic_proxies c \<and> conf_d_path c' = conf_d_path c"
  using assms
proof (induction pcs arbitrary: c c' acts)
  case (Cons pc pcs)
  obtain c1 acts1 where r: "client_RegisterProxy now pc c = (c1, acts1)" by (cases "client_RegisterProxy now pc c")
  then have c1: "control_stream c1 = control_stream c" "connection_id c1 = connection_id c"
      "dynamic_proxies c1 = dynamic_proxies c" "conf_d_path c1 = conf_d_path c"
      "acts1 = [Send (connection_id c) (register_message pc)]"
    using Cons.prems(1) by (auto simp: client_RegisterProxy_def client_SendMessage_def split: if_splits)
  with Cons.IH [of c1] Cons.prems r show ?case by (auto split: prod.splits)
qed simp

text \<open>
  Dynamic proxies are lost on reconnect. \<open>HandleDisconnect\<close> and \<open>OnConnect\<close> keep the record of the dynamic proxies, although
  the server has dropped their registrations with the session. After the next login the
  client registers its static proxies, and the poll, which compares the directory with that
  record, sends nothing for an unchanged directory, also when only bandwidth limits changed.
\<close>

theorem reconnect_forgets_dynamic_proxies:
  assumes "control_stream c \<noteq> None" "conf_d_path c \<noteq> []" "RegisterProxies now files c = (c', acts)"
    and "\<And>n. map_of (dynamic_proxies c) n \<noteq> None \<Longrightarrow> map_of (new_proxies files) n \<noteq> None"
    and "\<And>n pc. (n, pc) \<in> set (new_proxies files) \<Longrightarrow>
       \<exists>old. map_of (dynamic_proxies c) n = Some old \<and> \<not> proxy_changed old pc"
  shows "acts = map (\<lambda>pc. Send (connection_id c) (register_message pc)) (cl_proxies c) @ [Poll_after 5] \<and>
    dynamic_proxies (fst (OnConnect mux stream Success (fst (HandleDisconnect d)))) = dynamic_proxies d"
proof -
  obtain c1 acts1 where r: "register_all now (cl_proxies c) c = (c1, acts1)" by (cases "register_all now (cl_proxies c) c")
  note s = register_all_sends [OF assms(1) r]
  have "snd (PollConfDirectory now files c1) = [Poll_after 5]"
    using assms(4,5) s by (intro poll_unchanged) simp_all
  then have "acts = map (\<lambda>pc. Send (connection_id c) (register_message pc)) (cl_proxies c) @ [Poll_after 5]"
    using assms(2,3) s by (auto simp: RegisterProxies_def r split: prod.splits)
  moreover have "dynamic_proxies (fst (HandleDisconnect d)) = dynamic_proxies d"
    by (simp add: HandleDisconnect_def drop_sessions_def ScheduleReconnect_def)
  ultimately show ?thesis by (simp add: OnConnect_def Let_def)
qed

theorem reconnect_forgets_dynamic_proxies_witness:
  "snd (RegisterProxies 0 [demo_proxy ''p'' 1001 5000] (demo_connected\<lparr>conf_d_path := ''conf.d''\<rparr>)) = [Poll_after 5]"
proof -
  let ?c = "demo_connected\<lparr>conf_d_path := ''conf.d''\<rparr>"
  have d: "control_stream ?c \<noteq> None" "conf_d_path ?c \<noteq> []" "dynamic_proxies ?c = [(''p'', demo_proxy ''p'' 1001 0)]"
    "cl_proxies ?c = []" by (simp_all add: demo_connected_def demo_client_def Client_def)
  have n: "new_proxies [demo_proxy ''p'' 1001 5000] = [(''p'', demo_proxy ''p'' 1001 5000)]"
    by (simp add: new_proxies_def demo_proxy_def)
  have "\<not> proxy_changed (demo_proxy ''p'' 1001 0) (demo_proxy ''p'' 1001 5000)"
    by (simp add: proxy_changed_def demo_proxy_def)
  then have o: "\<exists>old. map_of (dynamic_proxies ?c) n = Some old \<and> \<not> proxy_changed old pc"
    if "(n, pc) \<in> set (new_proxies [demo_proxy ''p'' 1001 5000])" for n pc
    using that unfolding d n by simp
  have k: "map_of (new_proxies [demo_proxy ''p'' 1001 5000]) m \<noteq> None" if "map_of (dynamic_proxies ?c) m \<noteq> None" for m
    using that unfolding d n by (simp split: if_splits)
  show ?thesis
    using reconnect_forgets_dynamic_proxies [OF d(1,2) prod.collapse [symmetric] k o, of 0] d(4) by simp
qed

section \<open>QUIC endpoints\<close>

lemma next_endpoint_spec:
  "next_endpoint rebind es i = (found, j) \<Longrightarrow>
     (case found of
        None \<Rightarrow> list_all (\<lambda>e. \<not> rebind e) es \<and> j = i + length es
      | Some e \<Rightarrow> i < j \<and> j \<le> i + length es \<and> es ! (j - i - 1) = e \<and> rebind e \<and>
          list_all (\<lambda>e. \<not> rebind e) (take (j - i - 1) es))"
proof (induction rebind es i rule: next_endpoint.induct)
  case (2 rebind e es i)
  show ?case
  proof (cases "rebind e")
    case True
    with 2 show ?thesis by auto
  next
    case False
    with 2 have "next_endpoint rebind es (i + 1) = (found, j)" by simp
    note IH = "2.IH" [OF False this]
    show ?thesis
    proof (cases found)
      case None
      with IH False show ?thesis by simp
    next
      case (Some x)
      with IH have "i + 1 < j" by simp
      then have "j - i - 1 = Suc (j - (i + 1) - 1)" by simp
      with IH False Some show ?thesis by simp
    qed
  qed
qed simp

text \<open>
  QUIC endpoints are tried one after the other. \<open>TryNextQuicEndpoint\<close> takes the first endpoint at or after the
  index for which a socket can be set up, skips exactly the unusable ones, and moves the index behind
  it, so no endpoint is tried twice; it fails only when every remaining endpoint is
  unusable. The old QUIC session is closed in any case.
\<close>

theorem quic_endpoints_in_turn:
  assumes "TryNextQuicEndpoint rebind q (connection_id c) c = (found, c', acts)"
    and "quic_endpoint_index c \<le> length (quic_endpoints c)"
  shows "(if found
      then quic_endpoint_index c < quic_endpoint_index c' \<and> quic_endpoint_index c' \<le> length (quic_endpoints c) \<and>
        (let e = quic_endpoints c ! (quic_endpoint_index c' - 1) in
           rebind e \<and> Quic_connect (connection_id c) e \<in> set acts) \<and> quic_session c' = Some q \<and>
        (\<forall>k. quic_endpoint_index c \<le> k \<and> k < quic_endpoint_index c' - 1 \<longrightarrow> \<not> rebind (quic_endpoints c ! k))
      else quic_session c' = None \<and>
        (\<forall>k. quic_endpoint_index c \<le> k \<and> k < length (quic_endpoints c) \<longrightarrow> \<not> rebind (quic_endpoints c ! k))) \<and>
    (quic_session c = Some old \<longrightarrow> Close_quic old \<in> set acts)"
proof -
  let ?i = "quic_endpoint_index c" and ?es = "quic_endpoints c"
  obtain r j where n: "next_endpoint rebind (drop ?i ?es) ?i = (r, j)" by (cases "next_endpoint rebind (drop ?i ?es) ?i")
  note spec = next_endpoint_spec [OF n]
  show ?thesis
  proof (cases r)
    case None
    have "\<not> rebind (?es ! k)" if "?i \<le> k" "k < length ?es" for k
    proof -
      have "drop ?i ?es ! (k - ?i) = ?es ! k" "k - ?i < length (drop ?i ?es)" using that by simp_all
      then have "?es ! k \<in> set (drop ?i ?es)" by (metis nth_mem)
      then show ?thesis using spec None by (simp add: list_all_iff)
    qed
    with assms(1) None n show ?thesis by (auto simp: TryNextQuicEndpoint_def Let_def)
  next
    case (Some e)
    have j: "?i < j" "j \<le> length ?es" "?es ! (j - 1) = e" "rebind e"
    proof -
      have b: "?i < j" "j \<le> length ?es" using spec Some assms(2) by simp_all
      then have "?i + (j - ?i - 1) = j - 1" by simp
      with b show "?i < j" "j \<le> length ?es" "?es ! (j - 1) = e" "rebind e"
        using spec Some assms(2) by simp_all
    qed
    have "\<not> rebind (?es ! k)" if "?i \<le> k" "k < j - 1" for k
    proof -
      have "take (j - ?i - 1) (drop ?i ?es) ! (k - ?i) = ?es ! k" using that j(2) by simp
      moreover have "k - ?i < length (take (j - ?i - 1) (drop ?i ?es))" using that j by simp
      ultimately have "?es ! k \<in> set (take (j - ?i - 1) (drop ?i ?es))" by (metis nth_mem)
      then show ?thesis using spec Some by (auto simp: list_all_iff)
    qed
    with assms(1) Some n j show ?thesis by (auto simp: TryNextQuicEndpoint_def DoQuicConnect_def Let_def)
  qed
qed

theorem quic_endpoints_in_turn_witness:
  "case TryNextQuicEndpoint (\<lambda>e. e = 6) 9 0 (demo_client\<lparr>quic_endpoints := [4, 5, 6, 7]\<rparr>) of
     (found, c', acts) \<Rightarrow> found \<and> quic_endpoint_index c' = 3 \<and> quic_session c' = Some 9"
proof -
  let ?c = "demo_client\<lparr>quic_endpoints := [4, 5, 6, 7]\<rparr>"
  obtain found c' acts where r: "TryNextQuicEndpoint (\<lambda>e. e = 6) 9 (connection_id ?c) ?c = (found, c', acts)"
    using prod_cases3 by blast
  then have f: "found \<and> quic_endpoint_index c' = 3"
    by (auto simp: TryNextQuicEndpoint_def DoQuicConnect_def demo_client_def Client_def)
  have "quic_endpoint_index ?c \<le> length (quic_endpoints ?c)" by (simp add: demo_client_def Client_def)
  from quic_endpoints_in_turn [OF r this] f have "quic_session c' = Some 9" by simp
  moreover have "connection_id ?c = 0" by (simp add: demo_client_def Client_def)
  ultimately show ?thesis using r f by simp
qed

text \<open>
  A closed QUIC session is replaced half-way. When the session of an established connection closes and another endpoint is
  left, the client starts on that endpoint under the same connection identifier and keeps
  the dead mux session; the read error of the dead control stream, which is no stale
  completion, then closes the new QUIC session and gives up QUIC.
\<close>

theorem quic_close_kills_replacement:
  assumes "quic_closed rebind q (connection_id c) c = (c', acts)" "mux_session c = Some m"
    and "quic_endpoint_index c < length (quic_endpoints c)" "rebind (quic_endpoints c ! quic_endpoint_index c)"
  shows "Quic_connect (connection_id c) (quic_endpoints c ! quic_endpoint_index c) \<in> set acts \<and>
    mux_session c' = Some m \<and>
    (ec \<noteq> Success \<longrightarrow> Close_quic q \<in> set (snd (on_control_header (connection_id c) ec header c')))"
proof -
  have "drop (quic_endpoint_index c) (quic_endpoints c) =
      quic_endpoints c ! quic_endpoint_index c # drop (Suc (quic_endpoint_index c)) (quic_endpoints c)"
    using assms(3) by (simp add: Cons_nth_drop_Suc)
  with assms(1,2,4) have "quic_session c' = Some q" "connection_id c' = connection_id c" "mux_session c' = Some m"
    "Quic_connect (connection_id c) (quic_endpoints c ! quic_endpoint_index c) \<in> set acts"
    by (auto simp: quic_closed_def try_or_disconnect_def TryNextQuicEndpoint_def DoQuicConnect_def Let_def)
  then show ?thesis
    by (auto simp: on_control_header_def HandleDisconnect_def drop_sessions_def split: prod.splits)
qed

section \<open>The UDP socket of the client\<close>

text \<open>
  \<open>RebindUdpSocketForEndpoint\<close>: the socket is closed if open, then opened, bound and connected
  for an endpoint; \<open>opens\<close>, \<open>binds\<close> and \<open>connects\<close> are the answers. A failure leaves it closed.
\<close>

datatype udp_socket = Udp_closed | Udp_connected nat

definition RebindUdpSocketForEndpoint ::
    "(nat \<Rightarrow> error_code) \<Rightarrow> (nat \<Rightarrow> error_code) \<Rightarrow> (nat \<Rightarrow> error_code) \<Rightarrow> nat \<Rightarrow> bool \<times> udp_socket" where
  "RebindUdpSocketForEndpoint opens binds connects endpoint =
     (if opens endpoint \<noteq> Success then (False, Udp_closed)
      else if binds endpoint \<noteq> Success then (False, Udp_closed)
      else if connects endpoint \<noteq> Success then (False, Udp_closed)
      else (True, Udp_connected endpoint))"

text \<open>The socket after the loop of \<open>TryNextQuicEndpoint\<close> over the remaining endpoints.\<close>

fun socket_after :: "(nat \<Rightarrow> bool \<times> udp_socket) \<Rightarrow> nat list \<Rightarrow> udp_socket \<Rightarrow> udp_socket" where
  "socket_after rebind [] s = s"
| "socket_after rebind (e # es) s =
     (case rebind e of (ok, s') \<Rightarrow> if ok then s' else socket_after rebind es s')"

lemma socket_matches_endpoint:
  assumes "next_endpoint (\<lambda>e. fst (RebindUdpSocketForEndpoint opens binds connects e)) es i = (r, j)"
  shows "socket_after (RebindUdpSocketForEndpoint opens binds connects) es s =
    (case r of Some e \<Rightarrow> Udp_connected e | None \<Rightarrow> if es = [] then s else Udp_closed)"
  using assms
  by (induction es arbitrary: i s) (auto simp: RebindUdpSocketForEndpoint_def split: if_splits)

end
