(* ===== verification/Quic_Stream.thy ===== *)
theory Quic_Stream
  imports Mux_Stream
begin

text \<open>
  \<open>quic::QuicStream\<close> (\<open>src/common/quic_ngtcp2.h\<close>, \<open>quic_ngtcp2.cpp\<close>): the stream of a QUIC
  connection as an \<open>AsyncStream\<close>. As in the multiplexer, every method runs on the strand of its
  session and is a function from the state to the new state and the list of effects. Completions
  carry the bytes copied into the caller's buffer. The writing side forwards to the session
  (\<open>Quic_Session\<close>). \<open>qs_session\<close> tells whether \<open>session_.lock()\<close> succeeds and \<open>qs_conn\<close>
  whether the session has a connection.
\<close>

section \<open>State and operations\<close>

record quic_stream =
  qs_id :: int
  qs_session :: bool
  qs_conn :: bool
  qs_queue :: "bytes list"
  qs_offset :: nat
  qs_reads :: "pending_read list"
  qs_closed :: bool

datatype quic_action =
    Q_post nat error_code nat bytes
  | Extend_stream_offset int nat
  | Close_stream int

definition QuicStream :: "int \<Rightarrow> quic_stream" where
  "QuicStream sid =
     \<lparr>qs_id = sid, qs_session = True, qs_conn = True, qs_queue = [], qs_offset = 0, qs_reads = [],
      qs_closed = False\<rparr>"

text \<open>One iteration of the outer loop of \<open>QuicStream::do_read\<close>.\<close>

datatype quic_iter = Q_break | Q_iterate quic_stream "quic_action list" | Q_out_of_bounds

definition quic_read_step :: "quic_stream \<Rightarrow> quic_iter" where
  "quic_read_step s =
     (case qs_reads s of
        [] \<Rightarrow> Q_break
      | pr # rest \<Rightarrow>
          if qs_queue s = []
          then (if qs_closed s
                then Q_iterate (s\<lparr>qs_reads := rest\<rparr>) [Q_post (pr_handler pr) Eof 0 []]
                else Q_break)
          else if pr_read_all pr \<and>
                  sub64 (sum_list (map length (qs_queue s))) (qs_offset s) < pr_size pr \<and>
                  \<not> qs_closed s
          then Q_break
          else
            (case read_copy (pr_size pr) (qs_queue s) (qs_offset s) [] of
               None \<Rightarrow> Q_out_of_bounds
             | Some (d, q, off) \<Rightarrow>
                 Q_iterate (s\<lparr>qs_reads := rest, qs_queue := q, qs_offset := off\<rparr>)
                   (Q_post (pr_handler pr) Success (length d) d #
                    (if qs_conn s \<and> 0 < length d
                     then [Extend_stream_offset (qs_id s) (length d)] else []))))"

lemma quic_read_step_reads:
  "quic_read_step s = Q_iterate s' acts \<Longrightarrow> length (qs_reads s') < length (qs_reads s)"
  by (auto simp: quic_read_step_def split: list.splits if_splits option.splits)

function quic_read_loop :: "quic_stream \<Rightarrow> (quic_stream \<times> quic_action list) option" where
  "quic_read_loop s =
     (case quic_read_step s of
        Q_break \<Rightarrow> Some (s, [])
      | Q_out_of_bounds \<Rightarrow> None
      | Q_iterate s' acts \<Rightarrow> map_option (\<lambda>(t, as). (t, acts @ as)) (quic_read_loop s'))"
  by pat_completeness auto
termination
  by (relation "measure (\<lambda>s. length (qs_reads s))") (auto dest: quic_read_step_reads)

declare quic_read_loop.simps [simp del]

definition quic_do_read :: "quic_stream \<Rightarrow> (quic_stream \<times> quic_action list) option" where
  "quic_do_read s = (if \<not> qs_session s then Some (s, []) else quic_read_loop s)"

text \<open>\<open>async_read_some\<close> (\<open>read_all\<close> false) and \<open>async_read\<close> (\<open>read_all\<close> true).\<close>

definition quic_async_read ::
    "bool \<Rightarrow> nat \<Rightarrow> nat \<Rightarrow> quic_stream \<Rightarrow> (quic_stream \<times> quic_action list) option" where
  "quic_async_read read_all sz handler s =
     (if \<not> qs_session s then Some (s, [Q_post handler Connection_reset 0 []])
      else quic_do_read
        (s\<lparr>qs_reads := qs_reads s @
            [\<lparr>pr_size = sz, pr_handler = handler, pr_read_all = read_all\<rparr>]\<rparr>))"

definition quic_handle_data :: "bytes \<Rightarrow> quic_stream \<Rightarrow> (quic_stream \<times> quic_action list) option" where
  "quic_handle_data data s = quic_do_read (s\<lparr>qs_queue := qs_queue s @ [data]\<rparr>)"

definition quic_handle_close :: "quic_stream \<Rightarrow> (quic_stream \<times> quic_action list) option" where
  "quic_handle_close s = quic_do_read (s\<lparr>qs_closed := True\<rparr>)"

definition quic_close :: "quic_stream \<Rightarrow> quic_stream \<times> quic_action list" where
  "quic_close s =
     (if \<not> qs_session s \<or> qs_closed s then (s, [])
      else (s\<lparr>qs_closed := True\<rparr>, [Close_stream (qs_id s)]))"

definition quic_destroy :: "quic_stream \<Rightarrow> quic_stream \<times> quic_action list" where
  "quic_destroy s =
     (s\<lparr>qs_closed := True, qs_reads := []\<rparr>,
      map (\<lambda>pr. Q_post (pr_handler pr) Operation_aborted 0 []) (qs_reads s))"

section \<open>The read loop\<close>

definition quic_unread :: "quic_stream \<Rightarrow> bytes" where
  "quic_unread s = unread_queue (qs_queue s) (qs_offset s)"

definition quic_rq_ok :: "quic_stream \<Rightarrow> bool" where
  "quic_rq_ok s \<longleftrightarrow> queue_fits (qs_queue s) (qs_offset s)"

text \<open>What the completions deliver, and the credit granted to the peer.\<close>

fun quic_delivered :: "quic_action list \<Rightarrow> bytes" where
  "quic_delivered [] = []"
| "quic_delivered (Q_post h ec n d # as) = d @ quic_delivered as"
| "quic_delivered (_ # as) = quic_delivered as"

fun quic_credit :: "quic_action list \<Rightarrow> nat" where
  "quic_credit [] = 0"
| "quic_credit (Extend_stream_offset sid n # as) = n + quic_credit as"
| "quic_credit (_ # as) = quic_credit as"

lemma quic_delivered_append [simp]: "quic_delivered (as @ bs) = quic_delivered as @ quic_delivered bs"
  by (induction as rule: quic_delivered.induct) auto

lemma quic_credit_append [simp]: "quic_credit (as @ bs) = quic_credit as + quic_credit bs"
  by (induction as rule: quic_credit.induct) auto

definition quic_same :: "quic_stream \<Rightarrow> quic_stream \<Rightarrow> bool" where
  "quic_same s t \<longleftrightarrow> qs_id t = qs_id s \<and> qs_session t = qs_session s \<and> qs_conn t = qs_conn s \<and>
     qs_closed t = qs_closed s"

lemma quic_same_refl [simp]: "quic_same s s"
  by (simp add: quic_same_def)

lemma quic_same_trans: "quic_same s t \<Longrightarrow> quic_same t u \<Longrightarrow> quic_same s u"
  by (simp add: quic_same_def)

lemma quic_read_step_ok:
  assumes "quic_rq_ok s"
  shows "quic_read_step s \<noteq> Q_out_of_bounds"
    and "quic_read_step s = Q_iterate t acts \<Longrightarrow> quic_rq_ok t \<and> quic_same s t \<and>
      quic_unread s = quic_delivered acts @ quic_unread t \<and>
      quic_credit acts = (if qs_conn s then length (quic_delivered acts) else 0)"
proof -
  have copy: "\<exists>p q' off'. read_copy n (qs_queue s) (qs_offset s) [] =
      Some (take n (quic_unread s), q', off') \<and> queue_fits q' off' \<and>
      unread_queue q' off' = drop n (quic_unread s)" for n
    using read_copy_fits [of "qs_queue s" "qs_offset s" n "[]"] assms
    by (auto simp: quic_rq_ok_def quic_unread_def)
  show "quic_read_step s \<noteq> Q_out_of_bounds"
  proof (cases "qs_reads s")
    case (Cons pr rest)
    with copy [of "pr_size pr"] show ?thesis by (auto simp: quic_read_step_def)
  qed (simp add: quic_read_step_def)
  show "quic_rq_ok t \<and> quic_same s t \<and> quic_unread s = quic_delivered acts @ quic_unread t \<and>
      quic_credit acts = (if qs_conn s then length (quic_delivered acts) else 0)"
    if step: "quic_read_step s = Q_iterate t acts"
  proof (cases "qs_reads s")
    case Nil
    with step show ?thesis by (simp add: quic_read_step_def)
  next
    case (Cons pr rest)
    with copy [of "pr_size pr"] step assms show ?thesis
      by (auto simp: quic_read_step_def quic_rq_ok_def quic_unread_def quic_same_def
            split: if_splits)
  qed
qed

lemma quic_read_loop_spec:
  assumes "quic_rq_ok s"
  shows "\<exists>t acts. quic_read_loop s = Some (t, acts) \<and> quic_rq_ok t \<and> quic_same s t \<and>
     quic_unread s = quic_delivered acts @ quic_unread t \<and>
     quic_credit acts = (if qs_conn s then length (quic_delivered acts) else 0) \<and>
     quic_read_step t = Q_break"
  using assms
proof (induction s rule: quic_read_loop.induct)
  case (1 s)
  show ?case
  proof (cases "quic_read_step s")
    case Q_break
    with "1.prems" show ?thesis by (subst quic_read_loop.simps) simp
  next
    case Q_out_of_bounds
    with quic_read_step_ok(1) [OF "1.prems"] show ?thesis by simp
  next
    case (Q_iterate s1 a1)
    note step = quic_read_step_ok(2) [OF "1.prems" Q_iterate]
    from "1.IH" [OF Q_iterate] step obtain t a2 where
      "quic_read_loop s1 = Some (t, a2)" "quic_rq_ok t" "quic_same s1 t"
      "quic_unread s1 = quic_delivered a2 @ quic_unread t"
      "quic_credit a2 = (if qs_conn s1 then length (quic_delivered a2) else 0)"
      "quic_read_step t = Q_break"
      by auto
    with step Q_iterate show ?thesis
      by (subst quic_read_loop.simps) (auto simp: quic_same_def)
  qed
qed

lemma quic_do_read_spec:
  assumes "quic_rq_ok s"
  shows "\<exists>t acts. quic_do_read s = Some (t, acts) \<and> quic_rq_ok t \<and> quic_same s t \<and>
     quic_unread s = quic_delivered acts @ quic_unread t \<and>
     quic_credit acts = (if qs_conn s then length (quic_delivered acts) else 0)"
  using quic_read_loop_spec [OF assms] assms by (auto simp: quic_do_read_def)

section \<open>Every history of a stream\<close>

datatype quic_event =
    Qe_read bool nat nat
  | Qe_data bytes
  | Qe_remote_close
  | Qe_close

fun quic_step :: "quic_event \<Rightarrow> quic_stream \<Rightarrow> (quic_stream \<times> quic_action list) option" where
  "quic_step (Qe_read read_all n h) s = quic_async_read read_all n h s"
| "quic_step (Qe_data d) s = quic_handle_data d s"
| "quic_step Qe_remote_close s = quic_handle_close s"
| "quic_step Qe_close s = Some (quic_close s)"

fun quic_run :: "quic_event list \<Rightarrow> quic_stream \<Rightarrow> (quic_stream \<times> quic_action list) option" where
  "quic_run [] s = Some (s, [])"
| "quic_run (ev # evs) s =
     (case quic_step ev s of
        None \<Rightarrow> None
      | Some (s', as) \<Rightarrow> map_option (\<lambda>(t, bs). (t, as @ bs)) (quic_run evs s'))"

fun quic_received :: "quic_event list \<Rightarrow> bytes" where
  "quic_received [] = []"
| "quic_received (Qe_data d # evs) = d @ quic_received evs"
| "quic_received (_ # evs) = quic_received evs"

lemma quic_step_spec:
  assumes "quic_rq_ok s" and "qs_session s" and "qs_conn s"
  shows "\<exists>t acts. quic_step ev s = Some (t, acts) \<and> quic_rq_ok t \<and> qs_session t \<and> qs_conn t \<and>
     quic_unread s @ quic_received [ev] = quic_delivered acts @ quic_unread t \<and>
     quic_credit acts = length (quic_delivered acts)"
proof (cases ev)
  case (Qe_read read_all n h)
  have "quic_rq_ok (s\<lparr>qs_reads := rs\<rparr>)" "quic_unread (s\<lparr>qs_reads := rs\<rparr>) = quic_unread s" for rs
    using assms by (simp_all add: quic_rq_ok_def quic_unread_def)
  with Qe_read assms quic_do_read_spec [of "s\<lparr>qs_reads := qs_reads s @ [pending_read.make n h read_all]\<rparr>"]
  show ?thesis by (auto simp: quic_async_read_def quic_same_def pending_read.defs)
next
  case (Qe_data d)
  have "quic_rq_ok (s\<lparr>qs_queue := qs_queue s @ [d]\<rparr>)"
    "quic_unread (s\<lparr>qs_queue := qs_queue s @ [d]\<rparr>) = quic_unread s @ d"
    using assms by (simp_all add: quic_rq_ok_def quic_unread_def queue_fits_snoc unread_queue_fits_snoc)
  with Qe_data assms quic_do_read_spec [of "s\<lparr>qs_queue := qs_queue s @ [d]\<rparr>"]
  show ?thesis by (auto simp: quic_handle_data_def quic_same_def)
next
  case Qe_remote_close
  have "quic_rq_ok (s\<lparr>qs_closed := True\<rparr>)" "quic_unread (s\<lparr>qs_closed := True\<rparr>) = quic_unread s"
    using assms by (simp_all add: quic_rq_ok_def quic_unread_def)
  with Qe_remote_close assms quic_do_read_spec [of "s\<lparr>qs_closed := True\<rparr>"]
  show ?thesis by (auto simp: quic_handle_close_def quic_same_def)
next
  case Qe_close
  with assms show ?thesis
    by (auto simp: quic_close_def quic_rq_ok_def quic_unread_def)
qed

lemma quic_received_Cons: "quic_received (ev # evs) = quic_received [ev] @ quic_received evs"
  by (cases ev) auto

lemma quic_run_spec:
  assumes "quic_rq_ok s" and "qs_session s" and "qs_conn s"
  shows "\<exists>t acts. quic_run evs s = Some (t, acts) \<and> quic_rq_ok t \<and>
     quic_unread s @ quic_received evs = quic_delivered acts @ quic_unread t \<and>
     quic_credit acts = length (quic_delivered acts)"
  using assms
proof (induction evs arbitrary: s)
  case Nil
  then show ?case by simp
next
  case (Cons ev evs)
  from quic_step_spec [OF Cons.prems, of ev] obtain s1 a1 where
    1: "quic_step ev s = Some (s1, a1)" "quic_rq_ok s1" "qs_session s1" "qs_conn s1"
    "quic_unread s @ quic_received [ev] = quic_delivered a1 @ quic_unread s1"
    "quic_credit a1 = length (quic_delivered a1)"
    by auto
  from Cons.IH [OF 1(2-4)] obtain t a2 where
    2: "quic_run evs s1 = Some (t, a2)" "quic_rq_ok t"
    "quic_unread s1 @ quic_received evs = quic_delivered a2 @ quic_unread t"
    "quic_credit a2 = length (quic_delivered a2)"
    by auto
  have "quic_unread s @ quic_received (ev # evs) = quic_delivered a1 @ quic_unread s1 @ quic_received evs"
    using 1(5) quic_received_Cons [of ev evs] by (metis append_assoc)
  with 1 2 show ?case by simp
qed

text \<open>
  C20: Whatever the order of reads, received data (empty blocks included), the peer's close and the
  local close, the read loop of a QUIC stream never copies outside a block; what it has delivered
  followed by what it still holds is what was received, and the stream credit granted to the
  peer is exactly what was delivered. Unlike a multiplexed stream, a QUIC stream keeps what it
  has received when it is closed.
\<close>

theorem quic_stream_in_order:
  "\<exists>t acts. quic_run evs (QuicStream sid) = Some (t, acts) \<and>
     quic_received evs = quic_delivered acts @ quic_unread t \<and>
     quic_credit acts = length (quic_delivered acts)"
  using quic_run_spec [of "QuicStream sid" evs]
  by (auto simp: QuicStream_def quic_rq_ok_def quic_unread_def)

text \<open>As a byte source: one \<open>async_read_some\<close> on a stream with no other read pending.\<close>

definition quic_rd :: "quic_stream \<Rightarrow> nat \<Rightarrow> bytes \<times> quic_stream" where
  "quic_rd s n =
     (case quic_async_read False n 0 s of
        Some (t, acts) \<Rightarrow> (quic_delivered acts, t\<lparr>qs_reads := []\<rparr>)
      | None \<Rightarrow> ([], s))"

definition quic_source_ok :: "quic_stream \<Rightarrow> bool" where
  "quic_source_ok s \<longleftrightarrow> queue_ok (qs_queue s) (qs_offset s) \<and> qs_reads s = [] \<and> qs_session s"

lemma quic_rd_spec:
  assumes "quic_source_ok s"
  shows "fst (quic_rd s n) = take n (quic_unread s) \<and> quic_source_ok (snd (quic_rd s n)) \<and>
    quic_unread (snd (quic_rd s n)) = drop n (quic_unread s)"
proof -
  let ?s = "s\<lparr>qs_reads := [\<lparr>pr_size = n, pr_handler = 0, pr_read_all = False\<rparr>]\<rparr>"
  have ok: "queue_ok (qs_queue s) (qs_offset s)" "qs_session s" "qs_reads s = []"
    using assms by (simp_all add: quic_source_ok_def)
  have rd: "quic_async_read False n 0 s = quic_read_loop ?s"
    using ok by (simp add: quic_async_read_def quic_do_read_def)
  show ?thesis
  proof (cases "qs_queue s = []")
    case True
    then have off: "qs_offset s = 0" using ok by simp
    have "\<exists>t a. quic_read_loop ?s = Some (t, a) \<and> quic_delivered a = [] \<and> qs_queue t = [] \<and>
        qs_offset t = 0 \<and> qs_session t"
      using True off ok
      by (subst quic_read_loop.simps, cases "qs_closed s")
         (simp_all add: quic_read_step_def quic_read_loop.simps)
    with True off ok rd show ?thesis
      by (auto simp: quic_rd_def quic_source_ok_def quic_unread_def)
  next
    case False
    obtain q' off' where c: "read_copy n (qs_queue s) (qs_offset s) [] = Some (take n (quic_unread s), q', off')"
      "queue_ok q' off'" "unread_queue q' off' = drop n (quic_unread s)"
      using read_copy_spec [OF ok(1), of n "[]"] by (auto simp: quic_unread_def)
    let ?t = "?s\<lparr>qs_reads := [], qs_queue := q', qs_offset := off'\<rparr>"
    have "quic_read_loop ?t = Some (?t, [])"
      by (subst quic_read_loop.simps) (simp add: quic_read_step_def)
    then have "\<exists>a. quic_read_loop ?s = Some (?t, a) \<and> quic_delivered a = take n (quic_unread s)"
      using False c(1) by (subst quic_read_loop.simps) (simp add: quic_read_step_def)
    with c(2,3) ok rd show ?thesis
      by (auto simp: quic_rd_def quic_source_ok_def quic_unread_def)
  qed
qed

lemma quic_unread_Nil: "quic_source_ok s \<Longrightarrow> quic_unread s = [] \<longleftrightarrow> qs_queue s = []"
  by (simp add: quic_source_ok_def quic_unread_def unread_queue_eq_Nil)

interpretation quic_source: byte_source quic_unread quic_source_ok quic_rd
proof
  fix s n
  assume ok: "quic_source_ok s"
  from quic_rd_spec [OF ok, of n]
  show "quic_source_ok (snd (quic_rd s n))"
    "quic_unread s = fst (quic_rd s n) @ quic_unread (snd (quic_rd s n))"
    "length (fst (quic_rd s n)) \<le> n"
    by simp_all
  show "fst (quic_rd s n) \<noteq> []" if "0 < n" "quic_unread s \<noteq> []"
    using quic_rd_spec [OF ok, of n] that by simp
qed

text \<open>
  An exact read (\<open>async_read\<close>) on a stream that has been closed completes without error although
  it got fewer bytes than it asked for; only the next read reports the end of the stream.
\<close>

theorem quic_exact_read_short:
  assumes "quic_source_ok s" and "qs_closed s" and "quic_unread s \<noteq> []"
    and "length (quic_unread s) < n"
  shows "\<exists>t as. quic_async_read True n h s = Some (t, Q_post h Success (length (quic_unread s)) (quic_unread s) # as)
    \<and> quic_async_read True n h t = Some (t, [Q_post h Eof 0 []])"
proof -
  let ?s = "s\<lparr>qs_reads := [\<lparr>pr_size = n, pr_handler = h, pr_read_all = True\<rparr>]\<rparr>"
  have ok: "queue_ok (qs_queue s) (qs_offset s)" "qs_session s" "qs_reads s = []"
    using assms(1) by (simp_all add: quic_source_ok_def)
  have q: "qs_queue s \<noteq> []" using assms(1,3) by (simp add: quic_unread_Nil)
  obtain q' off' where c: "read_copy n (qs_queue s) (qs_offset s) [] = Some (quic_unread s, q', off')"
    "queue_ok q' off'" "unread_queue q' off' = []"
    using read_copy_spec [OF ok(1), of n "[]"] assms(4) by (auto simp: quic_unread_def)
  then have q': "q' = []" "off' = 0" by (auto simp: unread_queue_eq_Nil)
  let ?t = "s\<lparr>qs_reads := [], qs_queue := [], qs_offset := 0\<rparr>"
  have idle: "quic_read_loop u = Some (u, [])" if "qs_reads u = []" for u
    using that by (subst quic_read_loop.simps) (simp add: quic_read_step_def)
  then have loop: "quic_read_loop ?s = Some (?t, Q_post h Success (length (quic_unread s)) (quic_unread s) #
      (if qs_conn s \<and> 0 < length (quic_unread s)
       then [Extend_stream_offset (qs_id s) (length (quic_unread s))] else []))"
    using q c(1) q' assms(2) by (subst quic_read_loop.simps) (simp add: quic_read_step_def)
  have "quic_read_loop (?t\<lparr>qs_reads := [\<lparr>pr_size = n, pr_handler = h, pr_read_all = True\<rparr>]\<rparr>) =
      Some (?t, [Q_post h Eof 0 []])"
    using assms(2)
    by (subst quic_read_loop.simps) (simp add: quic_read_step_def idle)
  with loop ok show ?thesis by (auto simp: quic_async_read_def quic_do_read_def)
qed

end
