(* ===== verification/Quic_Session.thy ===== *)
theory Quic_Session
  imports Quic_Stream "HOL-Library.AList"
begin

text \<open>
  \<open>quic::QuicSession\<close> (\<open>src/common/quic_ngtcp2.h\<close>, \<open>quic_ngtcp2.cpp\<close>): the session around one
  ngtcp2 connection: its table of streams, its queue of writes, the closing protocol and the
  timer. ngtcp2 and the UDP socket are third-party code: they are the argument \<open>ng\<close> of the
  operations, a record of the functions that the session calls on a state \<open>'e\<close>, with the
  results that the session looks at. Every operation runs on the strand under \<open>ngtcp2_mutex_\<close>;
  \<open>is_writing_\<close> is false at every entry of \<open>do_write\<close>, because handlers are posted and nothing in
  the loop calls it again, and is left out. The constructor and \<open>init\<close> are in \<open>Quic_Server\<close>.
\<close>

section \<open>ngtcp2 and the socket\<close>

text \<open>The callbacks that \<open>ngtcp2_conn_read_pkt\<close> makes, and its result.\<close>

datatype quic_callback = Cb_stream_data int bytes bool | Cb_stream_close int | Cb_handshake_completed

datatype pkt_result = Pkt_ok | Pkt_drop_conn | Pkt_error

text \<open>
  \<open>ng_writev\<close> is \<open>ngtcp2_conn_writev_stream\<close>: whether the result is positive, and
  \<open>consumed_datalen\<close>; \<open>ng_write_pkt\<close> and \<open>ng_write_close\<close> tell whether a packet was written,
  \<open>ng_send\<close> is \<open>send_to\<close> (or \<open>send\<close>) on the socket, \<open>ng_expiry\<close> is the expiry time with
  \<open>UINT64_MAX\<close> as \<open>None\<close>, \<open>ng_ended\<close> whether the connection is closing or draining.
\<close>

record 'e ngtcp2 =
  ng_writev :: "'e \<Rightarrow> int \<Rightarrow> bytes list \<Rightarrow> 'e \<times> bool \<times> nat"
  ng_write_pkt :: "'e \<Rightarrow> 'e \<times> bool"
  ng_write_close :: "'e \<Rightarrow> 'e \<times> bool"
  ng_send :: "'e \<Rightarrow> 'e \<times> error_code"
  ng_read_pkt :: "'e \<Rightarrow> bytes \<Rightarrow> 'e \<times> quic_callback list \<times> pkt_result"
  ng_handle_expiry :: "'e \<Rightarrow> 'e \<times> bool"
  ng_expiry :: "'e \<Rightarrow> nat option"
  ng_ended :: "'e \<Rightarrow> bool"
  ng_open_bidi :: "'e \<Rightarrow> 'e \<times> int option"
  ng_shutdown_stream :: "'e \<Rightarrow> int \<Rightarrow> 'e"

section \<open>State\<close>

record quic_write =
  qw_stream :: int
  qw_bodies :: "bytes list"
  qw_consumed :: nat
  qw_handler :: nat

record quic_session =
  q_streams :: "(int \<times> quic_stream) list"
  q_conn :: bool
  q_notified :: bool
  q_writes :: "quic_write list"

datatype quic_out =
    Q_act quic_action
  | Q_handler nat error_code nat
  | Q_new_stream int
  | Q_connected
  | Q_closed
  | Q_cancel_timer
  | Q_timer nat
  | Q_retry_write nat
  | Q_undefined

definition quic_dead :: "quic_session \<Rightarrow> bool" where
  "quic_dead s \<longleftrightarrow> \<not> q_conn s \<or> q_notified s"

definition kQuicSessionMaxPendingWrites :: nat where "kQuicSessionMaxPendingWrites = 1024"

section \<open>Closing\<close>

text \<open>A call on a stream of the table; undefined behaviour in it is kept as an effect.\<close>

definition lift_stream ::
    "(quic_stream \<times> quic_action list) option \<Rightarrow> quic_stream \<Rightarrow> quic_stream \<times> quic_out list" where
  "lift_stream r s = (case r of None \<Rightarrow> (s, [Q_undefined]) | Some (t, as) \<Rightarrow> (t, map Q_act as))"

definition close_all :: "quic_session \<Rightarrow> quic_out list" where
  "close_all s = concat (map (\<lambda>(sid, st). snd (lift_stream (quic_handle_close st) st)) (q_streams s))"

definition quic_close_session ::
    "'e ngtcp2 \<Rightarrow> bool \<Rightarrow> 'e \<times> quic_session \<Rightarrow> ('e \<times> quic_session) \<times> quic_out list" where
  "quic_close_session ng send_close es =
     (case es of (e, s) \<Rightarrow>
       if quic_dead s then (es, [])
       else
         (let e' = (if send_close
                    then (case ng_write_close ng e of
                            (e1, True) \<Rightarrow> fst (ng_send ng e1) | (e1, False) \<Rightarrow> e1)
                    else e)
          in ((e', s\<lparr>q_notified := True, q_streams := []\<rparr>),
              Q_cancel_timer # close_all s @ [Q_closed])))"

definition quic_check_closed ::
    "'e ngtcp2 \<Rightarrow> 'e \<times> quic_session \<Rightarrow> ('e \<times> quic_session) \<times> quic_out list" where
  "quic_check_closed ng es =
     (case es of (e, s) \<Rightarrow>
       if quic_dead s \<or> \<not> ng_ended ng e then (es, [])
       else ((e, s\<lparr>q_notified := True, q_streams := []\<rparr>), close_all s @ [Q_closed]))"

definition quic_schedule_timer :: "'e ngtcp2 \<Rightarrow> nat \<Rightarrow> 'e \<times> quic_session \<Rightarrow> quic_out list" where
  "quic_schedule_timer ng now es =
     (case es of (e, s) \<Rightarrow>
       if quic_dead s then []
       else (case ng_expiry ng e of
               None \<Rightarrow> []
             | Some t \<Rightarrow> if t \<le> now then [Q_timer 5000000] else [Q_timer (t - now)]))"

section \<open>Writing\<close>

text \<open>
  One iteration of the loop of \<open>do_write\<close>; \<open>n\<close> is \<open>packets_sent\<close>. The result tells whether the
  loop goes on. The data that is left of a write is gathered as in the multiplexer
  (\<open>skip_buffers\<close>).
\<close>

definition quic_total :: "quic_write \<Rightarrow> nat" where
  "quic_total pw = sum_list (map length (qw_bodies pw))"

definition quic_write_step ::
    "'e ngtcp2 \<Rightarrow> nat \<Rightarrow> 'e \<times> quic_session \<Rightarrow>
     bool \<times> nat \<times> ('e \<times> quic_session) \<times> quic_out list" where
  "quic_write_step ng n es =
     (case es of (e, s) \<Rightarrow>
       (case q_writes s of
          [] \<Rightarrow> (False, n, es, [])
        | pw # rest \<Rightarrow>
            if 16 \<le> n then (False, n, es, [])
            else
              (let v = skip_buffers (qw_consumed pw) (qw_bodies pw)
               in if v = [] \<and> qw_bodies pw \<noteq> []
                  then (True, n, (e, s\<lparr>q_writes := rest\<rparr>), [])
                  else
                    (case ng_writev ng e (qw_stream pw) v of (e1, wrote, consumed) \<Rightarrow>
                       if \<not> wrote then (False, n, (e1, s), [])
                       else
                         (case ng_send ng e1 of (e2, ec) \<Rightarrow>
                            if ec = Would_block \<or> ec = Try_again
                            then (False, n + 1, (e2, s), [])
                            else if ec \<noteq> Success
                            then (if ec = Operation_aborted then (False, n + 1, (e2, s), [])
                                  else (case quic_close_session ng True (e2, s) of
                                          (es', os) \<Rightarrow> (False, n + 1, es', os)))
                            else if 0 < consumed
                            then (let pw' = pw\<lparr>qw_consumed := qw_consumed pw + consumed\<rparr>
                                  in if quic_total pw \<le> qw_consumed pw'
                                     then (True, n + 1, (e2, s\<lparr>q_writes := rest\<rparr>),
                                           [Q_handler (qw_handler pw) Success (quic_total pw)])
                                     else (True, n + 1, (e2, s\<lparr>q_writes := pw' # rest\<rparr>), []))
                            else (False, n + 1, (e2, s), []))))))"

lemma quic_write_step_measure:
  "quic_write_step ng n (e, s) = (True, n', (e', s'), os) \<Longrightarrow>
   (16 - n') + length (q_writes s') < (16 - n) + length (q_writes s)"
  by (auto simp: quic_write_step_def Let_def split: list.splits if_splits prod.splits)

function quic_write_loop ::
    "'e ngtcp2 \<Rightarrow> nat \<Rightarrow> 'e \<times> quic_session \<Rightarrow> nat \<times> ('e \<times> quic_session) \<times> quic_out list" where
  "quic_write_loop ng n es =
     (case quic_write_step ng n es of
        (go, n', es', os) \<Rightarrow>
          if go then (case quic_write_loop ng n' es' of (m, t, ps) \<Rightarrow> (m, t, os @ ps))
          else (n', es', os))"
  by pat_completeness auto
termination
  by (relation "measure (\<lambda>(ng, n, (e, s)). (16 - n) + length (q_writes s))")
     (auto dest!: quic_write_step_measure [OF sym])

declare quic_write_loop.simps [simp del]

definition quic_do_write ::
    "'e ngtcp2 \<Rightarrow> 'e \<times> quic_session \<Rightarrow> ('e \<times> quic_session) \<times> quic_out list" where
  "quic_do_write ng es =
     (if quic_dead (snd es) then (es, [])
      else
        (case quic_write_loop ng 0 es of (n, t, os) \<Rightarrow>
           (t, os @ (if q_writes (snd t) \<noteq> [] \<and> 16 \<le> n then [Q_retry_write 1] else []))))"

definition quic_write_stream ::
    "'e ngtcp2 \<Rightarrow> int \<Rightarrow> bytes list \<Rightarrow> nat \<Rightarrow> 'e \<times> quic_session \<Rightarrow>
     ('e \<times> quic_session) \<times> quic_out list" where
  "quic_write_stream ng sid buffers handler es =
     (case es of (e, s) \<Rightarrow>
       if quic_dead s then (es, [Q_handler handler Connection_reset 0])
       else if kQuicSessionMaxPendingWrites \<le> length (q_writes s)
       then (es, [Q_handler handler No_buffer_space 0])
       else quic_do_write ng
         (e, s\<lparr>q_writes := q_writes s @
            [\<lparr>qw_stream = sid, qw_bodies = buffers, qw_consumed = 0, qw_handler = handler\<rparr>]\<rparr>))"

text \<open>The overload for one buffer copies it; an empty one becomes an empty list of buffers.\<close>

definition quic_write_one ::
    "'e ngtcp2 \<Rightarrow> int \<Rightarrow> bytes \<Rightarrow> nat \<Rightarrow> 'e \<times> quic_session \<Rightarrow>
     ('e \<times> quic_session) \<times> quic_out list" where
  "quic_write_one ng sid data handler es =
     quic_write_stream ng sid (if data = [] then [] else [data]) handler es"

section \<open>Packets\<close>

text \<open>The loop of \<open>send_packets\<close>: \<open>n\<close> packets are left of the 32 of one turn.\<close>

fun quic_send_loop ::
    "'e ngtcp2 \<Rightarrow> nat \<Rightarrow> 'e \<times> quic_session \<Rightarrow> ('e \<times> quic_session) \<times> quic_out list" where
  "quic_send_loop ng 0 es = (es, [])"
| "quic_send_loop ng (Suc n) (e, s) =
     (case ng_write_pkt ng e of
        (e1, False) \<Rightarrow> ((e1, s), [])
      | (e1, True) \<Rightarrow>
          (case ng_send ng e1 of (e2, ec) \<Rightarrow>
             if ec = Success then quic_send_loop ng n (e2, s)
             else if ec = Would_block \<or> ec = Try_again \<or> ec = Operation_aborted then ((e2, s), [])
             else quic_close_session ng True (e2, s)))"

definition quic_send_packets ::
    "'e ngtcp2 \<Rightarrow> nat \<Rightarrow> 'e \<times> quic_session \<Rightarrow> ('e \<times> quic_session) \<times> quic_out list" where
  "quic_send_packets ng now es =
     (if quic_dead (snd es) then (es, [])
      else
        (case quic_send_loop ng 32 es of (es1, os1) \<Rightarrow>
         case quic_do_write ng es1 of (es2, os2) \<Rightarrow>
         case quic_check_closed ng es2 of (es3, os3) \<Rightarrow>
           (es3, os1 @ os2 @ quic_schedule_timer ng now es2 @ os3)))"

definition quic_timer ::
    "'e ngtcp2 \<Rightarrow> nat \<Rightarrow> error_code \<Rightarrow> 'e \<times> quic_session \<Rightarrow> ('e \<times> quic_session) \<times> quic_out list" where
  "quic_timer ng now ec es =
     (if ec \<noteq> Success \<or> quic_dead (snd es) then (es, [])
      else
        (case ng_handle_expiry ng (fst es) of
           (e, failed) \<Rightarrow>
             if failed then quic_close_session ng False (e, snd es)
             else quic_send_packets ng now (e, snd es)))"

definition quic_close_stream ::
    "'e ngtcp2 \<Rightarrow> nat \<Rightarrow> int \<Rightarrow> 'e \<times> quic_session \<Rightarrow> ('e \<times> quic_session) \<times> quic_out list" where
  "quic_close_stream ng now sid es =
     (if quic_dead (snd es) then (es, [])
      else quic_send_packets ng now (ng_shutdown_stream ng (fst es) sid, snd es))"

section \<open>Streams\<close>

definition quic_open_stream ::
    "'e ngtcp2 \<Rightarrow> 'e \<times> quic_session \<Rightarrow> ('e \<times> quic_session) \<times> int option" where
  "quic_open_stream ng es =
     (case es of (e, s) \<Rightarrow>
       if quic_dead s then (es, None)
       else (case ng_open_bidi ng e of
               (e1, None) \<Rightarrow> ((e1, s), None)
             | (e1, Some sid) \<Rightarrow>
                 ((e1, s\<lparr>q_streams := AList.update sid (QuicStream sid) (q_streams s)\<rparr>), Some sid)))"

definition on_stream_data :: "int \<Rightarrow> bytes \<Rightarrow> quic_session \<Rightarrow> quic_session \<times> quic_out list" where
  "on_stream_data sid data s =
     (case map_of (q_streams s) sid of
        Some st \<Rightarrow>
          (case lift_stream (quic_handle_data data st) st of
             (st', os) \<Rightarrow> (s\<lparr>q_streams := AList.update sid st' (q_streams s)\<rparr>, os))
      | None \<Rightarrow>
          (case lift_stream (quic_handle_data data (QuicStream sid)) (QuicStream sid) of
             (st', os) \<Rightarrow>
               (s\<lparr>q_streams := AList.update sid st' (q_streams s)\<rparr>, Q_new_stream sid # os)))"

definition on_stream_close :: "int \<Rightarrow> quic_session \<Rightarrow> quic_session \<times> quic_out list" where
  "on_stream_close sid s =
     (case map_of (q_streams s) sid of
        None \<Rightarrow> (s, [])
      | Some st \<Rightarrow>
          (s\<lparr>q_streams := AList.delete sid (q_streams s)\<rparr>,
           snd (lift_stream (quic_handle_close st) st)))"

fun on_callback :: "quic_callback \<Rightarrow> quic_session \<Rightarrow> quic_session \<times> quic_out list" where
  "on_callback (Cb_stream_data sid data fin) s =
     (case on_stream_data sid data s of (s1, os1) \<Rightarrow>
        if fin then (case on_stream_close sid s1 of (s2, os2) \<Rightarrow> (s2, os1 @ os2)) else (s1, os1))"
| "on_callback (Cb_stream_close sid) s = on_stream_close sid s"
| "on_callback Cb_handshake_completed s = (s, [Q_connected])"

fun on_callbacks :: "quic_callback list \<Rightarrow> quic_session \<Rightarrow> quic_session \<times> quic_out list" where
  "on_callbacks [] s = (s, [])"
| "on_callbacks (c # cs) s =
     (case on_callback c s of (s1, os1) \<Rightarrow>
      case on_callbacks cs s1 of (s2, os2) \<Rightarrow> (s2, os1 @ os2))"

definition quic_handle_packet ::
    "'e ngtcp2 \<Rightarrow> nat \<Rightarrow> bytes \<Rightarrow> 'e \<times> quic_session \<Rightarrow> ('e \<times> quic_session) \<times> quic_out list" where
  "quic_handle_packet ng now data es =
     (if quic_dead (snd es) then (es, [])
      else
        (case ng_read_pkt ng (fst es) data of (e, cbs, res) \<Rightarrow>
         case on_callbacks cbs (snd es) of (s1, os1) \<Rightarrow>
           (case res of
              Pkt_drop_conn \<Rightarrow>
                (case quic_close_session ng False (e, s1) of (es2, os2) \<Rightarrow> (es2, os1 @ os2))
            | Pkt_error \<Rightarrow>
                (case quic_close_session ng True (e, s1) of (es2, os2) \<Rightarrow> (es2, os1 @ os2))
            | Pkt_ok \<Rightarrow>
                (case quic_send_packets ng now (e, s1) of (es2, os2) \<Rightarrow>
                 case quic_check_closed ng es2 of (es3, os3) \<Rightarrow> (es3, os1 @ os2 @ os3)))))"

section \<open>What reaches ngtcp2\<close>

text \<open>
  The behaviour of ngtcp2 that the session relies on, over a view \<open>tx\<close> of the stream data that
  the connection has accepted: \<open>ngtcp2_conn_writev_stream\<close> accepts the first
  \<open>consumed_datalen\<close> bytes of what it is given, for the stream it is given, and the other calls
  accept none. Accepted data is retransmitted by ngtcp2 as needed.
\<close>

definition ng_accepts :: "('e \<Rightarrow> int \<Rightarrow> bytes) \<Rightarrow> 'e ngtcp2 \<Rightarrow> bool" where
  "ng_accepts tx ng \<longleftrightarrow>
     (\<forall>e sid v. case ng_writev ng e sid v of (e', wrote, n) \<Rightarrow>
        n \<le> length (concat v) \<and>
        tx e' = (tx e)(sid := tx e sid @ (if wrote then take n (concat v) else []))) \<and>
     (\<forall>e. tx (fst (ng_send ng e)) = tx e) \<and> (\<forall>e. tx (fst (ng_write_close ng e)) = tx e)"

text \<open>The data queued for a stream that has not been accepted yet.\<close>

definition quic_left :: "quic_write \<Rightarrow> bytes" where
  "quic_left pw = drop (qw_consumed pw) (concat (qw_bodies pw))"

definition quic_pending :: "int \<Rightarrow> quic_session \<Rightarrow> bytes" where
  "quic_pending sid s = concat (map quic_left (filter (\<lambda>pw. qw_stream pw = sid) (q_writes s)))"

lemma skip_buffers_left: "concat (skip_buffers (qw_consumed pw) (qw_bodies pw)) = quic_left pw"
  by (simp add: quic_left_def concat_skip_buffers)

lemma skip_buffers_Nil: "skip_buffers n bs = [] \<longleftrightarrow> length (concat bs) \<le> n"
  by (induction n bs rule: skip_buffers.induct) auto

lemma quic_total_concat: "quic_total pw = length (concat (qw_bodies pw))"
  by (simp add: quic_total_def sum_list_lengths)

lemma ng_acceptsD:
  assumes "ng_accepts tx ng"
  shows "ng_writev ng e sid v = (e', w, n) \<Longrightarrow> n \<le> length (concat v) \<and>
      tx e' = (tx e)(sid := tx e sid @ (if w then take n (concat v) else []))"
    and "ng_send ng e = (e', ec) \<Longrightarrow> tx e' = tx e"
proof -
  have a: "case ng_writev ng e sid v of (e', wrote, n) \<Rightarrow> n \<le> length (concat v) \<and>
      tx e' = (tx e)(sid := tx e sid @ (if wrote then take n (concat v) else []))" for e sid v
    by (rule assms [unfolded ng_accepts_def, THEN conjunct1, THEN spec, THEN spec, THEN spec])
  have b: "tx (fst (ng_send ng e)) = tx e" for e
    using assms unfolding ng_accepts_def by blast
  show "n \<le> length (concat v) \<and>
      tx e' = (tx e)(sid := tx e sid @ (if w then take n (concat v) else []))"
    if "ng_writev ng e sid v = (e', w, n)"
    using a [where e = e and sid = sid and v = v] that by simp
  show "tx e' = tx e" if "ng_send ng e = (e', ec)"
    using b [of e] that by simp
qed

lemma quic_left_step:
  "n \<le> length (quic_left pw) \<Longrightarrow>
   take n (quic_left pw) @ quic_left (pw\<lparr>qw_consumed := qw_consumed pw + n\<rparr>) = quic_left pw"
  by (simp add: quic_left_def add.commute flip: drop_drop)

lemma quic_write_step_order:
  assumes ng: "ng_accepts tx ng" and send: "\<And>e. snd (ng_send ng e) = Success"
    and step: "quic_write_step ng n (e, s) = (go, n', (e', s'), os)"
  shows "tx e' sid @ quic_pending sid s' = tx e sid @ quic_pending sid s"
proof (cases "q_writes s")
  case Nil
  with step show ?thesis by (simp add: quic_write_step_def)
next
  case (Cons pw rest)
  define v where "v = skip_buffers (qw_consumed pw) (qw_bodies pw)"
  obtain e1 w c where w: "ng_writev ng e (qw_stream pw) v = (e1, w, c)" by (metis prod_cases3)
  obtain e2 where s2: "ng_send ng e1 = (e2, Success)" using send by (metis prod.collapse)
  have c: "c \<le> length (quic_left pw)"
    "tx e1 = (tx e)(qw_stream pw := tx e (qw_stream pw) @ (if w then take c (quic_left pw) else []))"
    using ng_acceptsD(1) [OF ng w] by (simp_all add: v_def skip_buffers_left)
  have t2: "tx e2 = tx e1" using ng_acceptsD(2) [OF ng s2] .
  have pend: "quic_pending sid (s\<lparr>q_writes := ws\<rparr>) =
      concat (map quic_left (filter (\<lambda>pw. qw_stream pw = sid) ws))" for ws
    by (simp add: quic_pending_def)
  have left: "v = [] \<Longrightarrow> quic_left pw = []"
    by (simp add: v_def skip_buffers_Nil quic_left_def)
  have all: "quic_total pw \<le> qw_consumed pw + c \<Longrightarrow> take c (quic_left pw) = quic_left pw"
    by (simp add: quic_total_concat quic_left_def)
  note more = quic_left_step [OF c(1)]
  show ?thesis
    using step Cons w s2 c t2 left all more
    by (auto simp: quic_write_step_def Let_def quic_pending_def v_def [symmetric] split: if_splits)
qed

lemma quic_write_loop_order:
  assumes ng: "ng_accepts tx ng" and send: "\<And>e. snd (ng_send ng e) = Success"
  shows "quic_write_loop ng n es = (m, t, os) \<Longrightarrow>
    tx (fst t) sid @ quic_pending sid (snd t) = tx (fst es) sid @ quic_pending sid (snd es)"
proof (induction "(16 - n) + length (q_writes (snd es))" arbitrary: n es m t os rule: less_induct)
  case less
  obtain e s where es: "es = (e, s)" by force
  obtain go n' e1 s1 o1 where step: "quic_write_step ng n (e, s) = (go, n', (e1, s1), o1)"
    by (metis prod.collapse)
  note 1 = quic_write_step_order [OF ng send step, of sid]
  show ?case
  proof (cases go)
    case False
    with less.prems step 1 es show ?thesis by (subst (asm) quic_write_loop.simps) auto
  next
    case True
    obtain k u p where loop: "quic_write_loop ng n' (e1, s1) = (k, u, p)" by (metis prod_cases3)
    have "(16 - n') + length (q_writes s1) < (16 - n) + length (q_writes s)"
      using step True by (intro quic_write_step_measure) simp
    then have "tx (fst u) sid @ quic_pending sid (snd u) = tx e1 sid @ quic_pending sid s1"
      using less.hyps [of n' "(e1, s1)" k u p] loop es by simp
    with less.prems step 1 es True loop show ?thesis
      by (subst (asm) quic_write_loop.simps) simp
  qed
qed

lemma quic_do_write_order:
  assumes "ng_accepts tx ng" and "\<And>e. snd (ng_send ng e) = Success"
  shows "tx (fst (fst (quic_do_write ng es))) sid @ quic_pending sid (snd (fst (quic_do_write ng es))) =
    tx (fst es) sid @ quic_pending sid (snd es)"
  using quic_write_loop_order [OF assms, of 0 es]
  by (auto simp: quic_do_write_def split: prod.splits)

text \<open>The operations of the write side, and the data they accept.\<close>

datatype quic_request = Op_write int "bytes list" nat | Op_retry

fun quic_op :: "'e ngtcp2 \<Rightarrow> quic_request \<Rightarrow> 'e \<times> quic_session \<Rightarrow> ('e \<times> quic_session) \<times> quic_out list" where
  "quic_op ng (Op_write sid buffers h) es = quic_write_stream ng sid buffers h es"
| "quic_op ng Op_retry es = quic_do_write ng es"

fun quic_ops :: "'e ngtcp2 \<Rightarrow> quic_request list \<Rightarrow> 'e \<times> quic_session \<Rightarrow> 'e \<times> quic_session" where
  "quic_ops ng [] es = es"
| "quic_ops ng (op # ops) es = quic_ops ng ops (fst (quic_op ng op es))"

definition quic_op_data :: "int \<Rightarrow> quic_request \<Rightarrow> quic_session \<Rightarrow> bytes" where
  "quic_op_data sid op s =
     (case op of
        Op_write sid' buffers h \<Rightarrow>
          if sid' = sid \<and> \<not> quic_dead s \<and> length (q_writes s) < kQuicSessionMaxPendingWrites
          then concat buffers else []
      | Op_retry \<Rightarrow> [])"

fun quic_ops_data :: "'e ngtcp2 \<Rightarrow> int \<Rightarrow> quic_request list \<Rightarrow> 'e \<times> quic_session \<Rightarrow> bytes" where
  "quic_ops_data ng sid [] es = []"
| "quic_ops_data ng sid (op # ops) es =
     quic_op_data sid op (snd es) @ quic_ops_data ng sid ops (fst (quic_op ng op es))"

lemma quic_op_order:
  assumes "ng_accepts tx ng" and "\<And>e. snd (ng_send ng e) = Success"
  shows "tx (fst (fst (quic_op ng op es))) sid @ quic_pending sid (snd (fst (quic_op ng op es))) =
    tx (fst es) sid @ quic_pending sid (snd es) @ quic_op_data sid op (snd es)"
proof (cases op)
  case (Op_write sid' buffers h)
  obtain e s where es: "es = (e, s)" by force
  let ?s = "s\<lparr>q_writes := q_writes s @
      [\<lparr>qw_stream = sid', qw_bodies = buffers, qw_consumed = 0, qw_handler = h\<rparr>]\<rparr>"
  have "quic_pending sid ?s = quic_pending sid s @ (if sid' = sid then concat buffers else [])"
    by (simp add: quic_pending_def quic_left_def)
  with Op_write es quic_do_write_order [OF assms, of "(e, ?s)" sid] show ?thesis
    by (auto simp: quic_write_stream_def quic_op_data_def)
next
  case Op_retry
  with quic_do_write_order [OF assms, of es sid] show ?thesis by (simp add: quic_op_data_def)
qed

lemma quic_ops_order:
  assumes "ng_accepts tx ng" and "\<And>e. snd (ng_send ng e) = Success"
  shows "tx (fst (quic_ops ng ops es)) sid @ quic_pending sid (snd (quic_ops ng ops es)) =
    tx (fst es) sid @ quic_pending sid (snd es) @ quic_ops_data ng sid ops es"
proof (induction ops arbitrary: es)
  case (Cons op ops)
  have "tx (fst (quic_ops ng (op # ops) es)) sid @ quic_pending sid (snd (quic_ops ng (op # ops) es)) =
      (tx (fst (fst (quic_op ng op es))) sid @ quic_pending sid (snd (fst (quic_op ng op es)))) @
      quic_ops_data ng sid ops (fst (quic_op ng op es))"
    using Cons.IH [of "fst (quic_op ng op es)"] by simp
  then show ?case using quic_op_order [OF assms, of op es sid] by simp
qed simp

text \<open>
  C18: While the socket takes every packet, the bytes that ngtcp2 has accepted for a stream followed by
  those still queued are the bytes of the accepted writes, in order, however ngtcp2 splits them
  into packets and however writes to several streams and retries are interleaved.
\<close>

theorem quic_writes_in_order:
  assumes "ng_accepts tx ng" and "\<forall>e. snd (ng_send ng e) = Success" and "q_writes s = []"
  shows "tx (fst (quic_ops ng ops (e, s))) sid @ quic_pending sid (snd (quic_ops ng ops (e, s))) =
    tx e sid @ quic_ops_data ng sid ops (e, s)"
  using quic_ops_order [OF assms(1), of ops "(e, s)" sid] assms(2,3)
  by (simp add: quic_pending_def)

text \<open>
  C19: A datagram that the socket refuses for lack of buffer space ends the loop before the accepted
  bytes are counted: they stay queued as well, so the peer's stream receives them twice.
\<close>

theorem quic_would_block_duplicates:
  assumes "ng_accepts tx ng" and "\<not> quic_dead s" and "q_writes s = pw # rest"
    and "quic_left pw \<noteq> []"
    and "ng_writev ng e (qw_stream pw) (skip_buffers (qw_consumed pw) (qw_bodies pw)) = (e1, True, c)"
    and "ng_send ng e1 = (e2, Would_block)"
  shows "quic_do_write ng (e, s) = ((e2, s), []) \<and>
    tx e2 (qw_stream pw) @ quic_pending (qw_stream pw) s =
      tx e (qw_stream pw) @ take c (quic_left pw) @ quic_pending (qw_stream pw) s"
proof -
  have v: "skip_buffers (qw_consumed pw) (qw_bodies pw) \<noteq> []"
    using assms(4) by (metis concat.simps(1) skip_buffers_left)
  then have "quic_write_step ng 0 (e, s) = (False, 1, (e2, s), [])"
    using assms by (simp add: quic_write_step_def Let_def)
  then have "quic_do_write ng (e, s) = ((e2, s), [])"
    using assms(2) by (subst quic_do_write_def, subst quic_write_loop.simps) simp
  moreover have "tx e2 (qw_stream pw) @ quic_pending (qw_stream pw) s =
      tx e (qw_stream pw) @ take c (quic_left pw) @ quic_pending (qw_stream pw) s"
    using ng_acceptsD(1) [OF assms(1,5)] ng_acceptsD(2) [OF assms(1,6)]
    by (simp add: skip_buffers_left)
  ultimately show ?thesis ..
qed

text \<open>
  A write without data is handed to ngtcp2 as an empty stream frame and never completes: the
  loop stops at it, and everything queued behind it waits.
\<close>

theorem quic_empty_write_blocks:
  assumes "ng_accepts tx ng" and "\<forall>e. snd (ng_send ng e) = Success"
    and "\<not> quic_dead s" and "q_writes s = pw # rest" and "qw_bodies pw = []"
  shows "snd (fst (quic_do_write ng (e, s))) = s \<and> snd (quic_do_write ng (e, s)) = []"
proof -
  obtain e1 w c where w: "ng_writev ng e (qw_stream pw) [] = (e1, w, c)" by (metis prod_cases3)
  obtain e2 where e2: "ng_send ng e1 = (e2, Success)" using assms(2) by (metis prod.collapse)
  have "c = 0" using ng_acceptsD(1) [OF assms(1) w] by simp
  then have "\<exists>n u. quic_write_step ng 0 (e, s) = (False, n, (u, s), []) \<and> n \<le> 1"
    using assms w e2 by (cases w) (simp_all add: quic_write_step_def Let_def)
  then obtain n u where "quic_write_step ng 0 (e, s) = (False, n, (u, s), [])" "n \<le> 1" by blast
  then show ?thesis
    using assms(3) by (subst (1 2) quic_do_write_def, subst (1 2) quic_write_loop.simps) simp
qed

section \<open>Closing happens once\<close>

interpretation quic_stop: stoppable "\<lambda>es. quic_dead (snd es)" "quic_close_session ng send_close"
  by unfold_locales (auto simp: quic_close_session_def quic_dead_def split: prod.splits)

lemma quic_dead_silent:
  assumes "quic_dead (snd t)"
  shows "quic_do_write ng t = (t, [])" and "quic_send_packets ng now t = (t, [])"
    and "quic_timer ng now ec t = (t, [])" and "quic_handle_packet ng now data t = (t, [])"
    and "quic_close_stream ng now sid t = (t, [])" and "quic_open_stream ng t = (t, None)"
    and "quic_write_stream ng sid bufs h t = (t, [Q_handler h Connection_reset 0])"
  using assms
  by (cases t; simp add: quic_do_write_def quic_send_packets_def quic_timer_def
      quic_handle_packet_def quic_close_stream_def quic_open_stream_def quic_write_stream_def)+

text \<open>
  A closed session answers every operation with nothing: the handlers of the writes that were
  queued when it closed are never called, by no packet, timer or later write.
\<close>

theorem quic_close_strands_writes:
  "let t = fst (quic_close_session ng send_close es) in
     quic_dead (snd t) \<and> q_writes (snd t) = q_writes (snd es) \<and>
     quic_do_write ng t = (t, []) \<and> quic_send_packets ng now t = (t, []) \<and>
     quic_timer ng now ec t = (t, []) \<and> quic_handle_packet ng now data t = (t, []) \<and>
     quic_close_stream ng now sid t = (t, []) \<and> quic_open_stream ng t = (t, None) \<and>
     quic_write_stream ng sid bufs h t = (t, [Q_handler h Connection_reset 0])"
proof -
  have "quic_dead (snd (fst (quic_close_session ng send_close es)))" by (rule quic_stop.stop_stops)
  moreover have "q_writes (snd (fst (quic_close_session ng send_close es))) = q_writes (snd es)"
    by (auto simp: quic_close_session_def split: prod.splits)
  ultimately show ?thesis by (simp add: Let_def quic_dead_silent)
qed

section \<open>Witnesses\<close>

text \<open>
  A connection that accepts at most 5 bytes per packet, with the accepted data per stream as its
  state, over a socket that takes every datagram; and one whose first datagram is refused.
\<close>

definition sample_ng :: "((int \<Rightarrow> bytes) \<times> nat) ngtcp2" where
  "sample_ng =
     \<lparr>ng_writev = (\<lambda>(m, k) sid v. ((m(sid := m sid @ take 5 (concat v)), k), True, min 5 (length (concat v)))),
      ng_write_pkt = (\<lambda>e. (e, False)), ng_write_close = (\<lambda>e. (e, False)),
      ng_send = (\<lambda>(m, k). ((m, k - 1), if k = 0 then Success else Would_block)),
      ng_read_pkt = (\<lambda>e _. (e, [], Pkt_ok)), ng_handle_expiry = (\<lambda>e. (e, False)),
      ng_expiry = (\<lambda>_. None), ng_ended = (\<lambda>_. False), ng_open_bidi = (\<lambda>e. (e, Some 0)),
      ng_shutdown_stream = (\<lambda>e _. e)\<rparr>"

definition sample_ng_ok :: "(int \<Rightarrow> bytes) ngtcp2" where
  "sample_ng_ok =
     \<lparr>ng_writev = (\<lambda>m sid v. (m(sid := m sid @ take 5 (concat v)), True, min 5 (length (concat v)))),
      ng_write_pkt = (\<lambda>e. (e, False)), ng_write_close = (\<lambda>e. (e, False)),
      ng_send = (\<lambda>m. (m, Success)),
      ng_read_pkt = (\<lambda>e _. (e, [], Pkt_ok)), ng_handle_expiry = (\<lambda>e. (e, False)),
      ng_expiry = (\<lambda>_. None), ng_ended = (\<lambda>_. False), ng_open_bidi = (\<lambda>e. (e, Some 0)),
      ng_shutdown_stream = (\<lambda>e _. e)\<rparr>"

lemma sample_ng_accepts: "ng_accepts fst sample_ng" "ng_accepts (\<lambda>m. m) sample_ng_ok"
  by (auto simp: ng_accepts_def sample_ng_def sample_ng_ok_def min_def)

definition empty_quic :: quic_session where
  "empty_quic = \<lparr>q_streams = [], q_conn = True, q_notified = False, q_writes = []\<rparr>"

theorem quic_writes_in_order_witness:
  "(let (m, s) = quic_ops sample_ng_ok [Op_write 0 [[1, 2, 3], [4, 5, 6, 7]] 1] ((\<lambda>_. []), empty_quic)
    in m 0 @ quic_pending 0 s) = [1, 2, 3, 4, 5, 6, 7]"
  using quic_writes_in_order [OF sample_ng_accepts(2), of empty_quic
      "[Op_write 0 [[1, 2, 3], [4, 5, 6, 7]] 1]" "\<lambda>_. []" 0]
  by (simp add: sample_ng_ok_def empty_quic_def quic_op_data_def quic_dead_def
      kQuicSessionMaxPendingWrites_def case_prod_beta Let_def)

theorem quic_would_block_duplicates_witness:
  "quic_do_write sample_ng
     (((\<lambda>_. []), 1), empty_quic\<lparr>q_writes := [\<lparr>qw_stream = 0, qw_bodies = [[7, 8]], qw_consumed = 0, qw_handler = 9\<rparr>]\<rparr>) =
   ((((\<lambda>_. [])(0 := [7, 8]), 0), empty_quic\<lparr>q_writes := [\<lparr>qw_stream = 0, qw_bodies = [[7, 8]], qw_consumed = 0, qw_handler = 9\<rparr>]\<rparr>), [])"
  by (rule conjunct1 [OF quic_would_block_duplicates
        [OF sample_ng_accepts(1), where c = 2 and ?e1.0 = "((\<lambda>_. [])(0 := [7, 8]), 1)"
        and rest = "[]" and pw = "\<lparr>qw_stream = 0, qw_bodies = [[7, 8]], qw_consumed = 0, qw_handler = 9\<rparr>"]])
     (simp_all add: sample_ng_def empty_quic_def quic_dead_def quic_left_def)

theorem quic_empty_write_blocks_witness:
  "snd (fst (quic_do_write sample_ng_ok
     ((\<lambda>_. []), empty_quic\<lparr>q_writes := [\<lparr>qw_stream = 0, qw_bodies = [], qw_consumed = 0, qw_handler = 9\<rparr>]\<rparr>))) =
   empty_quic\<lparr>q_writes := [\<lparr>qw_stream = 0, qw_bodies = [], qw_consumed = 0, qw_handler = 9\<rparr>]\<rparr>"
  using quic_empty_write_blocks [OF sample_ng_accepts(2), of
      "empty_quic\<lparr>q_writes := [\<lparr>qw_stream = 0, qw_bodies = [], qw_consumed = 0, qw_handler = 9\<rparr>]\<rparr>"
      "\<lparr>qw_stream = 0, qw_bodies = [], qw_consumed = 0, qw_handler = 9\<rparr>" "[]" "\<lambda>_. []"]
  by (simp add: sample_ng_ok_def empty_quic_def quic_dead_def)
end
