(* ===== verification/Acceptor.thy ===== *)
theory Acceptor
  imports Server_State Streams Websocket
begin

text \<open>
  How a connection becomes a multiplexed session (\<open>Server\<close> in \<open>src/server/server.cpp\<close>): the loops
  that \<open>Run\<close> starts and \<open>Stop\<close> ends, the handshake of an accepted TCP connection with its
  detection of TLS and WebSocket and its timeout (\<open>DoAccept\<close>), and the table of QUIC sessions
  (\<open>DoUdpRead\<close>). TLS, the socket and ngtcp2 are third-party code; their completions are events.
\<close>

section \<open>Starting and stopping the server\<close>

record listen_config =
  lc_protocol :: string
  lc_ssl :: bool
  lc_vhost_http :: "16 word"
  lc_vhost_https :: "16 word"

datatype server_loop = Accept_loop | Udp_loop | Vhost_loop string "16 word"

text \<open>\<open>bind_ok\<close> tells whether the acceptor of a port can be created; a failure is only logged.\<close>

definition Server_Run :: "(16 word \<Rightarrow> bool) \<Rightarrow> listen_config \<Rightarrow> server_loop list" where
  "Server_Run bind_ok c =
     [Accept_loop] @
     (if lc_protocol c = ''quic'' \<or> lc_protocol c = ''auto'' then [Udp_loop] else []) @
     (if 0 < lc_vhost_http c \<and> bind_ok (lc_vhost_http c)
      then [Vhost_loop ''http'' (lc_vhost_http c)] else []) @
     (if 0 < lc_vhost_https c \<and> bind_ok (lc_vhost_https c)
      then [Vhost_loop ''https'' (lc_vhost_https c)] else [])"

text \<open>
  The private key of the generated CA: the first \<open>.crt\<close> of the configured path is replaced; with
  none, \<open>string::replace\<close> is called with \<open>npos\<close> and throws (\<open>None\<close>).
\<close>

definition ca_key_file :: "string \<Rightarrow> string option" where
  "ca_key_file ca_file =
     map_option (\<lambda>i. take i ca_file @ ''.key'' @ drop (i + 4) ca_file) (find_sub ''.crt'' ca_file)"

lemma ca_key_file_example: "ca_key_file ''certs/ca.crt'' = Some ''certs/ca.key''"
  by (simp add: ca_key_file_def)

lemma ca_key_file_throws: "ca_key_file ''certs/ca.pem'' = None"
  by (simp add: ca_key_file_def)

section \<open>An accepted connection\<close>

text \<open>The accept loop: whether a connection is handled, and when the next accept starts.\<close>

datatype next_accept = Next_accept | Next_accept_after_ms nat | No_accept

definition server_accept :: "error_code \<Rightarrow> bool \<times> next_accept" where
  "server_accept ec =
     (if ec = Success then (True, Next_accept)
      else (False, if ec = Operation_aborted then No_accept else Next_accept_after_ms 100))"

text \<open>The stream objects that wrap each other; \<open>Buffered\<close> holds the byte read for detection.\<close>

datatype layer =
    Tcp_stream
  | Ssl_stream
  | Websocket_stream bool layer
  | Buffered byte layer

datatype accept_phase =
    Peeking
  | Handshaking layer
  | Detecting layer
  | Ws_handshaking layer
  | Muxing layer
  | Finished

record accept_state =
  ac_phase :: accept_phase
  ac_stream :: "layer option"
  ac_closed :: bool
  ac_timer :: bool

datatype accept_out = Close_connection "layer option" | Start_mux layer

text \<open>
  \<open>ConnectionState::Close\<close>: once, the wrapped stream if there is one, else the socket. The other
  closes of the code are on a stream directly.
\<close>

definition state_Close :: "accept_state \<Rightarrow> accept_state \<times> accept_out list" where
  "state_Close a =
     (if ac_closed a then (a, []) else (a\<lparr>ac_closed := True\<rparr>, [Close_connection (ac_stream a)]))"

definition start_handshake :: "listen_config \<Rightarrow> layer \<Rightarrow> accept_state \<Rightarrow> accept_state" where
  "start_handshake c stream a =
     (if lc_protocol c = ''websocket''
      then a\<lparr>ac_stream := Some (Websocket_stream True stream), ac_phase := Handshaking (Websocket_stream True stream)\<rparr>
      else a\<lparr>ac_phase := Handshaking stream\<rparr>)"

definition start_mux :: "layer \<Rightarrow> accept_state \<Rightarrow> accept_state \<times> accept_out list" where
  "start_mux s a = (a\<lparr>ac_timer := False, ac_phase := Muxing s\<rparr>, [Start_mux s])"

definition fail_accept :: "layer \<Rightarrow> accept_state \<Rightarrow> accept_state \<times> accept_out list" where
  "fail_accept s a = (a\<lparr>ac_timer := False, ac_phase := Finished\<rparr>, [Close_connection (Some s)])"

definition on_accept :: "listen_config \<Rightarrow> accept_state" where
  "on_accept c =
     (let a = \<lparr>ac_phase = Peeking, ac_stream = None, ac_closed = False, ac_timer = True\<rparr>
      in if lc_ssl c then a else start_handshake c Tcp_stream (a\<lparr>ac_stream := Some Tcp_stream\<rparr>))"

text \<open>The completion of the peek, with TLS enabled.\<close>

definition on_peek ::
    "listen_config \<Rightarrow> error_code \<Rightarrow> bytes \<Rightarrow> accept_state \<Rightarrow> accept_state \<times> accept_out list" where
  "on_peek c ec got a =
     (if ec \<noteq> Success \<or> length got \<noteq> 1 \<or> hd got \<noteq> 0x16
      then (case state_Close a of (a', os) \<Rightarrow> (a'\<lparr>ac_timer := False, ac_phase := Finished\<rparr>, os))
      else if ac_closed a then (a\<lparr>ac_phase := Finished\<rparr>, [])
      else (start_handshake c Ssl_stream (a\<lparr>ac_stream := Some Ssl_stream\<rparr>), []))"

definition on_handshaken ::
    "listen_config \<Rightarrow> error_code \<Rightarrow> layer \<Rightarrow> accept_state \<Rightarrow> accept_state \<times> accept_out list" where
  "on_handshaken c ec stream a =
     (if ec \<noteq> Success then fail_accept stream a
      else if lc_protocol c = ''auto'' then (a\<lparr>ac_phase := Detecting stream\<rparr>, [])
      else start_mux stream a)"

definition on_first_byte ::
    "error_code \<Rightarrow> byte \<Rightarrow> layer \<Rightarrow> accept_state \<Rightarrow> accept_state \<times> accept_out list" where
  "on_first_byte ec b stream a =
     (if ec \<noteq> Success then fail_accept stream a
      else if b = byte_of_char (CHR ''G'')
      then (a\<lparr>ac_phase := Ws_handshaking (Websocket_stream False (Buffered b stream))\<rparr>, [])
      else start_mux (Buffered b stream) a)"

definition on_ws_handshaken ::
    "error_code \<Rightarrow> layer \<Rightarrow> accept_state \<Rightarrow> accept_state \<times> accept_out list" where
  "on_ws_handshaken ec ws a = (if ec = Success then start_mux ws a else fail_accept ws a)"

text \<open>
  The 3 s timer. Its handler finds the connection state as long as one of the handlers of the
  handshake holds it, that is until the multiplexer starts or the connection is given up.
\<close>

definition on_accept_timeout :: "accept_state \<Rightarrow> accept_state \<times> accept_out list" where
  "on_accept_timeout a =
     (if \<not> ac_timer a then (a, [])
      else (case ac_phase a of
              Muxing s \<Rightarrow> (a, []) | Finished \<Rightarrow> (a, [])
            | _ \<Rightarrow> (case state_Close a of (a', os) \<Rightarrow> (a'\<lparr>ac_timer := False\<rparr>, os))))"

text \<open>Each phase waits for one completion.\<close>

datatype accept_event = Completed error_code bytes | Timed_out

fun accept_step ::
    "listen_config \<Rightarrow> accept_event \<Rightarrow> accept_state \<Rightarrow> accept_state \<times> accept_out list" where
  "accept_step c Timed_out a = on_accept_timeout a"
| "accept_step c (Completed ec got) a =
     (case ac_phase a of
        Peeking \<Rightarrow> on_peek c ec got a
      | Handshaking s \<Rightarrow> on_handshaken c ec s a
      | Detecting s \<Rightarrow> on_first_byte ec (if got = [] then 0 else hd got) s a
      | Ws_handshaking s \<Rightarrow> on_ws_handshaken ec s a
      | Muxing s \<Rightarrow> (a, [])
      | Finished \<Rightarrow> (a, []))"

fun accept_run ::
    "listen_config \<Rightarrow> accept_event list \<Rightarrow> accept_state \<Rightarrow> accept_state \<times> accept_out list" where
  "accept_run c [] a = (a, [])"
| "accept_run c (ev # evs) a =
     (case accept_step c ev a of (a1, o1) \<Rightarrow>
      case accept_run c evs a1 of (a2, o2) \<Rightarrow> (a2, o1 @ o2))"

section \<open>The invariant of a handshake\<close>

fun has_ssl :: "layer \<Rightarrow> bool" where
  "has_ssl Tcp_stream = False"
| "has_ssl Ssl_stream = True"
| "has_ssl (Websocket_stream d l) = has_ssl l"
| "has_ssl (Buffered b l) = has_ssl l"

fun phase_layer :: "accept_phase \<Rightarrow> layer option" where
  "phase_layer (Handshaking s) = Some s"
| "phase_layer (Detecting s) = Some s"
| "phase_layer (Ws_handshaking s) = Some s"
| "phase_layer (Muxing s) = Some s"
| "phase_layer _ = None"

fun accept_waiting :: "accept_phase \<Rightarrow> bool" where
  "accept_waiting (Muxing s) = False"
| "accept_waiting Finished = False"
| "accept_waiting _ = True"

definition accept_ok :: "listen_config \<Rightarrow> accept_state \<Rightarrow> bool" where
  "accept_ok c a \<longleftrightarrow>
     (lc_ssl c \<longrightarrow> (\<forall>s. phase_layer (ac_phase a) = Some s \<longrightarrow> has_ssl s)) \<and>
     (accept_waiting (ac_phase a) \<longrightarrow> ac_timer a \<or> ac_closed a)"

lemma accept_ok_on_accept: "accept_ok c (on_accept c)"
  by (simp add: accept_ok_def on_accept_def start_handshake_def Let_def)

lemmas accept_defs = on_peek_def on_handshaken_def on_first_byte_def on_ws_handshaken_def
  on_accept_timeout_def state_Close_def start_handshake_def start_mux_def fail_accept_def

lemma accept_ok_step: "accept_ok c a \<Longrightarrow> accept_ok c (fst (accept_step c ev a))"
  by (cases ev; cases "ac_phase a") (auto simp: accept_ok_def accept_defs split: if_splits prod.splits)

lemma accept_ok_run: "accept_ok c a \<Longrightarrow> accept_ok c (fst (accept_run c evs a))"
proof (induction evs arbitrary: a)
  case (Cons ev evs)
  show ?case using Cons.IH [OF accept_ok_step [OF Cons.prems]]
    by (simp add: case_prod_beta)
qed simp

text \<open>How many multiplexers a run starts, and on what.\<close>

fun muxed :: "accept_out list \<Rightarrow> layer list" where
  "muxed [] = []"
| "muxed (Start_mux s # os) = s # muxed os"
| "muxed (_ # os) = muxed os"

lemma muxed_append [simp]: "muxed (xs @ ys) = muxed xs @ muxed ys"
  by (induction xs rule: muxed.induct) auto

lemma accept_step_muxed:
  "muxed (snd (accept_step c ev a)) =
     (if accept_waiting (ac_phase a) then
        (case ac_phase (fst (accept_step c ev a)) of Muxing s \<Rightarrow> [s] | _ \<Rightarrow> []) else [])"
  "\<not> accept_waiting (ac_phase a) \<Longrightarrow> ac_phase (fst (accept_step c ev a)) = ac_phase a"
  by (cases ev; cases "ac_phase a"; auto simp: accept_defs split: if_splits prod.splits)+

lemma accept_run_muxed:
  "muxed (snd (accept_run c evs a)) =
     (if accept_waiting (ac_phase a) then
        (case ac_phase (fst (accept_run c evs a)) of Muxing s \<Rightarrow> [s] | _ \<Rightarrow> []) else [])
   \<and> (\<not> accept_waiting (ac_phase a) \<longrightarrow> ac_phase (fst (accept_run c evs a)) = ac_phase a)"
proof (induction evs arbitrary: a)
  case Nil
  then show ?case by (cases "ac_phase a") auto
next
  case (Cons ev evs)
  obtain a1 o1 where 1: "accept_step c ev a = (a1, o1)" by force
  obtain a2 o2 where 2: "accept_run c evs a1 = (a2, o2)" by force
  from Cons.IH [of a1] 2 accept_step_muxed [where c = c and ev = ev and a = a] 1
  show ?case
    by (cases "ac_phase a"; cases "ac_phase a1") simp_all
qed

text \<open>
  C29: For any sequence of completions and timeouts, an accepted connection starts at most one
  multiplexer; with TLS enabled it runs over TLS; and as long as the handshake has not ended, the
  connection is closed already or its timer still runs.
\<close>

theorem accept_handshake_safe:
  "case accept_run c evs (on_accept c) of (a, os) \<Rightarrow>
     length (muxed os) \<le> 1 \<and> (lc_ssl c \<longrightarrow> list_all has_ssl (muxed os)) \<and>
     (accept_waiting (ac_phase a) \<longrightarrow> ac_timer a \<or> ac_closed a)"
proof -
  obtain a os where r: "accept_run c evs (on_accept c) = (a, os)" by force
  have ok: "accept_ok c a" using accept_ok_run [OF accept_ok_on_accept, of c evs] r by simp
  have m: "muxed os = (if accept_waiting (ac_phase (on_accept c)) then
        (case ac_phase a of Muxing s \<Rightarrow> [s] | _ \<Rightarrow> []) else [])"
    using accept_run_muxed [of c evs "on_accept c"] r by simp
  show ?thesis using ok m unfolding r
    by (cases "ac_phase a") (auto simp: accept_ok_def)
qed

theorem accept_handshake_safe_witness:
  "accept_run \<lparr>lc_protocol = ''auto'', lc_ssl = True, lc_vhost_http = 0, lc_vhost_https = 0\<rparr>
     [Completed Success [0x16], Completed Success [], Completed Success [0]]
     (on_accept \<lparr>lc_protocol = ''auto'', lc_ssl = True, lc_vhost_http = 0, lc_vhost_https = 0\<rparr>) =
   (\<lparr>ac_phase = Muxing (Buffered 0 Ssl_stream), ac_stream = Some Ssl_stream, ac_closed = False, ac_timer = False\<rparr>,
    [Start_mux (Buffered 0 Ssl_stream)]) \<and>
   has_ssl (Buffered 0 Ssl_stream)"
  using accept_handshake_safe [of "\<lparr>lc_protocol = ''auto'', lc_ssl = True, lc_vhost_http = 0, lc_vhost_https = 0\<rparr>"
      "[Completed Success [0x16], Completed Success [], Completed Success [0]]"]
  by (simp add: on_accept_def accept_defs byte_of_char_def Let_def)

text \<open>
  Detection on an \<open>auto\<close> server: a connection that starts with a WebSocket request is given to a
  WebSocket stream, one that starts with a frame of the multiplexer to the multiplexer, and the
  byte that was read is put back: the next layer reads the whole connection from its start.
\<close>

theorem auto_detection:
  "on_first_byte Success (hd (bytes_of_string (ws_client_request key) @ rest)) s a =
     (a\<lparr>ac_phase := Ws_handshaking (Websocket_stream False (Buffered (byte_of_char (CHR ''G'')) s))\<rparr>, []) \<and>
   on_first_byte Success (hd (Header_encode (mk_header ty fl sid len) @ rest)) s a =
     (a\<lparr>ac_timer := False, ac_phase := Muxing (Buffered 0 s)\<rparr>, [Start_mux (Buffered 0 s)]) \<and>
   buffered_unread (\<lambda>u. u) (BufferedStream bs [b]) = b # bs"
  by (simp add: on_first_byte_def ws_client_request_def bytes_of_string_def Header_encode_def
      mk_header_def start_mux_def BufferedStream_def buffered_unread_def byte_of_char_def)

section \<open>QUIC sessions\<close>

text \<open>
  \<open>quic_sessions_\<close>, one session per UDP endpoint. \<open>is_quic\<close> is the result of
  \<open>ngtcp2_pkt_decode_version_cid\<close>; sessions are numbered in the order of creation.
\<close>

record quic_table =
  qt_sessions :: "(nat \<times> nat) list"
  qt_next :: nat
  qt_open :: bool

datatype udp_out =
    Udp_new_session nat nat
  | Udp_handle_packet nat nat bytes
  | Udp_read_again
  | Udp_read_after_ms nat
  | Udp_close_session nat

definition udp_reread :: "error_code \<Rightarrow> quic_table \<Rightarrow> udp_out list" where
  "udp_reread ec t =
     (if ec = Operation_aborted \<or> \<not> qt_open t then []
      else if ec \<noteq> Success then [Udp_read_after_ms 100] else [Udp_read_again])"

definition server_udp_read ::
    "(bytes \<Rightarrow> bool) \<Rightarrow> error_code \<Rightarrow> nat \<Rightarrow> bytes \<Rightarrow> quic_table \<Rightarrow> quic_table \<times> udp_out list" where
  "server_udp_read is_quic ec ep data t =
     (if ec \<noteq> Success then (t, udp_reread ec t)
      else
        (case map_of (qt_sessions t) ep of
           Some sid \<Rightarrow> (t, Udp_handle_packet ep sid data # udp_reread ec t)
         | None \<Rightarrow>
             if is_quic data
             then (t\<lparr>qt_sessions := AList.update ep (qt_next t) (qt_sessions t), qt_next := qt_next t + 1\<rparr>,
                   [Udp_new_session ep (qt_next t), Udp_handle_packet ep (qt_next t) data] @
                   udp_reread ec t)
             else (t, udp_reread ec t)))"

definition quic_session_closed :: "nat \<Rightarrow> quic_table \<Rightarrow> quic_table" where
  "quic_session_closed ep t = t\<lparr>qt_sessions := AList.delete ep (qt_sessions t)\<rparr>"

text \<open>The part of \<open>Server::Stop\<close> on QUIC: the callbacks are removed first.\<close>

definition Server_Stop_quic :: "quic_table \<Rightarrow> quic_table \<times> udp_out list" where
  "Server_Stop_quic t =
     (t\<lparr>qt_sessions := [], qt_open := False\<rparr>, map (Udp_close_session \<circ> snd) (qt_sessions t))"

datatype udp_event = Ue_read error_code nat bytes | Ue_closed nat | Ue_stop

fun udp_step :: "(bytes \<Rightarrow> bool) \<Rightarrow> udp_event \<Rightarrow> quic_table \<Rightarrow> quic_table \<times> udp_out list" where
  "udp_step is_quic (Ue_read ec ep data) t = server_udp_read is_quic ec ep data t"
| "udp_step is_quic (Ue_closed ep) t = (quic_session_closed ep t, [])"
| "udp_step is_quic Ue_stop t = Server_Stop_quic t"

fun udp_run :: "(bytes \<Rightarrow> bool) \<Rightarrow> udp_event list \<Rightarrow> quic_table \<Rightarrow> quic_table \<times> udp_out list" where
  "udp_run is_quic [] t = (t, [])"
| "udp_run is_quic (ev # evs) t =
     (case udp_step is_quic ev t of (t1, o1) \<Rightarrow>
      case udp_run is_quic evs t1 of (t2, o2) \<Rightarrow> (t2, o1 @ o2))"

text \<open>The sessions a list of effects creates, and the sessions it gives packets to.\<close>

fun created :: "udp_out list \<Rightarrow> (nat \<times> nat) list" where
  "created [] = []"
| "created (Udp_new_session ep sid # os) = (ep, sid) # created os"
| "created (_ # os) = created os"

fun served :: "udp_out list \<Rightarrow> (nat \<times> nat) list" where
  "served [] = []"
| "served (Udp_handle_packet ep sid d # os) = (ep, sid) # served os"
| "served (_ # os) = served os"

lemma created_append [simp]: "created (xs @ ys) = created xs @ created ys"
  by (induction xs rule: created.induct) auto

lemma served_append [simp]: "served (xs @ ys) = served xs @ served ys"
  by (induction xs rule: served.induct) auto

lemma reread_silent [simp]: "created (udp_reread ec t) = []" "served (udp_reread ec t) = []"
  by (simp_all add: udp_reread_def)

lemma closes_silent [simp]:
  "created (map (Udp_close_session \<circ> f) xs) = []" "served (map (Udp_close_session \<circ> f) xs) = []"
  by (induction xs) auto

lemma set_alist_update: "set (AList.update k v al) \<subseteq> insert (k, v) (set al)"
  by (induction al) auto

lemma udp_step_facts:
  assumes "udp_step is_quic ev t = (t1, os)"
  shows "set (qt_sessions t1) \<subseteq> set (qt_sessions t) \<union> set (created os)"
    and "set (served os) \<subseteq> set (qt_sessions t) \<union> set (created os)"
    and "map snd (created os) = [qt_next t ..< qt_next t1]"
    and "qt_next t \<le> qt_next t1"
proof -
  have *: "set (qt_sessions t1) \<subseteq> set (qt_sessions t) \<union> set (created os) \<and>
      set (served os) \<subseteq> set (qt_sessions t) \<union> set (created os) \<and>
      map snd (created os) = [qt_next t ..< qt_next t1] \<and> qt_next t \<le> qt_next t1"
  proof (cases ev)
    case (Ue_read ec ep data)
    with assms show ?thesis
      using map_of_SomeD [of "qt_sessions t" ep] set_alist_update [of ep "qt_next t" "qt_sessions t"]
      by (auto simp: server_udp_read_def split: if_splits option.splits)
  next
    case (Ue_closed ep)
    with assms delete_subset [of ep "qt_sessions t"] show ?thesis
      by (auto simp: quic_session_closed_def)
  next
    case Ue_stop
    with assms show ?thesis by (auto simp: Server_Stop_quic_def)
  qed
  then show "set (qt_sessions t1) \<subseteq> set (qt_sessions t) \<union> set (created os)"
    "set (served os) \<subseteq> set (qt_sessions t) \<union> set (created os)"
    "map snd (created os) = [qt_next t ..< qt_next t1]" "qt_next t \<le> qt_next t1" by blast+
qed

lemma udp_run_facts:
  assumes "udp_run is_quic evs t = (u, os)"
  shows "set (served os) \<subseteq> set (qt_sessions t) \<union> set (created os)
    \<and> map snd (created os) = [qt_next t ..< qt_next u] \<and> qt_next t \<le> qt_next u"
  using assms
proof (induction evs arbitrary: t u os)
  case (Cons ev evs)
  obtain t1 o1 where 1: "udp_step is_quic ev t = (t1, o1)" by force
  obtain o2 where 2: "udp_run is_quic evs t1 = (u, o2)" "os = o1 @ o2"
    using Cons.prems 1 by (auto split: prod.splits)
  have "[qt_next t ..< qt_next t1] @ [qt_next t1 ..< qt_next u] = [qt_next t ..< qt_next u]"
    using udp_step_facts(4) [OF 1] Cons.IH [OF 2(1)] by (metis le_add_diff_inverse upt_add_eq_append)
  with udp_step_facts [OF 1] Cons.IH [OF 2(1)] 2(2) show ?case by auto
qed simp

text \<open>
  Over any sequence of datagrams, closed sessions and stops, every session is created once and for
  one endpoint, and a session is only given the datagrams of the endpoint it was created for.
\<close>

theorem quic_sessions_separate:
  "case udp_run is_quic evs \<lparr>qt_sessions = [], qt_next = 0, qt_open = True\<rparr> of (t, os) \<Rightarrow>
     distinct (map snd (created os)) \<and> set (served os) \<subseteq> set (created os)"
proof -
  obtain t os where r: "udp_run is_quic evs \<lparr>qt_sessions = [], qt_next = 0, qt_open = True\<rparr> = (t, os)"
    by force
  from udp_run_facts [OF r] show ?thesis unfolding r by simp
qed
end
