(* ===== verification/Config.thy ===== *)
theory Config
  imports Client Buffer_Pool
begin

text \<open>
  What the program makes of its command line and its TOML files: \<open>src/main.cpp\<close>, the parsers of
  \<open>src/common/utils.h\<close>, and the reading of a \<open>conf.d\<close> file in \<open>src/client/client.cpp\<close>. The TOML
  library is third-party code: a document is a value of a type \<open>'n\<close> of nodes with the accessors
  that the code calls (\<open>toml_api\<close>). \<open>std::stoi\<close> and \<open>std::stoll\<close> are written out.
\<close>

section \<open>Numbers\<close>

definition is_space :: "char \<Rightarrow> bool" where
  "is_space c = (let n = of_char c :: nat in n = 32 \<or> (9 \<le> n \<and> n \<le> 13))"

definition is_digit :: "char \<Rightarrow> bool" where
  "is_digit c = (let n = of_char c :: nat in 48 \<le> n \<and> n \<le> 57)"

definition upper_char :: "char \<Rightarrow> char" where
  "upper_char c = (let n = of_char c :: nat in if 97 \<le> n \<and> n \<le> 122 then char_of (n - 32) else c)"

text \<open>
  \<open>strtol\<close>: the value of the longest numeral after optional white space and sign, and the
  number of characters consumed; \<open>stoll\<close> and \<open>stoi\<close> throw (\<open>None\<close>) without a numeral and
  outside the range of their type.
\<close>

definition strtol :: "string \<Rightarrow> (int \<times> nat) option" where
  "strtol s =
     (let s1 = dropWhile is_space s;
          neg = (s1 \<noteq> [] \<and> hd s1 = CHR ''-'');
          s2 = (if s1 \<noteq> [] \<and> (hd s1 = CHR ''-'' \<or> hd s1 = CHR ''+'') then tl s1 else s1);
          ds = takeWhile is_digit s2
      in if ds = [] then None
         else Some (if neg then - int (of_decimal ds) else int (of_decimal ds),
                    length s - length s2 + length ds))"

definition stoll :: "string \<Rightarrow> (int \<times> nat) option" where
  "stoll s =
     (case strtol s of None \<Rightarrow> None
      | Some (v, p) \<Rightarrow> if - (2 ^ 63) \<le> v \<and> v < 2 ^ 63 then Some (v, p) else None)"

definition stoi :: "string \<Rightarrow> int option" where
  "stoi s =
     (case strtol s of None \<Rightarrow> None
      | Some (v, p) \<Rightarrow> if - (2 ^ 31) \<le> v \<and> v < 2 ^ 31 then Some v else None)"

text \<open>
  \<open>ParseBandwidth\<close>. The product is one of signed 64-bit integers: its overflow is undefined
  behaviour (\<open>None\<close>).
\<close>

definition bandwidth_unit :: "char \<Rightarrow> int option" where
  "bandwidth_unit c =
     (let u = upper_char c
      in if u = CHR ''K'' then Some 1024
         else if u = CHR ''M'' then Some (1024 * 1024)
         else if u = CHR ''G'' then Some (1024 * 1024 * 1024) else None)"

definition ParseBandwidth :: "string \<Rightarrow> int option" where
  "ParseBandwidth s =
     (if s = [] then Some 0
      else
        (let (multiplier, val_s) =
               (case bandwidth_unit (last s) of Some m \<Rightarrow> (m, butlast s) | None \<Rightarrow> (1, s))
         in case stoll val_s of
              None \<Rightarrow> Some 0
            | Some (v, _) \<Rightarrow>
                if - (2 ^ 63) \<le> v * multiplier \<and> v * multiplier < 2 ^ 63
                then Some (v * multiplier) else None))"

text \<open>\<open>ParsePortRange\<close>; an exception is \<open>None\<close>.\<close>

definition ParsePortRange :: "string \<Rightarrow> (16 word \<times> 16 word) option" where
  "ParsePortRange s =
     (case find_sub ''-'' s of
        Some dash \<Rightarrow>
          (case (stoi (take dash s), stoi (drop (dash + 1) s)) of
             (Some lo, Some hi) \<Rightarrow> Some (word_of_int lo, word_of_int hi)
           | _ \<Rightarrow> None)
      | None \<Rightarrow> map_option (\<lambda>p. (word_of_int p, word_of_int p)) (stoi s))"

section \<open>Log levels\<close>

datatype LogLevel = L_None | L_Error | L_Info | L_Debug

definition SetLevel :: "string \<Rightarrow> LogLevel \<Rightarrow> LogLevel" where
  "SetLevel level_s cur =
     (let s = map lower_char level_s
      in if s = ''none'' \<or> s = ''0'' then L_None
         else if s = ''error'' \<or> s = ''1'' then L_Error
         else if s = ''info'' \<or> s = ''2'' then L_Info
         else if s = ''debug'' \<or> s = ''3'' then L_Debug
         else cur)"

text \<open>The levels are ordered as the numbers of the enumeration.\<close>

fun level_number :: "LogLevel \<Rightarrow> nat" where
  "level_number L_None = 0"
| "level_number L_Error = 1"
| "level_number L_Info = 2"
| "level_number L_Debug = 3"

lemma level_number_inj: "level_number a = level_number b \<longleftrightarrow> a = b"
  by (cases a; cases b) simp_all

instantiation LogLevel :: linorder
begin

definition less_eq_LogLevel :: "LogLevel \<Rightarrow> LogLevel \<Rightarrow> bool" where
  "less_eq_LogLevel a b = (level_number a \<le> level_number b)"

definition less_LogLevel :: "LogLevel \<Rightarrow> LogLevel \<Rightarrow> bool" where
  "less_LogLevel a b = (level_number a < level_number b)"

instance
  by standard (auto simp: less_eq_LogLevel_def less_LogLevel_def level_number_inj)

end

text \<open>
  \<open>Logger::Error\<close>, \<open>Info\<close> and \<open>Debug\<close>: a message of a kind is written when the level is at least
  that kind, errors to the standard error output (\<open>True\<close>). \<open>stamp\<close> is the time stamp.
\<close>

definition log_message :: "string \<Rightarrow> LogLevel \<Rightarrow> string \<Rightarrow> LogLevel \<Rightarrow> (bool \<times> string) option" where
  "log_message stamp kind msg level =
     (if kind \<noteq> L_None \<and> kind \<le> level
      then Some (kind = L_Error, stamp @ (if kind = L_Debug then ''[DEBUG] '' else '''') @ msg)
      else None)"

lemma log_message_monotone:
  "level \<le> level' \<Longrightarrow> log_message stamp kind msg level \<noteq> None \<Longrightarrow>
     log_message stamp kind msg level' = log_message stamp kind msg level"
  unfolding log_message_def by (cases "kind \<noteq> L_None \<and> kind \<le> level") (auto dest: order_trans)

lemma SetLevel_unknown_keeps: "SetLevel ''verbose'' cur = cur"
  by (simp add: SetLevel_def lower_char_def)

section \<open>TOML documents\<close>

text \<open>
  \<open>tm_at\<close> is the subscript of a node view, \<open>tm_string\<close>, \<open>tm_integer\<close>, \<open>tm_array\<close> and
  \<open>tm_table\<close> are \<open>as_string\<close> and so on, \<open>tm_int\<close> and \<open>tm_bool\<close> are \<open>value<int>\<close> and \<open>value<bool>\<close> with the conversions of the
  library.
\<close>

record 'n toml_api =
  tm_at :: "'n \<Rightarrow> string \<Rightarrow> 'n option"
  tm_string :: "'n \<Rightarrow> string option"
  tm_integer :: "'n \<Rightarrow> int option"
  tm_int :: "'n \<Rightarrow> int option"
  tm_array :: "'n \<Rightarrow> 'n list option"
  tm_table :: "'n \<Rightarrow> bool"
  tm_bool :: "'n \<Rightarrow> bool option"

definition get_string :: "'n toml_api \<Rightarrow> 'n \<Rightarrow> string \<Rightarrow> string option" where
  "get_string T n k = Option.bind (tm_at T n k) (tm_string T)"

definition get_int :: "'n toml_api \<Rightarrow> 'n \<Rightarrow> string \<Rightarrow> int option" where
  "get_int T n k = Option.bind (tm_at T n k) (tm_int T)"

definition get_bool :: "'n toml_api \<Rightarrow> 'n \<Rightarrow> string \<Rightarrow> bool option" where
  "get_bool T n k = Option.bind (tm_at T n k) (tm_bool T)"

definition value_or :: "'a option \<Rightarrow> 'a \<Rightarrow> 'a" where
  "value_or v d = (case v of Some x \<Rightarrow> x | None \<Rightarrow> d)"

text \<open>The range of \<open>int\<close>, the documented result of \<open>value<int>\<close>.\<close>

definition toml_ints :: "'n toml_api \<Rightarrow> bool" where
  "toml_ints T \<longleftrightarrow> (\<forall>n i. tm_int T n = Some i \<longrightarrow> - (2 ^ 31) \<le> i \<and> i < 2 ^ 31)"

subsection \<open>Buffer pools\<close>

definition size_of_int :: "int \<Rightarrow> nat" where
  "size_of_int i = unat (word_of_int i :: 64 word)"

definition ParsePoolConfig :: "'n toml_api \<Rightarrow> 'n \<Rightarrow> pool_config" where
  "ParsePoolConfig T n =
     \<lparr>buffer_size = size_of_int (value_or (get_int T n ''buffer_size'') 0),
      initial_count = size_of_int (value_or (get_int T n ''initial_count'') 0),
      max_count = size_of_int (value_or (get_int T n ''max_count'') 0)\<rparr>"

definition pool_configs :: "'n toml_api \<Rightarrow> 'n list \<Rightarrow> pool_config list" where
  "pool_configs T elems =
     filter (\<lambda>c. 0 < buffer_size c) (map (ParsePoolConfig T) (filter (tm_table T) elems))"

definition ParseBufferPool :: "'n toml_api \<Rightarrow> 'n option \<Rightarrow> pool" where
  "ParseBufferPool T node =
     (case node of
        None \<Rightarrow> CreateDefault
      | Some n \<Rightarrow>
          (let perf = (case tm_at T n ''performance'' of
                         Some p \<Rightarrow> if tm_table T p then Some p else None | None \<Rightarrow> None);
               profile = (case perf of Some p \<Rightarrow> value_or (get_string T p ''memory_profile'') ''low''
                          | None \<Rightarrow> ''low'');
               pool_node = (case Option.bind perf (\<lambda>p. tm_at T p ''buffer_pool'') of
                              Some b \<Rightarrow> Some b | None \<Rightarrow> tm_at T n ''buffer_pool'');
               configs = (case Option.bind pool_node (tm_array T) of
                            Some elems \<Rightarrow> pool_configs T elems | None \<Rightarrow> [])
           in if configs \<noteq> [] then BufferPool configs else CreateByProfile profile))"

subsection \<open>The port policy\<close>

definition parse_allowed_port :: "'n toml_api \<Rightarrow> 'n \<Rightarrow> (16 word \<times> 16 word) list" where
  "parse_allowed_port T elem =
     (case tm_string T elem of
        Some s \<Rightarrow> (case ParsePortRange s of Some r \<Rightarrow> [r] | None \<Rightarrow> [])
      | None \<Rightarrow>
          (case tm_integer T elem of
             Some i \<Rightarrow> [(word_of_int i, word_of_int i)] | None \<Rightarrow> []))"

definition parse_allowed_ports :: "'n toml_api \<Rightarrow> 'n \<Rightarrow> (16 word \<times> 16 word) list" where
  "parse_allowed_ports T server =
     (case Option.bind (tm_at T server ''allowed_ports'') (tm_array T) of
        Some elems \<Rightarrow> concat (map (parse_allowed_port T) elems) | None \<Rightarrow> [])"

definition parse_allowed_clients :: "'n toml_api \<Rightarrow> 'n \<Rightarrow> string list" where
  "parse_allowed_clients T server =
     (case Option.bind (tm_at T server ''allowed_clients'') (tm_array T) of
        Some elems \<Rightarrow> List.map_filter (tm_string T) elems | None \<Rightarrow> [])"

subsection \<open>Proxies\<close>

definition parse_domains :: "'n toml_api \<Rightarrow> 'n \<Rightarrow> string list" where
  "parse_domains T n =
     (case tm_at T n ''custom_domains'' of
        None \<Rightarrow> []
      | Some v \<Rightarrow>
          (case tm_array T v of
             Some ds \<Rightarrow> List.map_filter (tm_string T) ds
           | None \<Rightarrow> (case tm_string T v of Some d \<Rightarrow> [d] | None \<Rightarrow> [])))"

definition parse_limit :: "'n toml_api \<Rightarrow> 'n \<Rightarrow> int option" where
  "parse_limit T n =
     (case tm_at T n ''bandwidth_limit'' of
        None \<Rightarrow> Some 0
      | Some v \<Rightarrow>
          (case tm_string T v of
             Some bw \<Rightarrow> ParseBandwidth bw
           | None \<Rightarrow> Some (value_or (tm_integer T v) 0)))"

text \<open>A \<open>[[proxies]]\<close> element of the main file; \<open>None\<close> when the bandwidth overflows.\<close>

definition parse_proxy :: "'n toml_api \<Rightarrow> 'n \<Rightarrow> ProxyConfig option" where
  "parse_proxy T n =
     map_option (\<lambda>bw.
       \<lparr>pc_name = value_or (get_string T n ''name'') '''',
        pc_type = value_or (get_string T n ''type'') ''tcp'',
        pc_local_ip = value_or (get_string T n ''local_ip'') ''127.0.0.1'',
        pc_local_port = word_of_int (value_or (get_int T n ''local_port'') 0),
        pc_remote_port = word_of_int (value_or (get_int T n ''remote_port'') 0),
        pc_custom_domains = parse_domains T n,
        pc_bandwidth_limit = word_of_int bw\<rparr>) (parse_limit T n)"

text \<open>
  The files of \<open>conf_d\<close> in the order of the directory scan, each with its stem and the parsed
  document (\<open>None\<close> when the parser throws): the assignments to \<open>new_proxies\<close>, in their order.
\<close>

definition parse_conf_file :: "'n toml_api \<Rightarrow> string \<Rightarrow> 'n \<Rightarrow> ProxyConfig option" where
  "parse_conf_file T stem data =
     map_option (\<lambda>pc. if pc_name pc = '''' then pc\<lparr>pc_name := stem\<rparr> else pc) (parse_proxy T data)"

fun scan_conf_d :: "'n toml_api \<Rightarrow> (string \<times> 'n option) list \<Rightarrow> ProxyConfig list option" where
  "scan_conf_d T [] = Some []"
| "scan_conf_d T ((stem, None) # files) = scan_conf_d T files"
| "scan_conf_d T ((stem, Some data) # files) =
     (case parse_conf_file T stem data of
        None \<Rightarrow> None
      | Some pc \<Rightarrow>
          (if pc_name pc \<noteq> '''' then map_option ((#) pc) (scan_conf_d T files)
           else scan_conf_d T files))"

subsection \<open>Threads\<close>

definition threads_of :: "'n toml_api \<Rightarrow> 'n \<Rightarrow> int" where
  "threads_of T s =
     value_or (Option.bind (tm_at T s ''performance'') (\<lambda>p. get_int T p ''threads''))
       (value_or (get_int T s ''threads'') 2)"

definition thread_count :: "'n toml_api \<Rightarrow> 32 word \<Rightarrow> 'n \<Rightarrow> 32 word" where
  "thread_count T hardware config =
     (let n = (case tm_at T config ''server'' of
                 Some s \<Rightarrow> word_of_int (threads_of T s)
               | None \<Rightarrow> (case tm_at T config ''client'' of
                            Some c \<Rightarrow> word_of_int (threads_of T c) | None \<Rightarrow> 2))
      in if n = 0 then (if hardware = 0 then 2 else hardware) else n)"

section \<open>The command line\<close>

record cli =
  cli_config :: string
  cli_ca :: string
  cli_token :: string
  cli_level :: LogLevel

datatype cli_result = Cli_exit nat | Cli_run cli

fun parse_args :: "string list \<Rightarrow> cli \<Rightarrow> cli_result" where
  "parse_args [] c = Cli_run c"
| "parse_args (arg # rest) c =
     (if (arg = ''--ca'' \<or> arg = ''-c'') \<and> rest \<noteq> []
      then parse_args (tl rest) (c\<lparr>cli_ca := hd rest\<rparr>)
      else if (arg = ''-t'' \<or> arg = ''--token'') \<and> rest \<noteq> []
      then parse_args (tl rest) (c\<lparr>cli_token := hd rest\<rparr>)
      else if (arg = ''-l'' \<or> arg = ''--log-level'') \<and> rest \<noteq> []
      then parse_args (tl rest) (c\<lparr>cli_level := SetLevel (hd rest) (cli_level c)\<rparr>)
      else if arg = ''-v'' \<or> arg = ''--version'' then Cli_exit 0
      else if arg = ''-h'' \<or> arg = ''--help'' then Cli_exit 0
      else if arg \<noteq> [] \<and> hd arg \<noteq> CHR ''-''
      then (if cli_config c = '''' then parse_args rest (c\<lparr>cli_config := arg\<rparr>) else Cli_exit 1)
      else parse_args rest c)"

text \<open>Which configuration is used; \<open>Generate\<close> writes a default file first.\<close>

datatype startup = Start_exit nat | Use_config string | Generate_client string string | Generate_server

definition select_config :: "(string \<Rightarrow> bool) \<Rightarrow> cli \<Rightarrow> startup" where
  "select_config exists c =
     (let path = (if cli_config c \<noteq> '''' then cli_config c
                  else if exists ''server.toml'' then ''server.toml''
                  else if exists ''client.toml'' then ''client.toml'' else '''');
          ca = (if path \<noteq> '''' then '''' else cli_ca c);
          token = (if path \<noteq> '''' then '''' else cli_token c)
      in if (ca \<noteq> '''') \<noteq> (token \<noteq> '''') then Start_exit 1
         else if path \<noteq> '''' then Use_config path
         else if ca \<noteq> '''' then Generate_client ca token else Generate_server)"

datatype run_mode = Run_server | Run_client | Run_fail

definition select_mode :: "'n toml_api \<Rightarrow> bool \<Rightarrow> 'n \<Rightarrow> run_mode" where
  "select_mode T ca_provided config =
     (if tm_at T config ''server'' \<noteq> None \<and> \<not> ca_provided then Run_server
      else if tm_at T config ''client'' \<noteq> None \<or> tm_at T config ''server'' \<noteq> None \<and> ca_provided
      then Run_client else Run_fail)"

section \<open>\<open>cfrp config set\<close>\<close>

definition format_value :: "string \<Rightarrow> string" where
  "format_value v =
     (let is_bool = (v = ''true'' \<or> v = ''false'');
          is_num = (v \<noteq> '''' \<and> (case stoll v of Some (_, pos) \<Rightarrow> pos = length v | None \<Rightarrow> False))
      in if \<not> is_bool \<and> \<not> is_num then [CHR 0x22] @ v @ [CHR 0x22] else v)"

definition blanks :: string where "blanks = [CHR '' '', CHR 0x09]"

definition line_key :: "string \<Rightarrow> string option" where
  "line_key line =
     map_option (\<lambda>eq. trim_right blanks (trim_left blanks (take eq line))) (find_sub ''='' line)"

fun replace_line :: "string \<Rightarrow> string \<Rightarrow> string list \<Rightarrow> string list" where
  "replace_line key new [] = [new]"
| "replace_line key new (line # ls) =
     (if line_key line = Some key then new # ls else line # replace_line key new ls)"

definition config_set :: "string \<Rightarrow> string \<Rightarrow> string list \<Rightarrow> string list" where
  "config_set key v ls = replace_line key (key @ '' = '' @ format_value v) ls"

section \<open>Numbers: lemmas\<close>

lemma digit_char_nat: "n < 10 \<Longrightarrow> (of_char (digit_char n) :: nat) = 48 + n"
  by (simp add: digit_char_def)

lemma is_digit_digit_char: "n < 10 \<Longrightarrow> is_digit (digit_char n)"
  by (simp add: is_digit_def digit_char_nat)

lemma to_string_digits: "to_string n \<noteq> [] \<and> list_all is_digit (to_string n)"
proof (induction n rule: to_string.induct)
  case (1 n)
  then show ?case by (subst (1 2) to_string.simps) (auto simp: is_digit_digit_char)
qed

lemma is_digit_others:
  "is_digit c \<Longrightarrow> \<not> is_space c \<and> c \<noteq> CHR ''-'' \<and> c \<noteq> CHR ''+'' \<and> bandwidth_unit c = None"
  by (auto simp: is_digit_def is_space_def bandwidth_unit_def upper_char_def Let_def)

lemma strtol_to_string:
  assumes "rest = [] \<or> \<not> is_digit (hd rest)"
  shows "strtol (to_string n @ rest) = Some (int n, length (to_string n))"
proof -
  obtain d ds where t: "to_string n = d # ds" using to_string_digits [of n] by (cases "to_string n") auto
  then have d: "is_digit d" "list_all is_digit (d # ds)" using to_string_digits [of n] by simp_all
  have "takeWhile is_digit rest = []" using assms by (cases rest) auto
  then have "takeWhile is_digit (d # ds @ rest) = d # ds"
    using d(2) takeWhile_append2 [of "d # ds" is_digit rest] by (simp add: list_all_iff)
  with d is_digit_others [OF d(1)] of_decimal_to_string [of n] show ?thesis
    unfolding t by (simp add: strtol_def Let_def)
qed

lemma stoll_to_string:
  assumes "rest = [] \<or> \<not> is_digit (hd rest)" and "int n < 2 ^ 63"
  shows "stoll (to_string n @ rest) = Some (int n, length (to_string n))"
  using assms strtol_to_string [OF assms(1)] by (simp add: stoll_def)

lemma stoi_to_string: "int n < 2 ^ 31 \<Longrightarrow> stoi (to_string n) = Some (int n)"
  using strtol_to_string [of "[]" n] by (simp add: stoi_def)

text \<open>
  A bandwidth limit written as a number, with one of the units K, M and G in either case or none,
  is read as that number of bytes per second. A longer unit is not understood as such: \<open>10KB\<close> is
  10 bytes per second, because \<open>std::stoll\<close> ignores what follows the number.
\<close>

theorem parse_bandwidth_units:
  assumes "bandwidth_unit c = Some m" and "int n * m < 2 ^ 63"
  shows "ParseBandwidth (to_string n @ [c]) = Some (int n * m) \<and>
     ParseBandwidth (to_string n) = Some (int n) \<and>
     ParseBandwidth (to_string n @ [c, CHR ''B'']) = Some (int n)"
proof -
  have m: "1 \<le> m" using assms(1) by (auto simp: bandwidth_unit_def Let_def split: if_splits)
  then have "int n * 1 \<le> int n * m" by (intro mult_left_mono) auto
  then have n: "int n < 2 ^ 63" using assms(2) by simp
  have nd: "\<not> is_digit c" using assms(1) is_digit_others [of c] by auto
  have "is_digit (last (to_string n))" using to_string_digits [of n] by (simp add: list_all_iff)
  then have l: "bandwidth_unit (last (to_string n)) = None" by (simp add: is_digit_others)
  have b: "bandwidth_unit (CHR ''B'') = None" by (simp add: bandwidth_unit_def upper_char_def)
  have low: "- (2 ^ 63) \<le> int n * m" "- (2 ^ 63) \<le> int n" using m by (auto intro: order_trans [of _ 0])
  have "ParseBandwidth (to_string n @ [c]) = Some (int n * m)"
    using assms low(1) stoll_to_string [of "[]" n] n by (simp add: ParseBandwidth_def)
  moreover have "ParseBandwidth (to_string n) = Some (int n)"
    using l n low(2) stoll_to_string [of "[]" n] to_string_digits [of n] by (simp add: ParseBandwidth_def)
  moreover have "ParseBandwidth (to_string n @ [c, CHR ''B'']) = Some (int n)"
    using b n nd low(2) stoll_to_string [of "[c, CHR ''B'']" n] by (simp add: ParseBandwidth_def)
  ultimately show ?thesis by blast
qed

theorem parse_bandwidth_units_witness: "ParseBandwidth (to_string 1 @ ''M'') = Some 1048576"
  using parse_bandwidth_units [of "CHR ''M''" "1048576" 1] by (simp add: bandwidth_unit_def upper_char_def)

section \<open>The port policy\<close>

text \<open>A concrete document type, for the instances below.\<close>

datatype toml = T_str string | T_int int | T_bool bool | T_arr "toml list" | T_tab "(string \<times> toml) list"

fun toml_at :: "toml \<Rightarrow> string \<Rightarrow> toml option" where
  "toml_at (T_tab es) k = map_of es k"
| "toml_at _ k = None"

definition toml_doc :: "toml toml_api" where
  "toml_doc =
     \<lparr>tm_at = toml_at, tm_string = (\<lambda>n. case n of T_str s \<Rightarrow> Some s | _ \<Rightarrow> None),
      tm_integer = (\<lambda>n. case n of T_int i \<Rightarrow> Some i | _ \<Rightarrow> None),
      tm_int = (\<lambda>n. case n of T_int i \<Rightarrow> if - (2 ^ 31) \<le> i \<and> i < 2 ^ 31 then Some i else None | _ \<Rightarrow> None),
      tm_array = (\<lambda>n. case n of T_arr xs \<Rightarrow> Some xs | _ \<Rightarrow> None),
      tm_table = (\<lambda>n. case n of T_tab es \<Rightarrow> True | _ \<Rightarrow> False),
      tm_bool = (\<lambda>n. case n of T_bool b \<Rightarrow> Some b | _ \<Rightarrow> None)\<rparr>"

lemma toml_doc_simps [simp]:
  "tm_at toml_doc = toml_at" "tm_array toml_doc (T_arr xs) = Some xs"
  "tm_string toml_doc (T_str s) = Some s" "tm_integer toml_doc (T_int i) = Some i"
  "tm_bool toml_doc (T_bool b) = Some b" "tm_table toml_doc (T_tab es)"
  by (simp_all add: toml_doc_def)

lemma parse_port_range:
  assumes "lo < 65536" and "hi < 65536"
  shows "ParsePortRange (to_string lo @ ''-'' @ to_string hi) = Some (word_of_nat lo, word_of_nat hi)"
proof -
  have "CHR ''-'' \<notin> set (to_string lo)"
    using to_string_digits [of lo] is_digit_others by (auto simp: list_all_iff)
  then have "find_sub ''-'' (to_string lo @ ''-'' @ to_string hi) = Some (length (to_string lo))"
    using find_sub_first [of "CHR ''-''" "to_string lo" "[]" "to_string hi"] by simp
  with assms stoi_to_string [of lo] stoi_to_string [of hi] show ?thesis
    by (simp add: ParsePortRange_def)
qed

text \<open>
  An entry \<open>lo-hi\<close> of \<open>allowed_ports\<close> permits exactly the ports from \<open>lo\<close> to \<open>hi\<close>.
\<close>

theorem configured_port_range:
  assumes "tm_at T server ''allowed_ports'' = Some a" and "tm_array T a = Some [e]"
    and "tm_string T e = Some (to_string lo @ ''-'' @ to_string hi)"
    and "lo < 65536" and "hi < 65536"
  shows "IsPortAllowed p (new_server token (parse_allowed_ports T server) clients) \<longleftrightarrow>
     lo \<le> unat p \<and> unat p \<le> hi"
  using parse_port_range [OF assms(4,5)] assms
  by (simp add: parse_allowed_ports_def parse_allowed_port_def IsPortAllowed_def new_server_def
      word_le_nat_alt unat_word16)

theorem configured_port_range_witness:
  "\<not> IsPortAllowed 443 (new_server ''secret'' (parse_allowed_ports toml_doc
      (T_tab [(''allowed_ports'', T_arr [T_str (to_string 8000 @ ''-'' @ to_string 9000)])])) [])"
  using configured_port_range [of toml_doc
      "T_tab [(''allowed_ports'', T_arr [T_str (to_string 8000 @ ''-'' @ to_string 9000)])]"
      "T_arr [T_str (to_string 8000 @ ''-'' @ to_string 9000)]"
      "T_str (to_string 8000 @ ''-'' @ to_string 9000)" 8000 9000 443 "''secret''" "[]"]
  by simp

text \<open>
  Entries that cannot be parsed are dropped, and an empty list means that every port is allowed:
  a policy of which no entry is understood permits everything.
\<close>

theorem unparsed_policy_allows_all:
  assumes "tm_at T server ''allowed_ports'' = Some a" and "tm_array T a = Some elems"
    and "list_all (\<lambda>e. case tm_string T e of Some s \<Rightarrow> ParsePortRange s = None | None \<Rightarrow> tm_integer T e = None) elems"
  shows "IsPortAllowed p (new_server token (parse_allowed_ports T server) clients)"
proof -
  have "parse_allowed_port T e = []" if "e \<in> set elems" for e
    using that assms(3) by (auto simp: list_all_iff parse_allowed_port_def split: option.splits)
  then have "concat (map (parse_allowed_port T) elems) = []" by simp
  with assms(1,2) show ?thesis
    by (simp add: parse_allowed_ports_def IsPortAllowed_def new_server_def)
qed

theorem unparsed_policy_allows_all_witness:
  "IsPortAllowed 22 (new_server ''secret'' (parse_allowed_ports toml_doc
      (T_tab [(''allowed_ports'', T_arr [T_str ''http'', T_str ''-9000''])])) [])"
  by (rule unparsed_policy_allows_all [where a = "T_arr [T_str ''http'', T_str ''-9000'']"
        and elems = "[T_str ''http'', T_str ''-9000'']"])
     (simp_all add: ParsePortRange_def stoi_def strtol_def is_space_def is_digit_def Let_def)

text \<open>A port above 65535 is taken modulo 65536.\<close>

lemma parse_port_wraps:
  assumes "int n < 2 ^ 31"
  shows "ParsePortRange (to_string n) = Some (word_of_nat n, word_of_nat n)"
proof -
  have "CHR ''-'' \<notin> set (to_string n)"
    using to_string_digits [of n] is_digit_others by (auto simp: list_all_iff)
  then have "find_sub ''-'' (to_string n) = None"
    by (auto simp: find_sub_None_iff)
  with stoi_to_string [OF assms] show ?thesis by (simp add: ParsePortRange_def)
qed

section \<open>Where settings are looked up\<close>

text \<open>
  The number of threads comes from the server's or the client's table, never from a table
  \<open>[performance]\<close> at the top of the file; the server's buffer pool comes only from the top of the
  file. The example \<open>server.toml\<close> puts both at the top, the generated one both in the server's table.
\<close>

lemma threads_ignore_top_level:
  assumes "tm_at T config ''server'' = Some s" and "tm_at T s ''performance'' = None"
    and "tm_at T s ''threads'' = None"
  shows "thread_count T hardware config = 2"
  using assms by (simp add: thread_count_def threads_of_def get_int_def value_or_def)

lemma server_pool_ignores_server_table:
  assumes "tm_at T config ''performance'' = None" and "tm_at T config ''buffer_pool'' = None"
  shows "ParseBufferPool T (Some config) = CreateByProfile ''low''"
  using assms by (simp add: ParseBufferPool_def)

section \<open>The settings file\<close>

lemma replace_line_first:
  assumes "list_all (\<lambda>l. line_key l \<noteq> Some key) xs" and "line_key l = Some key"
  shows "replace_line key new (xs @ l # ys) = xs @ new # ys"
  using assms by (induction xs) auto

lemma replace_line_absent:
  assumes "list_all (\<lambda>l. line_key l \<noteq> Some key) ls"
  shows "replace_line key new ls = ls @ [new]"
  using assms by (induction ls) auto

lemma line_key_set:
  assumes "key \<noteq> []" and "CHR ''='' \<notin> set key" and "hd key \<notin> set blanks" and "last key \<notin> set blanks"
  shows "line_key (key @ '' = '' @ v) = Some key"
proof -
  have "CHR ''='' \<notin> set (key @ '' '')" using assms(2) by simp
  then have f: "find_sub ''='' ((key @ '' '') @ CHR ''='' # [] @ ('' '' @ v)) = Some (length (key @ '' ''))"
    by (rule find_sub_first)
  have l: "trim_left blanks (key @ '' '') = key @ '' ''"
    using assms(1,3) by (cases key) (auto simp: trim_left_def)
  have "trim_right blanks (key @ '' '') = key"
    using assms(4) by (intro trim_right_append_blank) (auto simp: blanks_def)
  with f l show ?thesis by (simp add: line_key_def)
qed

lemma replace_line_twice:
  assumes "line_key new = Some key" and "line_key new' = Some key"
  shows "replace_line key new (replace_line key new' ls) = replace_line key new ls"
  using assms by (induction ls) auto

text \<open>
  \<open>cfrp config set\<close> changes at most one line, and the last of two values set for a key is the one
  that stays: setting a key twice is setting it once with the second value.
\<close>

theorem config_set_last_wins:
  assumes "key \<noteq> []" and "CHR ''='' \<notin> set key" and "hd key \<notin> set blanks" and "last key \<notin> set blanks"
  shows "config_set key v (config_set key w ls) = config_set key v ls"
  unfolding config_set_def by (intro replace_line_twice line_key_set assms)

theorem config_set_last_wins_witness:
  "config_set ''working_mode'' ''background'' (config_set ''working_mode'' ''foreground'' [''# settings'']) =
   config_set ''working_mode'' ''background'' [''# settings'']"
  by (rule config_set_last_wins) (simp_all add: blanks_def)

section \<open>The command line\<close>

lemma config_file_overrides:
  assumes "cli_config c \<noteq> ''''"
  shows "select_config exists c = Use_config (cli_config c)"
  using assms by (simp add: select_config_def)

lemma ca_and_token_go_together:
  assumes "cli_config c = ''''" and "\<not> exists ''server.toml''" and "\<not> exists ''client.toml''"
  shows "select_config exists c =
    (if (cli_ca c = '''') \<noteq> (cli_token c = '''') then Start_exit 1
     else if cli_ca c = '''' then Generate_server else Generate_client (cli_ca c) (cli_token c))"
  using assms by (auto simp: select_config_def)

end
