(* ===== verification/Mgmt.thy ===== *)
theory Mgmt
  imports Work_Conn Websocket
begin

text \<open>
  The management server (\<open>src/server/mgmt/mgmt_server.cpp\<close>): one HTTP request per connection, basic
  authentication, and two JSON documents made from the statistics that \<open>Server\<close>, the control
  sessions and the listeners collect. Base64 is third-party code and an argument; the connection
  delivers the text that \<open>async_read_until\<close> has read.
\<close>

section \<open>Statistics\<close>

record traffic_stats =
  bytes_sent :: "64 word"
  bytes_received :: "64 word"

record proxy_stats =
  ps_name :: string
  ps_type :: string
  ps_port :: "16 word"
  ps_active_conns :: "32 word"
  ps_total_conns :: "32 word"
  ps_bytes_sent :: "64 word"
  ps_bytes_received :: "64 word"

record client_info =
  ci_name :: string
  ci_endpoint :: string
  ci_protocol :: string
  ci_proxies :: "proxy_stats list"

text \<open>\<open>total_conns_\<close> has 64 bits in the listener and 32 in the statistics.\<close>

definition listener_GetStats :: "string \<Rightarrow> 16 word \<Rightarrow> listener_stats \<Rightarrow> traffic_stats \<Rightarrow> proxy_stats" where
  "listener_GetStats name port l st =
     \<lparr>ps_name = name, ps_type = ''tcp'', ps_port = port, ps_active_conns = active_conns l,
      ps_total_conns = ucast (total_conns l), ps_bytes_sent = bytes_sent st,
      ps_bytes_received = bytes_received st\<rparr>"

definition udp_GetStats :: "string \<Rightarrow> 16 word \<Rightarrow> 64 word \<Rightarrow> traffic_stats \<Rightarrow> proxy_stats" where
  "udp_GetStats name port tot st =
     \<lparr>ps_name = name, ps_type = ''udp'', ps_port = port, ps_active_conns = 0,
      ps_total_conns = ucast tot, ps_bytes_sent = bytes_sent st,
      ps_bytes_received = bytes_received st\<rparr>"

definition session_GetInfo ::
    "string \<Rightarrow> string \<Rightarrow> string \<Rightarrow> proxy_stats list \<Rightarrow> proxy_stats list \<Rightarrow> client_info" where
  "session_GetInfo name endpoint protocol tcp_stats udp_stats =
     \<lparr>ci_name = name, ci_endpoint = endpoint, ci_protocol = protocol,
      ci_proxies = tcp_stats @ udp_stats\<rparr>"

text \<open>A session of the table may be gone (\<open>None\<close>).\<close>

definition GetClientsInfo :: "(string \<times> client_info option) list \<Rightarrow> client_info list" where
  "GetClientsInfo ss = List.map_filter snd ss"

definition GetTotalStats :: "(string \<times> client_info option) list \<Rightarrow> traffic_stats" where
  "GetTotalStats ss =
     \<lparr>bytes_sent = sum_list (map ps_bytes_sent (concat (map ci_proxies (GetClientsInfo ss)))),
      bytes_received = sum_list (map ps_bytes_received (concat (map ci_proxies (GetClientsInfo ss))))\<rparr>"

section \<open>JSON\<close>

definition quote :: string where "quote = [CHR 0x22]"

definition json_key :: "string \<Rightarrow> string" where
  "json_key k = quote @ k @ quote @ '': ''"

definition json_text :: "string \<Rightarrow> string \<Rightarrow> string" where
  "json_text k v = json_key k @ quote @ v @ quote"

text \<open>A signed number as the stream writes it.\<close>

definition int_text :: "32 word \<Rightarrow> string" where
  "int_text w = (if sint w < 0 then ''-'' @ to_string (nat (- sint w)) else to_string (nat (sint w)))"

fun comma_separated :: "string list \<Rightarrow> string" where
  "comma_separated [] = ''''"
| "comma_separated [x] = x"
| "comma_separated (x # xs) = x @ '','' @ comma_separated xs"

definition GetStatusJson :: "string \<Rightarrow> traffic_stats \<Rightarrow> string" where
  "GetStatusJson version tot =
     ''{'' @ json_text ''version'' version @ '','' @ json_text ''status'' ''running'' @ '','' @
     json_key ''total_bytes_sent'' @ to_string (unat (bytes_sent tot)) @ '','' @
     json_key ''total_bytes_received'' @ to_string (unat (bytes_received tot)) @ ''}''"

definition proxy_json :: "proxy_stats \<Rightarrow> string" where
  "proxy_json p =
     ''{'' @ json_text ''name'' (ps_name p) @ '','' @ json_text ''type'' (ps_type p) @ '','' @
     json_key ''port'' @ to_string (unat (ps_port p)) @ '','' @
     json_key ''active_conns'' @ int_text (ps_active_conns p) @ '','' @
     json_key ''total_conns'' @ int_text (ps_total_conns p) @ '','' @
     json_key ''bytes_sent'' @ to_string (unat (ps_bytes_sent p)) @ '','' @
     json_key ''bytes_received'' @ to_string (unat (ps_bytes_received p)) @ ''}''"

definition client_json :: "client_info \<Rightarrow> string" where
  "client_json c =
     ''{'' @ json_text ''name'' (ci_name c) @ '','' @ json_text ''endpoint'' (ci_endpoint c) @ '','' @
     json_text ''protocol'' (ci_protocol c) @ '','' @ json_key ''proxies'' @ ''['' @
     comma_separated (map proxy_json (ci_proxies c)) @ '']}''"

definition GetClientsJson :: "client_info list \<Rightarrow> string" where
  "GetClientsJson cs = ''['' @ comma_separated (map client_json cs) @ '']''"

section \<open>Requests\<close>

record mgmt =
  expected_auth :: string
  mg_version :: string

definition Base64Encode :: "(bytes \<Rightarrow> bytes) \<Rightarrow> string \<Rightarrow> string" where
  "Base64Encode b64 s =
     trim_right [CHR 0x00, CHR 0x0A, CHR 0x0D] (string_of_bytes (b64 (bytes_of_string s)))"

definition SetCredentials :: "(bytes \<Rightarrow> bytes) \<Rightarrow> string \<Rightarrow> string \<Rightarrow> mgmt \<Rightarrow> mgmt" where
  "SetCredentials b64 username password m =
     m\<lparr>expected_auth := (if username \<noteq> '''' \<or> password \<noteq> ''''
                         then Base64Encode b64 (username @ '':'' @ password) else '''')\<rparr>"

text \<open>\<open>std::getline\<close> until it fails, and \<open>operator>>\<close> of a string.\<close>

definition newline :: char where "newline = CHR 0x0A"

function getlines :: "string \<Rightarrow> string list" where
  "getlines s =
     (if s = [] then []
      else
        (let rest = dropWhile (\<lambda>c. c \<noteq> newline) s
         in takeWhile (\<lambda>c. c \<noteq> newline) s # (if rest = [] then [] else getlines (tl rest))))"
  by pat_completeness auto
termination
proof (relation "measure length", simp)
  fix s rest :: string
  assume "s \<noteq> []" "rest = dropWhile (\<lambda>c. c \<noteq> newline) s" "rest \<noteq> []"
  then have "length (tl rest) < length rest" "length rest \<le> length s"
    by (cases rest, simp_all add: length_dropWhile_le)
  then show "(tl rest, s) \<in> measure length" by simp
qed

declare getlines.simps [simp del]

definition is_blank :: "char \<Rightarrow> bool" where
  "is_blank c = (let n = of_char c :: nat in n = 32 \<or> (9 \<le> n \<and> n \<le> 13))"

definition next_word :: "string \<Rightarrow> string \<times> string" where
  "next_word s =
     (let t = dropWhile is_blank s
      in (takeWhile (\<lambda>c. \<not> is_blank c) t, dropWhile (\<lambda>c. \<not> is_blank c) t))"

definition request_path :: "string \<Rightarrow> string" where
  "request_path line = fst (next_word (snd (next_word line)))"

definition strip_cr :: "string \<Rightarrow> string" where
  "strip_cr s = (if s \<noteq> '''' \<and> last s = CHR 0x0D then butlast s else s)"

fun find_auth :: "string list \<Rightarrow> string \<Rightarrow> string" where
  "find_auth [] auth = auth"
| "find_auth (l # ls) auth =
     (if l = [CHR 0x0D] then auth
      else find_auth ls (if take 15 l = ''Authorization: '' then strip_cr (drop 15 l) else auth))"

definition mgmt_authorized :: "mgmt \<Rightarrow> string \<Rightarrow> bool" where
  "mgmt_authorized m auth \<longleftrightarrow> expected_auth m = '''' \<or> auth = ''Basic '' @ expected_auth m"

definition mgmt_response :: "nat \<Rightarrow> string \<Rightarrow> string \<Rightarrow> string \<Rightarrow> string" where
  "mgmt_response status status_text extra body =
     ''HTTP/1.1 '' @ to_string status @ '' '' @ status_text @ crlf @
     ''Content-Type: application/json'' @ crlf @
     ''Content-Length: '' @ to_string (length body) @ crlf @
     ''Access-Control-Allow-Origin: *'' @ crlf @ extra @ ''Connection: close'' @ crlf @ crlf @ body"

definition unauthorized_response :: string where
  "unauthorized_response =
     mgmt_response 401 ''Unauthorized''
       (''WWW-Authenticate: Basic realm='' @ quote @ ''cfrp management'' @ quote @ crlf)
       (''{'' @ json_text ''error'' ''Unauthorized'' @ ''}'')"

text \<open>
  The completion of the read. \<open>None\<close>: nothing is written (the socket is closed when its last
  reference goes).
\<close>

definition HandleRequest ::
    "mgmt \<Rightarrow> (string \<times> client_info option) list \<Rightarrow> error_code \<Rightarrow> string \<Rightarrow> string option" where
  "HandleRequest m ss ec text =
     (if ec \<noteq> Success then None
      else
        (case getlines text of
           [] \<Rightarrow> None
         | line # headers \<Rightarrow>
             if \<not> mgmt_authorized m (find_auth headers '''') then Some unauthorized_response
             else if request_path line = ''/api/v1/status''
             then Some (mgmt_response 200 ''OK'' '''' (GetStatusJson (mg_version m) (GetTotalStats ss)))
             else if request_path line = ''/api/v1/clients''
             then Some (mgmt_response 200 ''OK'' '''' (GetClientsJson (GetClientsInfo ss)))
             else Some (mgmt_response 404 ''Not Found'' '''' (''{'' @ json_text ''error'' ''Not Found'' @ ''}''))))"

text \<open>The timer of a request: 10 s, cancelled by the completion of the read.\<close>

definition mgmt_read_timeout :: "error_code \<Rightarrow> bool \<Rightarrow> bool" where
  "mgmt_read_timeout ec alive \<longleftrightarrow> ec = Success \<and> alive"

definition mgmt_accept :: "error_code \<Rightarrow> bool \<Rightarrow> bool \<times> again" where
  "mgmt_accept ec is_open =
     (if ec = Success then (True, if is_open then Accept_now else Accept_never)
      else (False, if ec \<noteq> Operation_aborted \<and> is_open then Accept_after_ms 100 else Accept_never))"

section \<open>Authentication\<close>

lemma getlines_no_newline: "l \<in> set (getlines s) \<Longrightarrow> newline \<notin> set l"
proof (induction s rule: getlines.induct)
  case (1 s)
  have "newline \<notin> set (takeWhile (\<lambda>c. c \<noteq> newline) s)"
    by (auto dest: set_takeWhileD)
  moreover have "l = takeWhile (\<lambda>c. c \<noteq> newline) s \<or> (dropWhile (\<lambda>c. c \<noteq> newline) s \<noteq> [] \<and>
      l \<in> set (getlines (tl (dropWhile (\<lambda>c. c \<noteq> newline) s))))" "s \<noteq> []"
    using 1(2) by (subst (asm) getlines.simps, auto simp: Let_def split: if_splits)+
  ultimately show ?case using 1(1) by auto
qed

lemma strip_cr_set: "set (strip_cr s) \<subseteq> set s"
  by (auto simp: strip_cr_def dest: in_set_butlastD)

lemma find_auth_no_newline:
  assumes "\<forall>l\<in>set ls. newline \<notin> set l" and "newline \<notin> set auth"
  shows "newline \<notin> set (find_auth ls auth)"
  using assms
proof (induction ls arbitrary: auth)
  case (Cons l ls)
  have "newline \<notin> set (strip_cr (drop 15 l))"
    using Cons.prems(1) strip_cr_set [of "drop 15 l"] set_drop_subset [of 15 l] by auto
  with Cons show ?case by simp
qed simp

text \<open>
  With credentials set, a request is answered with the data only when the last authorization
  header before the empty line carries exactly the encoded credentials; every other request gets
  the same 401 response, whatever the server's state.
\<close>

theorem mgmt_requires_credentials:
  assumes "expected_auth m \<noteq> ''''" and "getlines request = line # headers"
  shows "HandleRequest m ss Success request =
     (if find_auth headers '''' = ''Basic '' @ expected_auth m
      then HandleRequest (m\<lparr>expected_auth := ''''\<rparr>) ss Success request
      else Some unauthorized_response)"
  using assms by (simp add: HandleRequest_def mgmt_authorized_def)

text \<open>
  Credentials whose encoding has a line break in it (the encoder of the TLS library breaks
  lines after 64 characters, only breaks at the end are removed) lock everybody out.
\<close>

theorem mgmt_long_credentials_locked_out:
  assumes "newline \<in> set (Base64Encode b64 (username @ '':'' @ password))" and "username \<noteq> ''''"
    and "request \<noteq> ''''"
  shows "HandleRequest (SetCredentials b64 username password m) ss Success request =
     Some unauthorized_response"
proof -
  obtain line headers where l: "getlines request = line # headers"
    using assms(3) by (cases "getlines request") (subst (asm) getlines.simps, simp add: Let_def)+
  have "\<forall>l\<in>set headers. newline \<notin> set l"
    using getlines_no_newline [of _ request] l by auto
  then have "newline \<notin> set (find_auth headers '''')" by (rule find_auth_no_newline) simp
  moreover have "newline \<in> set (''Basic '' @ expected_auth (SetCredentials b64 username password m))"
    using assms(1,2) by (simp add: SetCredentials_def)
  ultimately have "find_auth headers '''' \<noteq> ''Basic '' @ expected_auth (SetCredentials b64 username password m)"
    by metis
  moreover have "expected_auth (SetCredentials b64 username password m) \<noteq> ''''"
    using assms(1,2) by (auto simp: SetCredentials_def)
  ultimately show ?thesis using l by (simp add: HandleRequest_def mgmt_authorized_def)
qed

text \<open>A request as an HTTP client writes it.\<close>

definition http_get :: "string \<Rightarrow> string \<Rightarrow> string" where
  "http_get path auth =
     ''GET '' @ path @ '' HTTP/1.1'' @ crlf @ ''Host: cfrp'' @ crlf @
     ''Authorization: Basic '' @ auth @ crlf @ crlf"

lemma getlines_line:
  assumes "newline \<notin> set l"
  shows "getlines (l @ newline # rest) = l # getlines rest"
proof -
  have "takeWhile (\<lambda>c. c \<noteq> newline) (l @ newline # rest) = l"
    "dropWhile (\<lambda>c. c \<noteq> newline) (l @ newline # rest) = newline # rest"
    using assms by (auto simp: takeWhile_append dropWhile_append)
  then show ?thesis by (subst getlines.simps) (simp add: Let_def)
qed

lemma getlines_http_get:
  assumes "newline \<notin> set path" and "newline \<notin> set auth"
  shows "getlines (http_get path auth) =
    [''GET '' @ path @ '' HTTP/1.1'' @ [CHR 0x0D], ''Host: cfrp'' @ [CHR 0x0D],
     ''Authorization: Basic '' @ auth @ [CHR 0x0D], [CHR 0x0D]]"
proof -
  have split: "http_get path auth =
      (''GET '' @ path @ '' HTTP/1.1'' @ [CHR 0x0D]) @ newline # (''Host: cfrp'' @ [CHR 0x0D]) @ newline #
      (''Authorization: Basic '' @ auth @ [CHR 0x0D]) @ newline # [CHR 0x0D] @ newline # []"
    by (simp add: http_get_def crlf_def newline_def)
  show ?thesis unfolding split
    by (subst getlines_line, use assms in \<open>simp add: newline_def\<close>)+
       (simp add: getlines.simps [of "[]"])
qed

lemma request_path_get:
  assumes "path \<noteq> ''''" and "\<forall>c\<in>set path. \<not> is_blank c"
  shows "request_path (''GET '' @ path @ '' HTTP/1.1'' @ rest) = path"
proof -
  have b: "is_blank (CHR '' '')" "\<not> is_blank (CHR ''G'')" "\<not> is_blank (CHR ''E'')" "\<not> is_blank (CHR ''T'')"
    by (simp_all add: is_blank_def)
  have d: "dropWhile is_blank (path @ '' HTTP/1.1'' @ rest) = path @ '' HTTP/1.1'' @ rest"
    using assms by (cases path) auto
  have t: "takeWhile (\<lambda>c. \<not> is_blank c) (path @ '' HTTP/1.1'' @ rest) = path"
    using assms(2) b(1) by (simp add: takeWhile_append)
  have "next_word (''GET '' @ path @ '' HTTP/1.1'' @ rest) = (''GET'', '' '' @ path @ '' HTTP/1.1'' @ rest)"
    using b by (simp add: next_word_def Let_def)
  moreover have "fst (next_word ('' '' @ path @ '' HTTP/1.1'' @ rest)) = path"
    using b(1) d t by (simp add: next_word_def Let_def)
  ultimately show ?thesis by (simp add: request_path_def)
qed

text \<open>
  A client that sends the credentials is served: the status and the list of clients at their two
  paths, and a 404 elsewhere.
\<close>

theorem mgmt_serves_authenticated:
  assumes "expected_auth m = auth" and "newline \<notin> set auth" and "path \<noteq> ''''"
    and "list_all (\<lambda>c. \<not> is_blank c) path"
  shows "HandleRequest m ss Success (http_get path auth) =
    Some (if path = ''/api/v1/status'' then mgmt_response 200 ''OK'' '''' (GetStatusJson (mg_version m) (GetTotalStats ss))
          else if path = ''/api/v1/clients'' then mgmt_response 200 ''OK'' '''' (GetClientsJson (GetClientsInfo ss))
          else mgmt_response 404 ''Not Found'' '''' (''{'' @ json_text ''error'' ''Not Found'' @ ''}''))"
proof -
  have "newline \<notin> set path"
    using assms(4) by (auto simp: list_all_iff newline_def is_blank_def)
  then have l: "getlines (http_get path auth) =
    [''GET '' @ path @ '' HTTP/1.1'' @ [CHR 0x0D], ''Host: cfrp'' @ [CHR 0x0D],
     ''Authorization: Basic '' @ auth @ [CHR 0x0D], [CHR 0x0D]]"
    using assms(2) by (rule getlines_http_get)
  have p: "request_path (''GET '' @ path @ '' HTTP/1.1'' @ [CHR 0x0D]) = path"
    using assms(3,4) by (intro request_path_get) (simp_all add: list_all_iff)
  have a: "find_auth [''Host: cfrp'' @ [CHR 0x0D], ''Authorization: Basic '' @ auth @ [CHR 0x0D], [CHR 0x0D]] '''' =
      ''Basic '' @ auth"
    by (simp add: strip_cr_def butlast_append)
  show ?thesis
    unfolding HandleRequest_def l list.case p a using assms(1) by (simp add: mgmt_authorized_def)
qed

section \<open>The list of clients is not escaped\<close>

text \<open>
  Names are copied into the JSON text without escaping, so a name with a quotation mark forges
  fields: two different lists of clients give the same document. (Any string is a client name
  when no list of allowed clients is configured.)
\<close>

theorem clients_json_ambiguous:
  "GetClientsJson [\<lparr>ci_name = a @ quote @ '','' @ json_key ''endpoint'' @ quote @ b, ci_endpoint = e,
      ci_protocol = p, ci_proxies = ps\<rparr>] =
   GetClientsJson [\<lparr>ci_name = a, ci_endpoint = b @ quote @ '','' @ json_key ''endpoint'' @ quote @ e,
      ci_protocol = p, ci_proxies = ps\<rparr>]"
  by (simp add: GetClientsJson_def client_json_def json_text_def json_key_def)

section \<open>Witnesses\<close>

definition demo_mgmt :: mgmt where
  "demo_mgmt = \<lparr>expected_auth = ''YTpi'', mg_version = ''0.2.17''\<rparr>"

theorem mgmt_serves_authenticated_witness:
  "HandleRequest demo_mgmt [] Success (http_get ''/api/v1/clients'' ''YTpi'') =
     Some (mgmt_response 200 ''OK'' '''' ''[]'')"
  using mgmt_serves_authenticated [of demo_mgmt "''YTpi''" "''/api/v1/clients''" "[]"]
  by (simp add: demo_mgmt_def newline_def is_blank_def GetClientsJson_def GetClientsInfo_def map_filter_simps)

theorem mgmt_requires_credentials_witness:
  "HandleRequest demo_mgmt [] Success (http_get ''/api/v1/clients'' ''YTpj'') = Some unauthorized_response"
proof -
  have l: "getlines (http_get ''/api/v1/clients'' ''YTpj'') =
    [''GET '' @ ''/api/v1/clients'' @ '' HTTP/1.1'' @ [CHR 0x0D], ''Host: cfrp'' @ [CHR 0x0D],
     ''Authorization: Basic '' @ ''YTpj'' @ [CHR 0x0D], [CHR 0x0D]]"
    by (rule getlines_http_get) (simp_all add: newline_def)
  show ?thesis
    using mgmt_requires_credentials [OF _ l, of demo_mgmt "[]"]
    by (simp add: demo_mgmt_def strip_cr_def)
qed

theorem mgmt_long_credentials_locked_out_witness:
  "HandleRequest (SetCredentials (\<lambda>_. bytes_of_string [CHR ''A'', CHR 0x0A, CHR ''B'']) ''admin'' ''pw'' demo_mgmt) [] Success
     (http_get ''/'' ''A'') = Some unauthorized_response"
  by (rule mgmt_long_credentials_locked_out)
     (simp_all add: Base64Encode_def trim_right_def newline_def http_get_def)
end
