(* ===== verification/End_To_End.thy ===== *)
theory End_To_End
  imports Client Control_Session
begin

text \<open>
  The client and the server together: the messages that \<open>Client\<close> sends after it has connected, as
  \<open>ControlSession\<close> handles them, and the answer to the login as the client handles it. The
  transport in between delivers messages unchanged and in order, which is what the theories on
  the control channel and the multiplexer show.
\<close>

section \<open>A conversation\<close>

text \<open>The messages of a list of actions, and their handling by a session, one after the other.\<close>

fun messages :: "client_action list \<Rightarrow> Message list" where
  "messages [] = []"
| "messages (Send i m # acts) = m # messages acts"
| "messages (_ # acts) = messages acts"

fun session_messages ::
    "(string \<Rightarrow> 16 word \<Rightarrow> string option) \<Rightarrow> nat \<Rightarrow> nat \<Rightarrow> Message list \<Rightarrow> csession \<Rightarrow> server \<Rightarrow>
     exn + (csession \<times> server \<times> cs_out list)" where
  "session_messages listen now ref [] cs sv = Inr (cs, sv, [])"
| "session_messages listen now ref (m # ms) cs sv =
     (case HandleMessage listen now ref m cs sv of
        Inl e \<Rightarrow> Inl e
      | Inr (cs1, sv1, o1) \<Rightarrow>
          (case session_messages listen now (ref + 1) ms cs1 sv1 of
             Inl e \<Rightarrow> Inl e
           | Inr (cs2, sv2, o2) \<Rightarrow> Inr (cs2, sv2, o1 @ o2)))"

lemma messages_sends [simp]: "messages (map (\<lambda>x. Send i (f x)) xs) = map f xs"
  by (induction xs) auto

lemma messages_append [simp]: "messages (xs @ ys) = messages xs @ messages ys"
  by (induction xs rule: messages.induct) auto

definition login_message :: "client \<Rightarrow> Message" where
  "login_message c = \<lparr>msg_type = Login,
     msg_body = LoginMessage_Serialize \<lparr>lm_token = cl_token c, lm_name = cl_name c\<rparr>\<rparr>"

lemma DoLogin_messages: "control_stream c \<noteq> None \<Longrightarrow> messages (DoLogin c) = [login_message c]"
  by (simp add: DoLogin_def client_SendMessage_def login_message_def)

section \<open>Login\<close>

text \<open>What the server makes of the login of a client, and the client of the answer.\<close>

definition granted_name :: "client \<Rightarrow> csession \<Rightarrow> server \<Rightarrow> string" where
  "granted_name c cs sv = fst (AllocateClientName (cl_name c) (cs_ref cs) sv)"

definition login_answer :: "string \<Rightarrow> Message" where
  "login_answer name = \<lparr>msg_type = LoginResp, msg_body = LoginRespMessage_Serialize
     \<lparr>lr_status = ''ok'', lr_name = name, lr_message = []\<rparr>\<rparr>"

lemma granted_name_ne: "granted_name c cs sv \<noteq> []"
proof -
  have "free_name active name k \<noteq> []" for active name k
    using free_name_shape [of k active name] by auto
  then show ?thesis by (simp add: granted_name_def AllocateClientName_def Let_def)
qed

lemma login_accepted:
  assumes "cl_token c = sv_token sv" "IsClientAllowed (cl_name c) sv"
    and "short (cl_token c)" "short (cl_name c)"
  shows "HandleMessage listen now ref (login_message c) cs sv =
    Inr (cs\<lparr>client_name := granted_name c cs sv, authenticated := True\<rparr>,
         snd (AllocateClientName (cl_name c) (cs_ref cs) sv),
         [Sent LoginResp (msg_body (login_answer (granted_name c cs sv)))])"
proof -
  have "LoginMessage_Deserialize (LoginMessage_Serialize \<lparr>lm_token = cl_token c, lm_name = cl_name c\<rparr>) =
      Inr \<lparr>lm_token = cl_token c, lm_name = cl_name c\<rparr>"
    using assms(3,4) by (intro login.roundtrip) (simp add: LoginMessage_ok_def)
  with assms(1,2) show ?thesis
    by (simp add: HandleMessage_def HandleLogin_def login_message_def login_answer_def granted_name_def
        case_prod_beta)
qed

lemma login_refused:
  assumes "cl_token c \<noteq> sv_token sv \<or> \<not> IsClientAllowed (cl_name c) sv"
    and "short (cl_token c)" "short (cl_name c)"
  shows "\<exists>cs' sv' outs text. HandleMessage listen now ref (login_message c) cs sv =
    Inr (cs', sv', login_error text # outs) \<and> session_Stop cs sv = (cs', sv', outs)"
proof -
  have "LoginMessage_Deserialize (LoginMessage_Serialize \<lparr>lm_token = cl_token c, lm_name = cl_name c\<rparr>) =
      Inr \<lparr>lm_token = cl_token c, lm_name = cl_name c\<rparr>"
    using assms(2,3) by (intro login.roundtrip) (simp add: LoginMessage_ok_def)
  with assms(1) show ?thesis
    by (cases "session_Stop cs sv") (auto simp: HandleMessage_def HandleLogin_def login_message_def)
qed

lemma login_answer_handled:
  assumes "short name" "name \<noteq> []"
  shows "client_HandleMessage now files (login_answer name) c =
    Inr (RegisterProxies now files (c\<lparr>cl_name := name\<rparr>))"
proof -
  have "LoginRespMessage_Deserialize (LoginRespMessage_Serialize
      \<lparr>lr_status = ''ok'', lr_name = name, lr_message = []\<rparr>) =
      Inr \<lparr>lr_status = ''ok'', lr_name = name, lr_message = []\<rparr>"
    using assms(1) by (intro login_resp.roundtrip) (simp add: LoginRespMessage_ok_def)
  with assms(2) show ?thesis by (simp add: client_HandleMessage_def login_answer_def)
qed

section \<open>Registration\<close>

definition proxy_kind :: "ProxyConfig \<Rightarrow> string" where
  "proxy_kind pc = (if pc_type pc = [] then ''tcp'' else pc_type pc)"

definition is_tcp_proxy :: "ProxyConfig \<Rightarrow> bool" where
  "is_tcp_proxy pc \<longleftrightarrow> \<not> is_vhost_type (proxy_kind pc) \<and> proxy_kind pc \<noteq> ''udp''"

definition is_udp_proxy :: "ProxyConfig \<Rightarrow> bool" where
  "is_udp_proxy pc \<longleftrightarrow> proxy_kind pc = ''udp''"

definition is_vhost_proxy :: "ProxyConfig \<Rightarrow> bool" where
  "is_vhost_proxy pc \<longleftrightarrow> is_vhost_type (proxy_kind pc)"

text \<open>What the listeners of a session serve.\<close>

definition serves :: "listener list \<Rightarrow> (string \<times> 16 word) list" where
  "serves ls = map (\<lambda>l. (pl_name l, pl_port l)) ls"

definition wanted :: "ProxyConfig list \<Rightarrow> (string \<times> 16 word) list" where
  "wanted pcs = map (\<lambda>pc. (pc_name pc, pc_remote_port pc)) pcs"

definition proxy_acceptable :: "(string \<Rightarrow> 16 word \<Rightarrow> string option) \<Rightarrow> server \<Rightarrow> ProxyConfig \<Rightarrow> bool" where
  "proxy_acceptable listen sv pc \<longleftrightarrow> RegisterProxyMessage_ok (message_of pc) \<and>
     (is_vhost_proxy pc \<or>
      IsPortAllowed (pc_remote_port pc) sv \<and> listen (proxy_kind pc) (pc_remote_port pc) = None)"

lemma set_fold_insert: "set (fold List.insert xs ys) = set xs \<union> set ys"
  by (induction xs arbitrary: ys) auto

lemma register_accepted:
  assumes "authenticated cs" "proxy_acceptable listen sv pc"
  shows "\<exists>cs' sv' outs. HandleMessage listen now ref (register_message pc) cs sv = Inr (cs', sv', outs) \<and>
    authenticated cs' \<and> cs_ref cs' = cs_ref cs \<and> client_name cs' = client_name cs \<and> same_policy sv sv' \<and>
    serves (proxies cs') = serves (proxies cs) @ (if is_tcp_proxy pc then wanted [pc] else []) \<and>
    serves (udp_proxies cs') = serves (udp_proxies cs) @ (if is_udp_proxy pc then wanted [pc] else []) \<and>
    set (registered_domains cs') = set (registered_domains cs) \<union>
      (if is_vhost_proxy pc then set (pc_custom_domains pc) else {})"
proof -
  let ?m = "message_of pc"
  have "RegisterProxyMessage_ok ?m" using assms(2) by (simp add: proxy_acceptable_def)
  then have d: "RegisterProxyMessage_Deserialize (RegisterProxyMessage_Serialize ?m) = Inr ?m"
    by (rule register_proxy.roundtrip)
  have h: "HandleMessage listen now ref (register_message pc) cs sv =
      Inr (HandleRegisterProxy listen now ref ?m cs sv)"
    using d assms(1) by (simp add: HandleMessage_def register_message_def message_of_def)
  define sv1 where "sv1 = (if 0 < sint (pc_bandwidth_limit pc)
     then CreateRateLimiter now (pc_name pc) (sint (pc_bandwidth_limit pc)) sv else sv)"
  have p1: "same_policy sv sv1" by (simp add: sv1_def policy_kept)
  have pf: "same_policy sv (fold (\<lambda>d. AddVhostRoute d c n ty) ds sv1)" for c n ty ds
    by (intro policy_then [OF p1 policy_fold] policy_kept)
  have fields: "rp_name ?m = pc_name pc" "rp_type ?m = pc_type pc" "rp_remote_port ?m = pc_remote_port pc"
    "rp_custom_domains ?m = pc_custom_domains pc" "rp_bandwidth_limit ?m = pc_bandwidth_limit pc"
    by (simp_all add: message_of_def)
  note reg = HandleRegisterProxy_def [of listen now ref ?m cs sv, unfolded Let_def fields, folded sv1_def]
  show ?thesis
    unfolding h reg using assms p1 pf IsPortAllowed_policy [OF p1, of "pc_remote_port pc"]
    by (auto simp: proxy_acceptable_def
        is_tcp_proxy_def is_udp_proxy_def is_vhost_proxy_def proxy_kind_def serves_def wanted_def
        set_fold_insert is_vhost_type_def split: if_splits)
qed

lemma register_list:
  assumes "authenticated cs" "list_all (proxy_acceptable listen sv) pcs"
  shows "\<exists>cs' sv' outs. session_messages listen now ref (map register_message pcs) cs sv = Inr (cs', sv', outs) \<and>
    authenticated cs' \<and> client_name cs' = client_name cs \<and>
    serves (proxies cs') = serves (proxies cs) @ wanted (filter is_tcp_proxy pcs) \<and>
    serves (udp_proxies cs') = serves (udp_proxies cs) @ wanted (filter is_udp_proxy pcs) \<and>
    set (registered_domains cs') = set (registered_domains cs) \<union>
      set (concat (map pc_custom_domains (filter is_vhost_proxy pcs)))"
  using assms
proof (induction pcs arbitrary: cs sv ref)
  case Nil
  then show ?case by (simp add: wanted_def)
next
  case (Cons pc pcs)
  obtain cs1 sv1 o1 where 1: "HandleMessage listen now ref (register_message pc) cs sv = Inr (cs1, sv1, o1)"
    "authenticated cs1" "client_name cs1 = client_name cs" "same_policy sv sv1"
    "serves (proxies cs1) = serves (proxies cs) @ (if is_tcp_proxy pc then wanted [pc] else [])"
    "serves (udp_proxies cs1) = serves (udp_proxies cs) @ (if is_udp_proxy pc then wanted [pc] else [])"
    "set (registered_domains cs1) = set (registered_domains cs) \<union>
      (if is_vhost_proxy pc then set (pc_custom_domains pc) else {})"
    using register_accepted [OF Cons.prems(1), of listen sv pc now ref] Cons.prems(2) by auto
  have "list_all (proxy_acceptable listen sv1) pcs"
    using Cons.prems(2) IsPortAllowed_policy [OF 1(4)] by (simp add: proxy_acceptable_def list_all_iff)
  from Cons.IH [OF 1(2) this, of "ref + 1"] 1 show ?case
    by (auto simp: wanted_def)
qed

lemma register_all_name: "register_all now pcs c = (c', acts) \<Longrightarrow> cl_name c' = cl_name c"
proof (induction pcs arbitrary: c c' acts)
  case (Cons pc pcs)
  obtain c1 acts1 where r: "client_RegisterProxy now pc c = (c1, acts1)" by force
  then have "cl_name c1 = cl_name c" by (auto simp: client_RegisterProxy_def split: if_splits)
  with Cons r show ?case by (auto split: prod.splits)
qed simp


definition web_client :: client where
  "web_client = demo_client\<lparr>mux_session := Some 1, control_stream := Some 1,
     cl_proxies := [demo_proxy ''web'' 8080 0]\<rparr>"

lemma web_client_simps [simp]:
  "control_stream web_client = Some 1" "conf_d_path web_client = []" "cl_token web_client = ''secret''"
  "cl_name web_client = ''a''" "cl_proxies web_client = [demo_proxy ''web'' 8080 0]"
  by (simp_all add: web_client_def demo_client_def Client_def)


text \<open>
  A client that comes back before the server has noticed that its old connection is gone gets a
  new name, \<open>name_1\<close>, which it adopts and asks for at the next login; when the server only
  allows the configured name, that login and every later one is refused.
\<close>

theorem renamed_client_locked_out:
  assumes "allowed_clients sv = [cl_name c]" "cl_name c \<in> set (active_client_names sv)"
    and "cl_name c \<noteq> []" "cl_token c = sv_token sv"
    and "short (cl_token c)" "short (cl_name c)" "short (granted_name c cs sv)"
    and "same_policy sv sv'"
  shows "(\<exists>cs1 sv1. HandleMessage listen now ref (login_message c) cs sv =
      Inr (cs1, sv1, [Sent LoginResp (msg_body (login_answer (granted_name c cs sv)))])) \<and>
    (\<exists>cs2 sv2 outs text. HandleMessage listen now ref (login_message (c\<lparr>cl_name := granted_name c cs sv\<rparr>)) cs' sv' =
      Inr (cs2, sv2, login_error text # outs) \<and> session_Stop cs' sv' = (cs2, sv2, outs))"
proof -
  have "granted_name c cs sv = free_name (active_client_names sv) (cl_name c) 1"
    using assms(2,3) by (simp add: granted_name_def AllocateClientName_def Let_def)
  then have "granted_name c cs sv \<notin> set (active_client_names sv)" by (simp add: free_name_free)
  then have "granted_name c cs sv \<noteq> cl_name c" using assms(2) by auto
  then have refused: "\<not> IsClientAllowed (cl_name (c\<lparr>cl_name := granted_name c cs sv\<rparr>)) sv'"
    using assms(1,8) by (simp add: IsClientAllowed_def same_policy_def)
  show ?thesis
  proof (rule conjI)
    show "\<exists>cs1 sv1. HandleMessage listen now ref (login_message c) cs sv =
        Inr (cs1, sv1, [Sent LoginResp (msg_body (login_answer (granted_name c cs sv)))])"
      using login_accepted [OF assms(4) _ assms(5,6)] assms(1) by (simp add: IsClientAllowed_def)
    show "\<exists>cs2 sv2 outs text. HandleMessage listen now ref (login_message (c\<lparr>cl_name := granted_name c cs sv\<rparr>)) cs' sv' =
        Inr (cs2, sv2, login_error text # outs) \<and> session_Stop cs' sv' = (cs2, sv2, outs)"
      using login_refused [OF disjI2 [OF refused], of listen now ref cs'] assms(5,7) by simp
  qed
qed

theorem renamed_client_locked_out_witness:
  "\<exists>cs2 sv2 outs text.
     HandleMessage (\<lambda>_ _. None) 0 1 (login_message (web_client\<lparr>cl_name := ''a_1''\<rparr>)) (ControlSession 8 None)
       (new_server ''secret'' [] [''a'']) = Inr (cs2, sv2, login_error text # outs)"
proof -
  let ?sv = "new_server ''secret'' [] [''a'']\<lparr>active_client_names := [''a'']\<rparr>"
  have "to_string 1 = ''1''" by code_simp
  then have "free_name [''a''] ''a'' 1 = ''a_1''" by (subst free_name.simps) simp
  then have g: "granted_name web_client (ControlSession 7 None) ?sv = ''a_1''"
    by (simp add: granted_name_def AllocateClientName_def Let_def)
  show ?thesis
    using renamed_client_locked_out [where c = web_client and sv = ?sv and cs = "ControlSession 7 None"
        and sv' = "new_server ''secret'' [] [''a'']" and cs' = "ControlSession 8 None"
        and listen = "\<lambda>_ _. None" and now = 0 and ref = 1] g
    by (simp add: new_server_def same_policy_def) blast
qed

end
