(* ===== verification/Transport.thy ===== *)
theory Transport
  imports Mux_Session Websocket Quic_Stream
begin

text \<open>
  The multiplexer over its transports. \<open>Session\<close> reads its frames with two exact reads of an
  \<open>AsyncStream\<close> (\<open>src/common/mux.cpp\<close>, \<open>do_read_header\<close> and \<open>do_read_body\<close>); \<open>session_over\<close>
  runs these reads on any \<open>exact_reader\<close>. The plain byte stream, the WebSocket stream and the QUIC
  stream are exact readers, so the session handles the same frames over each of them.
\<close>

section \<open>A session on top of a stream\<close>

text \<open>
  At most \<open>k\<close> frames are read; \<open>None\<close> when that is not enough. A run ends when a read has to wait
  or the session has stopped.
\<close>

fun session_over ::
    "('s \<Rightarrow> nat \<Rightarrow> (bytes \<times> 's) option) \<Rightarrow> nat \<Rightarrow> nat \<Rightarrow> 's \<Rightarrow> session \<Rightarrow> (session \<times> session_out list) option" where
  "session_over rdx 0 now t s = None"
| "session_over rdx (Suc k) now t s =
     (case rdx t Header_size of
        None \<Rightarrow> Some (s, [])
      | Some (header_buf, t1) \<Rightarrow>
          (case session_header_read Success header_buf now s of
             (s1, o1, No_read) \<Rightarrow> Some (s1, o1)
           | (s1, o1, Next_header) \<Rightarrow>
               map_option (\<lambda>(u, o2). (u, o1 @ o2)) (session_over rdx k now t1 s1)
           | (s1, o1, Next_body h) \<Rightarrow>
               (case rdx t1 (unat (h_length h)) of
                  None \<Rightarrow> Some (s1, o1)
                | Some (body, t2) \<Rightarrow>
                    (case session_body_read Success h body now s1 of
                       (s2, o2, Next_header) \<Rightarrow>
                         map_option (\<lambda>(u, o3). (u, o1 @ o2 @ o3)) (session_over rdx k now t2 s2)
                     | (s2, o2, _) \<Rightarrow> Some (s2, o1 @ o2)))))"

lemma header_read_body:
  "session_header_read Success hb now s = (s1, o1, Next_body h) \<Longrightarrow> 0 < unat (h_length h)"
  by (auto simp: session_header_read_def Let_def split: if_splits prod.splits)

context exact_reader
begin

lemma session_over_feed:
  assumes "inv t" and "length (unread t) < k"
  shows "session_over rdx k now t s =
    Some (fst (session_feed now (unread t) s), fst (snd (session_feed now (unread t) s)))"
  using assms
proof (induction k arbitrary: t s)
  case 0
  then show ?case by simp
next
  case (Suc k)
  show ?case
  proof (cases "length (unread t) < Header_size")
    case True
    with rdx_short [OF Suc.prems(1) True] show ?thesis
      unfolding session_feed.simps [of now "unread t" s] by simp
  next
    case False
    then obtain t1 where t1: "rdx t Header_size = Some (take Header_size (unread t), t1)"
      "inv t1" "unread t1 = drop Header_size (unread t)"
      using rdx_enough [OF Suc.prems(1), of Header_size] by (auto simp: Header_size_def)
    have len: "length (unread t1) < k" using t1(3) False Suc.prems(2) by (simp add: Header_size_def)
    obtain s1 o1 nx where h: "session_header_read Success (take Header_size (unread t)) now s = (s1, o1, nx)"
      by (metis prod_cases3)
    show ?thesis
    proof (cases nx)
      case No_read
      with h t1(1) False show ?thesis
      unfolding session_feed.simps [of now "unread t" s] by simp
    next
      case Next_header
      with h t1 False Suc.IH [OF t1(2) len, of s1] show ?thesis
        unfolding session_feed.simps [of now "unread t" s] by (simp split: prod.splits)
    next
      case (Next_body hd)
      let ?n = "unat (h_length hd)"
      have pos: "0 < ?n" using h Next_body by (simp add: header_read_body)
      show ?thesis
      proof (cases "length (unread t1) < ?n")
        case True
        with h t1 False Next_body rdx_short [OF t1(2) True] show ?thesis
          unfolding session_feed.simps [of now "unread t" s] by (simp add: Let_def)
      next
        case body: False
        then obtain t2 where t2: "rdx t1 ?n = Some (take ?n (unread t1), t2)" "inv t2"
          "unread t2 = drop ?n (unread t1)"
          using rdx_enough [OF t1(2) pos] by auto
        have len2: "length (unread t2) < k" using t2(3) len by simp
        obtain s2 o2 nx2 where b: "session_body_read Success hd (take ?n (unread t1)) now s1 = (s2, o2, nx2)"
          by (metis prod_cases3)
        with h t1 t2 False body Next_body Suc.IH [OF t2(2) len2, of s2] show ?thesis
          unfolding session_feed.simps [of now "unread t" s] by (simp add: Let_def split: prod.splits next_read.splits)
      qed
    qed
  qed
qed

lemma session_over_frames:
  assumes "inv t" and "length (unread t) < k"
    and "list_all frame_ok fs" and "unread t = concat (map enc_frame fs)"
  shows "session_over rdx k now t s = Some (handle_frames now fs s)"
  using session_over_feed [OF assms(1,2), of now s] feed_frames [OF assms(3), of now s] assms(4)
  by auto

end

section \<open>The transports\<close>

text \<open>A plain connection: asio's \<open>async_read\<close> takes bytes off the front of what has arrived.\<close>

definition plain_rdx :: "bytes \<Rightarrow> nat \<Rightarrow> (bytes \<times> bytes) option" where
  "plain_rdx bs n = (if length bs < n then None else Some (take n bs, drop n bs))"

interpretation plain_exact: exact_reader "\<lambda>bs. bs" "\<lambda>bs. True" plain_rdx
  by unfold_locales (auto simp: plain_rdx_def)

definition ws_rdx :: "ws_stream \<times> bytes \<Rightarrow> nat \<Rightarrow> (bytes \<times> ws_stream \<times> bytes) option" where
  "ws_rdx t n =
     (case ws_async_read n (fst t) (snd t) of
        (r, d, w, inp, pongs) \<Rightarrow> if r = Some Success then Some (d, w, inp) else None)"

interpretation ws_exact: exact_reader ws_unread "\<lambda>t. ws_in_bounds (fst t)" ws_rdx
proof
  fix t :: "ws_stream \<times> bytes" and n
  assume ok: "ws_in_bounds (fst t)"
  obtain r d w inp ps where rd: "ws_async_read n (fst t) (snd t) = (r, d, w, inp, ps)"
    by (metis prod_cases5)
  then have res: "exact_result n (ws_unread t) (r, d, w, inp, ps)"
    using ws_exact_read [OF ok, of n "snd t"] by (cases t) (simp del: ws_unread.simps)
  show "\<exists>u. ws_rdx t n = Some (take n (ws_unread t), u) \<and> ws_in_bounds (fst u) \<and>
      ws_unread u = drop n (ws_unread t)" if "n \<le> length (ws_unread t)"
    using res rd that by (auto simp: ws_rdx_def exact_result_def simp del: ws_unread.simps)
  show "ws_rdx t n = None" if "length (ws_unread t) < n"
    using res rd that by (auto simp: ws_rdx_def exact_result_def simp del: ws_unread.simps)
qed

definition quic_rdx :: "quic_stream \<Rightarrow> nat \<Rightarrow> (bytes \<times> quic_stream) option" where
  "quic_rdx s n =
     (case quic_async_read True n 0 s of
        None \<Rightarrow> None
      | Some (t, acts) \<Rightarrow> if qs_reads t = [] then Some (quic_delivered acts, t) else None)"

definition quic_open :: "quic_stream \<Rightarrow> bool" where
  "quic_open s \<longleftrightarrow> quic_rq_ok s \<and> qs_session s \<and> qs_reads s = [] \<and> \<not> qs_closed s"

lemma quic_open_bytes:
  "quic_open s \<Longrightarrow> sub64 (sum_list (map length (qs_queue s))) (qs_offset s) = length (quic_unread s)"
  by (cases "qs_queue s")
     (auto simp: quic_open_def quic_rq_ok_def queue_fits_def quic_unread_def length_unread_queue)

interpretation quic_exact: exact_reader quic_unread quic_open quic_rdx
proof
  fix s n
  assume ok: "quic_open s"
  let ?s = "s\<lparr>qs_reads := [\<lparr>pr_size = n, pr_handler = 0, pr_read_all = True\<rparr>]\<rparr>"
  have rd: "quic_async_read True n 0 s = quic_read_loop ?s"
    using ok by (simp add: quic_async_read_def quic_do_read_def quic_open_def)
  show "\<exists>t. quic_rdx s n = Some (take n (quic_unread s), t) \<and> quic_open t \<and>
      quic_unread t = drop n (quic_unread s)" if n: "0 < n" "n \<le> length (quic_unread s)"
  proof -
    have q: "qs_queue s \<noteq> []" using n by (auto simp: quic_unread_def)
    obtain q' off' where c: "read_copy n (qs_queue s) (qs_offset s) [] = Some (take n (quic_unread s), q', off')"
      "queue_fits q' off'" "unread_queue q' off' = drop n (quic_unread s)"
      using read_copy_fits [of "qs_queue s" "qs_offset s" n "[]"] ok
      by (auto simp: quic_unread_def quic_open_def quic_rq_ok_def)
    let ?t = "s\<lparr>qs_reads := [], qs_queue := q', qs_offset := off'\<rparr>"
    have "quic_read_loop ?t = Some (?t, [])"
      by (subst quic_read_loop.simps) (simp add: quic_read_step_def)
    then have "\<exists>a. quic_read_loop ?s = Some (?t, a) \<and> quic_delivered a = take n (quic_unread s)"
      using q c(1) n quic_open_bytes [OF ok]
      by (subst quic_read_loop.simps) (simp add: quic_read_step_def)
    with c(2,3) ok rd show ?thesis
      by (auto simp: quic_rdx_def quic_open_def quic_rq_ok_def quic_unread_def)
  qed
  show "quic_rdx s n = None" if "length (quic_unread s) < n"
  proof -
    have "quic_read_step ?s = Q_break"
      using that ok quic_open_bytes [OF ok] by (simp add: quic_read_step_def quic_open_def)
    then have "quic_read_loop ?s = Some (?s, [])" by (subst quic_read_loop.simps) simp
    with rd show ?thesis by (simp add: quic_rdx_def)
  qed
qed

section \<open>Properties\<close>



text \<open>The same over QUIC: what the peer's bytes were cut into does not matter.\<close>

theorem mux_over_quic:
  assumes "list_all frame_ok fs" and "concat blocks = concat (map enc_frame fs)"
    and "length (concat (map enc_frame fs)) < k"
  shows "session_over quic_rdx k now ((QuicStream sid)\<lparr>qs_queue := blocks\<rparr>) s =
    Some (handle_frames now fs s)"
  by (rule quic_exact.session_over_frames)
     (use assms in \<open>simp_all add: quic_open_def quic_rq_ok_def quic_unread_def unread_queue_def QuicStream_def\<close>)

end
