(* ===== verification/Certificates.thy ===== *)
theory Certificates
  imports Prelude "HOL-Library.State_Monad"
begin

text \<open>
  \<open>SslUtils\<close> (\<open>src/common/ssl_utils.h\<close>, \<open>ssl_utils.cpp\<close>): is there a valid certificate chain, and if
  not, the generation of a new one. The code is a sequence of calls of wolfSSL and of the file
  system. The library is a parameter \<open>e\<close> that gives the answer to each call, as a function of its
  position and of the call; the state is the log of the calls made so far with their answers,
  newest first. An object that a call creates has the position of the call as its handle, and 0 is
  the null pointer. What is proved is what the code itself is responsible for: the order of the
  calls, the release of every object on every path, and which certificate goes into which file.
\<close>

section \<open>Calls\<close>

datatype tls_call =
    Fs_exists string | Create_directories string
  | F_open string | F_close int | Pem_read_X509 int
  | Asn1_time_diff int | Diff_day int
  | Pkey_ctx_new | Keygen_init int | Keygen_bits int nat | Pkey_keygen int
  | Pkey_ctx_free int | Pkey_free int
  | X509_new | X509_free int | Set_version int nat | Set_serial int nat
  | Set_not_before int int | Set_not_after int int | Set_pubkey int int
  | Add_common_name int string | Set_issuer int int | X509_sign int int
  | V3_set_ctx int int | San_extension string | Add_ext int int | Extension_free int
  | Bio_new_file string | Write_X509 int int | Write_private_key int int | Bio_free int

type_synonym tls_log = "(tls_call \<times> int) list"
type_synonym tls_env = "nat \<Rightarrow> tls_call \<Rightarrow> int"

definition sys :: "tls_env \<Rightarrow> tls_call \<Rightarrow> (tls_log, int) state" where
  "sys e c = State (\<lambda>l. (e (length l) c, (c, e (length l) c) # l))"

text \<open>
  A call that creates an object. \<open>EVP_PKEY_keygen\<close> reports success by a positive number, all the
  others by a pointer that is not null.
\<close>

fun created :: "tls_call \<Rightarrow> int \<Rightarrow> bool" where
  "created (Pkey_keygen ctx) r = (0 < r)"
| "created c r = (r \<noteq> 0)"

definition obj :: "tls_env \<Rightarrow> tls_call \<Rightarrow> (tls_log, int) state" where
  "obj e c = State (\<lambda>l. let h = (if created c (e (length l) c) then int (Suc (length l)) else 0)
     in (h, (c, h) # l))"

section \<open>The operations\<close>

record CertConfig =
  ca_cert_file :: string
  cc_ca_key_file :: string
  server_cert_file :: string
  server_key_file :: string
  domains :: "string list"
  ca_expiry_days :: int
  server_expiry_days :: int

definition CertConfig_default :: CertConfig where
  "CertConfig_default =
     \<lparr>ca_cert_file = ''certs/ca.crt'', cc_ca_key_file = ''certs/ca.key'',
      server_cert_file = ''certs/server.crt'', server_key_file = ''certs/server.key'',
      domains = [], ca_expiry_days = 3650, server_expiry_days = 365\<rparr>"

text \<open>An exception of \<open>create_directories\<close> is the answer 0.\<close>

definition CreateDirectoryIfNotExists :: "tls_env \<Rightarrow> string \<Rightarrow> (tls_log, bool) state" where
  "CreateDirectoryIfNotExists e path =
     (if CHR ''/'' \<in> set path
      then do { r \<leftarrow> sys e (Create_directories path); State_Monad.return (r \<noteq> 0) }
      else State_Monad.return True)"

text \<open>\<open>Diff_day\<close> reads the output parameter \<open>day\<close> of \<open>ASN1_TIME_diff\<close>.\<close>

definition IsCertValid :: "tls_env \<Rightarrow> string \<Rightarrow> (tls_log, bool) state" where
  "IsCertValid e cert_file = do {
     present \<leftarrow> sys e (Fs_exists cert_file);
     if present = 0 then State_Monad.return False
     else do {
       fp \<leftarrow> obj e (F_open cert_file);
       if fp = 0 then State_Monad.return False
       else do {
         x509 \<leftarrow> obj e (Pem_read_X509 fp);
         _ \<leftarrow> sys e (F_close fp);
         if x509 = 0 then State_Monad.return False
         else do {
           ok \<leftarrow> sys e (Asn1_time_diff x509);
           if ok \<le> 0 then do { _ \<leftarrow> sys e (X509_free x509); State_Monad.return False }
           else do {
             day \<leftarrow> sys e (Diff_day x509);
             if day < 7 then do { _ \<leftarrow> sys e (X509_free x509); State_Monad.return False }
             else do { _ \<leftarrow> sys e (X509_free x509); State_Monad.return True }}}}}}"

definition GenerateKey :: "tls_env \<Rightarrow> (tls_log, int) state" where
  "GenerateKey e = do {
     ctx \<leftarrow> obj e Pkey_ctx_new;
     if ctx = 0 then State_Monad.return 0
     else do {
       r \<leftarrow> sys e (Keygen_init ctx);
       if r \<le> 0 then do { _ \<leftarrow> sys e (Pkey_ctx_free ctx); State_Monad.return 0 }
       else do {
         r \<leftarrow> sys e (Keygen_bits ctx 2048);
         if r \<le> 0 then do { _ \<leftarrow> sys e (Pkey_ctx_free ctx); State_Monad.return 0 }
         else do {
           pkey \<leftarrow> obj e (Pkey_keygen ctx);
           if pkey = 0 then do { _ \<leftarrow> sys e (Pkey_ctx_free ctx); State_Monad.return 0 }
           else do { _ \<leftarrow> sys e (Pkey_ctx_free ctx); State_Monad.return pkey }}}}}"

definition free_keys :: "tls_env \<Rightarrow> int \<Rightarrow> int \<Rightarrow> (tls_log, unit) state" where
  "free_keys e ca_key server_key =
     do { _ \<leftarrow> sys e (Pkey_free ca_key); _ \<leftarrow> sys e (Pkey_free server_key); State_Monad.return () }"

text \<open>The fields of both certificates, up to the public key.\<close>

definition fill_cert :: "tls_env \<Rightarrow> int \<Rightarrow> nat \<Rightarrow> int \<Rightarrow> int \<Rightarrow> (tls_log, unit) state" where
  "fill_cert e cert serial expiry_days key = do {
     _ \<leftarrow> sys e (Set_version cert 2);
     _ \<leftarrow> sys e (Set_serial cert serial);
     _ \<leftarrow> sys e (Set_not_before cert 0);
     _ \<leftarrow> sys e (Set_not_after cert (expiry_days * 24 * 3600));
     _ \<leftarrow> sys e (Set_pubkey cert key);
     State_Monad.return () }"

fun add_sans :: "tls_env \<Rightarrow> int \<Rightarrow> string list \<Rightarrow> (tls_log, unit) state" where
  "add_sans e cert [] = State_Monad.return ()"
| "add_sans e cert (d # ds) = do {
     ext \<leftarrow> obj e (San_extension d);
     if ext \<noteq> 0
     then do { _ \<leftarrow> sys e (Add_ext cert ext); _ \<leftarrow> sys e (Extension_free ext); add_sans e cert ds }
     else add_sans e cert ds }"

definition server_names :: "tls_env \<Rightarrow> CertConfig \<Rightarrow> int \<Rightarrow> int \<Rightarrow> (tls_log, unit) state" where
  "server_names e config ca_cert server_cert = do {
     _ \<leftarrow> sys e (Add_common_name server_cert
            (if domains config \<noteq> [] then hd (domains config) else ''cfrp Server''));
     _ \<leftarrow> sys e (Set_issuer server_cert ca_cert);
     if domains config \<noteq> []
     then do { _ \<leftarrow> sys e (V3_set_ctx ca_cert server_cert); add_sans e server_cert (domains config) }
     else State_Monad.return () }"

definition write_pem :: "tls_env \<Rightarrow> string \<Rightarrow> (int \<Rightarrow> tls_call) \<Rightarrow> bool \<Rightarrow> (tls_log, bool) state" where
  "write_pem e path writer write_ok = do {
     bio \<leftarrow> obj e (Bio_new_file path);
     if bio = 0 then State_Monad.return False
     else do {
       r \<leftarrow> sys e (writer bio);
       _ \<leftarrow> sys e (Bio_free bio);
       State_Monad.return (if r \<le> 0 then False else write_ok) }}"

definition write_chain :: "tls_env \<Rightarrow> CertConfig \<Rightarrow> int \<Rightarrow> int \<Rightarrow> int \<Rightarrow> int \<Rightarrow> (tls_log, bool) state" where
  "write_chain e config ca_cert ca_key server_cert server_key = do {
     ok \<leftarrow> write_pem e (ca_cert_file config) (\<lambda>b. Write_X509 b ca_cert) True;
     ok \<leftarrow> write_pem e (cc_ca_key_file config) (\<lambda>b. Write_private_key b ca_key) ok;
     ok \<leftarrow> write_pem e (server_cert_file config) (\<lambda>b. Write_X509 b server_cert) ok;
     write_pem e (server_key_file config) (\<lambda>b. Write_private_key b server_key) ok }"

text \<open>\<open>GenerateFullChain\<close> in three parts: the keys, the CA certificate, the server certificate.\<close>

definition server_certificate ::
    "tls_env \<Rightarrow> CertConfig \<Rightarrow> int \<Rightarrow> int \<Rightarrow> int \<Rightarrow> (tls_log, bool) state" where
  "server_certificate e config ca_key server_key ca_cert = do {
     server_cert \<leftarrow> obj e X509_new;
     if server_cert = 0
     then do {
       _ \<leftarrow> sys e (X509_free ca_cert);
       _ \<leftarrow> free_keys e ca_key server_key;
       State_Monad.return False }
     else do {
       _ \<leftarrow> fill_cert e server_cert 2 (server_expiry_days config) server_key;
       _ \<leftarrow> server_names e config ca_cert server_cert;
       signed \<leftarrow> sys e (X509_sign server_cert ca_key);
       if signed = 0
       then do {
         _ \<leftarrow> sys e (X509_free server_cert);
         _ \<leftarrow> sys e (X509_free ca_cert);
         _ \<leftarrow> free_keys e ca_key server_key;
         State_Monad.return False }
       else do {
         write_ok \<leftarrow> write_chain e config ca_cert ca_key server_cert server_key;
         _ \<leftarrow> sys e (X509_free server_cert);
         _ \<leftarrow> sys e (X509_free ca_cert);
         _ \<leftarrow> free_keys e ca_key server_key;
         State_Monad.return write_ok }}}"

definition ca_certificate :: "tls_env \<Rightarrow> CertConfig \<Rightarrow> int \<Rightarrow> int \<Rightarrow> (tls_log, bool) state" where
  "ca_certificate e config ca_key server_key = do {
     ca_cert \<leftarrow> obj e X509_new;
     if ca_cert = 0 then do { _ \<leftarrow> free_keys e ca_key server_key; State_Monad.return False }
     else do {
       _ \<leftarrow> fill_cert e ca_cert 1 (ca_expiry_days config) ca_key;
       _ \<leftarrow> sys e (Add_common_name ca_cert ''cfrp Root CA'');
       _ \<leftarrow> sys e (Set_issuer ca_cert ca_cert);
       signed \<leftarrow> sys e (X509_sign ca_cert ca_key);
       if signed = 0
       then do {
         _ \<leftarrow> sys e (X509_free ca_cert);
         _ \<leftarrow> free_keys e ca_key server_key;
         State_Monad.return False }
       else server_certificate e config ca_key server_key ca_cert }}"

definition GenerateFullChain :: "tls_env \<Rightarrow> CertConfig \<Rightarrow> (tls_log, bool) state" where
  "GenerateFullChain e config = do {
     _ \<leftarrow> CreateDirectoryIfNotExists e (ca_cert_file config);
     _ \<leftarrow> CreateDirectoryIfNotExists e (server_cert_file config);
     ca_key \<leftarrow> GenerateKey e;
     server_key \<leftarrow> GenerateKey e;
     if ca_key = 0 \<or> server_key = 0
     then do {
       _ \<leftarrow> (if ca_key \<noteq> 0 then sys e (Pkey_free ca_key) else State_Monad.return 0);
       _ \<leftarrow> (if server_key \<noteq> 0 then sys e (Pkey_free server_key) else State_Monad.return 0);
       State_Monad.return False }
     else ca_certificate e config ca_key server_key }"

text \<open>The tests are short-circuited from left to right.\<close>

definition EnsureCertificates :: "tls_env \<Rightarrow> CertConfig \<Rightarrow> (tls_log, bool) state" where
  "EnsureCertificates e config = do {
     ca \<leftarrow> IsCertValid e (ca_cert_file config);
     srv \<leftarrow> (if ca then IsCertValid e (server_cert_file config) else State_Monad.return False);
     cak \<leftarrow> (if srv then sys e (Fs_exists (cc_ca_key_file config)) else State_Monad.return 0);
     srvk \<leftarrow> (if cak \<noteq> 0 then sys e (Fs_exists (server_key_file config)) else State_Monad.return 0);
     if srvk \<noteq> 0 then State_Monad.return True
     else do { ok \<leftarrow> GenerateFullChain e config; State_Monad.return ok } }"

section \<open>The rules of the library\<close>

text \<open>
  The objects that exist, and of each certificate whether it has been signed. A call may only use
  objects that exist; a certificate may be changed until it is signed, and only a signed one
  may be written. \<open>track\<close> is \<open>None\<close> when the log breaks a rule.
\<close>

datatype tls_obj = Fp int | Ctx int | Pkey int | Cert int | Signed int | Ext int | Bio int

fun uses :: "tls_call \<Rightarrow> tls_obj set" where
  "uses (F_close f) = {Fp f}"
| "uses (Pem_read_X509 f) = {Fp f}"
| "uses (Asn1_time_diff x) = {Cert x}"
| "uses (Diff_day x) = {Cert x}"
| "uses (Keygen_init c) = {Ctx c}"
| "uses (Keygen_bits c n) = {Ctx c}"
| "uses (Pkey_keygen c) = {Ctx c}"
| "uses (Pkey_ctx_free c) = {Ctx c}"
| "uses (Pkey_free k) = {Pkey k}"
| "uses (X509_free x) = {Cert x}"
| "uses (Set_version x n) = {Cert x}"
| "uses (Set_serial x n) = {Cert x}"
| "uses (Set_not_before x t) = {Cert x}"
| "uses (Set_not_after x t) = {Cert x}"
| "uses (Set_pubkey x k) = {Cert x, Pkey k}"
| "uses (Add_common_name x s) = {Cert x}"
| "uses (Set_issuer x y) = {Cert x, Cert y}"
| "uses (X509_sign x k) = {Cert x, Pkey k}"
| "uses (V3_set_ctx x y) = {Cert x, Cert y}"
| "uses (Add_ext x t) = {Cert x, Ext t}"
| "uses (Extension_free t) = {Ext t}"
| "uses (Write_X509 b x) = {Bio b, Cert x, Signed x}"
| "uses (Write_private_key b k) = {Bio b, Pkey k}"
| "uses (Bio_free b) = {Bio b}"
| "uses _ = {}"

fun changes :: "tls_call \<Rightarrow> tls_obj set" where
  "changes (Set_version x n) = {Signed x}"
| "changes (Set_serial x n) = {Signed x}"
| "changes (Set_not_before x t) = {Signed x}"
| "changes (Set_not_after x t) = {Signed x}"
| "changes (Set_pubkey x k) = {Signed x}"
| "changes (Add_common_name x s) = {Signed x}"
| "changes (Set_issuer x y) = {Signed x}"
| "changes (Add_ext x t) = {Signed x}"
| "changes _ = {}"

fun frees :: "tls_call \<Rightarrow> tls_obj set" where
  "frees (F_close f) = {Fp f}"
| "frees (Pkey_ctx_free c) = {Ctx c}"
| "frees (Pkey_free k) = {Pkey k}"
| "frees (X509_free x) = {Cert x, Signed x}"
| "frees (Extension_free t) = {Ext t}"
| "frees (Bio_free b) = {Bio b}"
| "frees _ = {}"

fun makes :: "tls_call \<Rightarrow> int \<Rightarrow> tls_obj set" where
  "makes (F_open p) r = (if r = 0 then {} else {Fp r})"
| "makes (Pem_read_X509 f) r = (if r = 0 then {} else {Cert r})"
| "makes Pkey_ctx_new r = (if r = 0 then {} else {Ctx r})"
| "makes (Pkey_keygen c) r = (if r = 0 then {} else {Pkey r})"
| "makes X509_new r = (if r = 0 then {} else {Cert r})"
| "makes (X509_sign x k) r = (if r = 0 then {} else {Signed x})"
| "makes (San_extension d) r = (if r = 0 then {} else {Ext r})"
| "makes (Bio_new_file p) r = (if r = 0 then {} else {Bio r})"
| "makes _ r = {}"

primrec track :: "tls_log \<Rightarrow> tls_obj set option" where
  "track [] = Some {}"
| "track (x # l) =
     (case track l of
        None \<Rightarrow> None
      | Some live \<Rightarrow>
          if uses (fst x) \<subseteq> live \<and> changes (fst x) \<inter> live = {}
          then Some (live - frees (fst x) \<union> makes (fst x) (snd x)) else None)"

section \<open>Weakest preconditions\<close>

definition wp :: "(tls_log, 'a) state \<Rightarrow> ('a \<Rightarrow> tls_log \<Rightarrow> bool) \<Rightarrow> tls_log \<Rightarrow> bool" where
  "wp m Q l = (case run_state m l of (r, l') \<Rightarrow> Q r l')"

named_theorems wp_rules

lemma wp_return [wp_rules]: "wp (State_Monad.return x) Q l = Q x l"
  by (simp add: wp_def)

lemma wp_bind [wp_rules]: "wp (m \<bind> f) Q l = wp m (\<lambda>r. wp (f r) Q) l"
  by (simp add: wp_def State_Monad.bind_def split: prod.splits)

lemma wp_if [wp_rules]: "wp (if b then m else n) Q l = (if b then wp m Q l else wp n Q l)"
  by simp

text \<open>\<open>grown\<close>: the log has only been added to, and these objects exist now.\<close>

definition grown :: "tls_obj set \<Rightarrow> tls_log \<Rightarrow> tls_log \<Rightarrow> bool" where
  "grown live l l' \<longleftrightarrow> track l' = Some live \<and> length l \<le> length l' \<and> set l \<subseteq> set l'"

lemma grown_refl: "track l = Some live \<Longrightarrow> grown live l l"
  by (simp add: grown_def)

lemma grown_trans: "grown live l l' \<Longrightarrow> grown live' l' l'' \<Longrightarrow> grown live' l l''"
  by (auto simp: grown_def)

lemma grown_track: "grown live l l' \<Longrightarrow> track l' = Some live"
  by (simp add: grown_def)

lemma wp_sys [wp_rules]: "wp (sys e c) Q l = Q (e (length l) c) ((c, e (length l) c) # l)"
  by (simp add: wp_def sys_def)

lemma wp_obj [wp_rules]:
  "wp (obj e c) Q l =
     (if created c (e (length l) c) then Q (int (Suc (length l))) ((c, int (Suc (length l))) # l)
      else Q 0 ((c, 0) # l))"
  by (simp add: wp_def obj_def Let_def)

lemma insert_remove: "x \<notin> A \<Longrightarrow> insert x A - {x} = A"
  by auto

lemma wp_CreateDirectoryIfNotExists:
  assumes "track l = Some live" and "\<And>r l'. grown live l l' \<Longrightarrow> Q r l'"
  shows "wp (CreateDirectoryIfNotExists e path) Q l"
  unfolding CreateDirectoryIfNotExists_def wp_rules
  using assms(1) by (auto intro!: assms(2) simp: grown_def)

lemma wp_IsCertValid:
  assumes "track l = Some {}" and "\<And>r l'. grown {} l l' \<Longrightarrow> Q r l'"
  shows "wp (IsCertValid e f) Q l"
  unfolding IsCertValid_def wp_rules
  using assms(1) by (auto intro!: assms(2) simp: grown_def)

lemma wp_GenerateKey:
  assumes "track l = Some live" and "\<forall>c. Ctx c \<notin> live"
    and "\<And>k l'. grown (if k = 0 then live else insert (Pkey k) live) l l' \<Longrightarrow>
      k = 0 \<or> int (length l) < k \<and> k \<le> int (length l') \<Longrightarrow> Q k l'"
  shows "wp (GenerateKey e) Q l"
  unfolding GenerateKey_def wp_rules
  using assms(1,2) by (auto intro!: assms(3) simp: grown_def)

lemma wp_fill_cert:
  assumes "track l = Some live" and "{Cert x, Pkey k} \<subseteq> live" and "Signed x \<notin> live"
    and "\<And>l'. grown live l l' \<Longrightarrow> \<exists>r. (Set_pubkey x k, r) \<in> set l' \<Longrightarrow> Q () l'"
  shows "wp (fill_cert e x n d k) Q l"
  unfolding fill_cert_def wp_rules
  using assms(1-3) by (auto intro!: assms(4) simp: grown_def)

lemma wp_add_sans:
  assumes "track l = Some live" and "Cert x \<in> live" and "Signed x \<notin> live" and "\<forall>t. Ext t \<notin> live"
    and "\<And>l'. grown live l l' \<Longrightarrow> Q () l'"
  shows "wp (add_sans e x ds) Q l"
  using assms
proof (induction ds arbitrary: l)
  case Nil
  then show ?case by (simp add: wp_rules grown_refl)
next
  case (Cons d ds)
  have step: "wp (add_sans e x ds) Q l1" if "grown live l l1" for l1
  proof (rule Cons.IH)
    show "track l1 = Some live" using that by (rule grown_track)
    show "Q () l'" if "grown live l1 l'" for l'
      using grown_trans [OF \<open>grown live l l1\<close> that] by (rule Cons.prems(5))
  qed (rule Cons.prems)+
  show ?case
    unfolding add_sans.simps wp_rules
    using Cons.prems(1-4) by (auto intro!: step simp: grown_def insert_remove)
qed

lemma wp_server_names:
  assumes "track l = Some live" and "{Cert x, Cert y} \<subseteq> live" and "Signed x \<notin> live"
    and "\<forall>t. Ext t \<notin> live"
    and "\<And>l'. grown live l l' \<Longrightarrow> \<exists>r. (Set_issuer x y, r) \<in> set l' \<Longrightarrow> Q () l'"
  shows "wp (server_names e config y x) Q l"
proof -
  have sans: "wp (add_sans e x ds) Q l1"
    if "grown live l l1" and "(Set_issuer x y, r) \<in> set l1" for ds l1 r
  proof (rule wp_add_sans)
    show "track l1 = Some live" using that(1) by (rule grown_track)
    show "Q () l'" if "grown live l1 l'" for l'
      using grown_trans [OF \<open>grown live l l1\<close> that] that \<open>(Set_issuer x y, r) \<in> set l1\<close>
      by (intro assms(5)) (auto simp: grown_def)
  qed (use assms in auto)
  show ?thesis
    unfolding server_names_def wp_rules
    using assms(1-4) by (auto intro!: assms(5) sans simp: grown_def)
qed

definition written :: "tls_log \<Rightarrow> string \<Rightarrow> (int \<Rightarrow> tls_call) \<Rightarrow> bool" where
  "written l path writer \<longleftrightarrow>
     (\<exists>b r. (Bio_new_file path, b) \<in> set l \<and> b \<noteq> 0 \<and> (writer b, r) \<in> set l \<and> 0 < r)"

lemma written_grown: "written l path writer \<Longrightarrow> set l \<subseteq> set l' \<Longrightarrow> written l' path writer"
  by (fastforce simp: written_def)

lemma wp_write_pem:
  assumes "track l = Some live" and "\<forall>b. Bio b \<notin> live"
    and "\<And>b. uses (writer b) \<subseteq> insert (Bio b) live" and "\<And>b. changes (writer b) = {}"
    and "\<And>b. frees (writer b) = {}" and "\<And>b r. makes (writer b) r = {}"
    and "\<And>r l'. grown live l l' \<Longrightarrow> (r \<longrightarrow> ok \<and> written l' path writer) \<Longrightarrow> Q r l'"
  shows "wp (write_pem e path writer ok) Q l"
proof -
  have w: "written (x # (writer b, r) # (Bio_new_file path, b) # l) path writer"
    if "0 < r" and "b \<noteq> 0" for x b r
    unfolding written_def using that by (intro exI [of _ b] exI [of _ r]) simp
  show ?thesis
    unfolding write_pem_def wp_rules
    using assms(1-6) by (auto intro!: assms(7) w simp: grown_def insert_remove)
qed

lemma wp_write_chain:
  assumes "track l = Some live" and "\<forall>b. Bio b \<notin> live"
    and "{Cert x, Signed x, Cert y, Signed y, Pkey k, Pkey m} \<subseteq> live"
    and "\<And>r l'. grown live l l' \<Longrightarrow>
      (r \<longrightarrow> written l' (ca_cert_file config) (\<lambda>b. Write_X509 b x) \<and>
        written l' (cc_ca_key_file config) (\<lambda>b. Write_private_key b k) \<and>
        written l' (server_cert_file config) (\<lambda>b. Write_X509 b y) \<and>
        written l' (server_key_file config) (\<lambda>b. Write_private_key b m)) \<Longrightarrow> Q r l'"
  shows "wp (write_chain e config x k y m) Q l"
proof -
  have pem: "wp (write_pem e path writer ok) R l1"
    if "grown live l l1"
      and "writer \<in> {\<lambda>b. Write_X509 b x, \<lambda>b. Write_private_key b k, \<lambda>b. Write_X509 b y, \<lambda>b. Write_private_key b m}"
      and "\<And>r l'. grown live l l' \<Longrightarrow> set l1 \<subseteq> set l' \<Longrightarrow> (r \<longrightarrow> ok \<and> written l' path writer) \<Longrightarrow> R r l'"
    for path writer ok R l1
  proof (rule wp_write_pem)
    show "track l1 = Some live" using that(1) by (rule grown_track)
    show "R r l'" if g: "grown live l1 l'" and "r \<longrightarrow> ok \<and> written l' path writer" for r l'
      using grown_trans [OF \<open>grown live l l1\<close> g] g that(2)
      by (intro \<open>\<And>r l'. grown live l l' \<Longrightarrow> set l1 \<subseteq> set l' \<Longrightarrow>
          (r \<longrightarrow> ok \<and> written l' path writer) \<Longrightarrow> R r l'\<close>) (auto simp: grown_def)
  qed (use that(2) assms(2,3) in auto)
  show ?thesis
    unfolding write_chain_def wp_rules
    by (rule pem [OF grown_refl [OF assms(1)]], simp, rule pem, assumption, simp, rule pem, assumption, simp,
        rule pem, assumption, simp, rule assms(4), assumption)
       (auto elim!: written_grown)
qed

text \<open>What ends up in the four files: two certificates that belong to each other and to the keys.\<close>

definition chain_written :: "CertConfig \<Rightarrow> tls_log \<Rightarrow> bool" where
  "chain_written config l \<longleftrightarrow>
     (\<exists>ca_cert ca_key server_cert server_key.
        ca_cert \<noteq> server_cert \<and> ca_key \<noteq> server_key \<and>
        (\<exists>r. (Set_pubkey ca_cert ca_key, r) \<in> set l) \<and>
        (\<exists>r. (Set_pubkey server_cert server_key, r) \<in> set l) \<and>
        (\<exists>r. (Set_issuer server_cert ca_cert, r) \<in> set l) \<and>
        (\<exists>r. (X509_sign ca_cert ca_key, r) \<in> set l \<and> r \<noteq> 0) \<and>
        (\<exists>r. (X509_sign server_cert ca_key, r) \<in> set l \<and> r \<noteq> 0) \<and>
        written l (ca_cert_file config) (\<lambda>b. Write_X509 b ca_cert) \<and>
        written l (cc_ca_key_file config) (\<lambda>b. Write_private_key b ca_key) \<and>
        written l (server_cert_file config) (\<lambda>b. Write_X509 b server_cert) \<and>
        written l (server_key_file config) (\<lambda>b. Write_private_key b server_key))"

lemma wp_free_keys:
  assumes "track l = Some {Pkey k, Pkey m}" and "k \<noteq> m"
    and "\<And>l'. grown {} l l' \<Longrightarrow> Q () l'"
  shows "wp (free_keys e k m) Q l"
  unfolding free_keys_def wp_rules
  using assms(1,2) by (auto intro!: assms(3) simp: grown_def)

definition chain_result :: "CertConfig \<Rightarrow> bool \<Rightarrow> tls_log \<Rightarrow> bool" where
  "chain_result config r l \<longleftrightarrow> track l = Some {} \<and> (r \<longrightarrow> chain_written config l)"

lemma chain_written_mono: "chain_written config l \<Longrightarrow> set l \<subseteq> set l' \<Longrightarrow> chain_written config l'"
  unfolding chain_written_def using written_grown by (meson subsetD)

lemma wp_finish:
  assumes "track l = Some {Pkey k, Pkey m}" and "k \<noteq> m" and "r \<longrightarrow> chain_written config l"
  shows "wp (free_keys e k m) (\<lambda>_. wp (State_Monad.return r) (chain_result config)) l"
  using assms(3)
  by (intro wp_free_keys [OF assms(1,2)])
     (auto simp: wp_return chain_result_def grown_def intro: chain_written_mono)

lemma chain_writtenI:
  assumes "x \<noteq> y" and "k \<noteq> m"
    and "\<exists>q. (Set_pubkey x k, q) \<in> set l" and "\<exists>t. (X509_sign x k, t) \<in> set l \<and> t \<noteq> 0"
    and "\<exists>q. (Set_pubkey y m, q) \<in> set l" and "\<exists>q. (Set_issuer y x, q) \<in> set l"
    and "\<exists>t. (X509_sign y k, t) \<in> set l \<and> t \<noteq> 0"
    and "written l (ca_cert_file config) (\<lambda>b. Write_X509 b x)"
    and "written l (cc_ca_key_file config) (\<lambda>b. Write_private_key b k)"
    and "written l (server_cert_file config) (\<lambda>b. Write_X509 b y)"
    and "written l (server_key_file config) (\<lambda>b. Write_private_key b m)"
  shows "chain_written config l"
  unfolding chain_written_def using assms by blast

lemma wp_server_certificate:
  assumes "track l = Some {Pkey k, Pkey m, Cert x, Signed x}" and "k \<noteq> m"
    and "x \<le> int (length l)"
    and "\<exists>q. (Set_pubkey x k, q) \<in> set l" and "\<exists>t. (X509_sign x k, t) \<in> set l \<and> t \<noteq> 0"
  shows "wp (server_certificate e config k m x) (chain_result config) l"
proof -
  let ?y = "1 + int (length l)"
  let ?live = "{Pkey k, Pkey m, Cert x, Signed x, Cert ?y}"
  show ?thesis
    unfolding server_certificate_def wp_bind wp_obj wp_if
    apply (rule if_split [THEN iffD2], intro conjI impI)
    subgoal
      apply (simp add: wp_rules)
      apply (rule wp_fill_cert [where live = ?live])
      using assms apply (auto)[3]
      apply (rule wp_server_names [where live = ?live])
      apply (erule grown_track)
      using assms apply (auto)[3]
      apply (simp add: wp_sys, intro conjI impI)
      subgoal by (rule wp_finish) (use assms in \<open>auto simp: grown_def\<close>)
      subgoal
        apply (rule wp_write_chain [where live = "insert (Signed ?y) ?live"])
        using assms apply (auto simp: grown_def)[3]
        apply (simp add: wp_sys)
        apply (rule wp_finish)
        using assms apply (auto simp: grown_def)[2]
        apply (rule impI, rule chain_written_mono [OF _ subset_trans [OF set_subset_Cons set_subset_Cons]],
          rule chain_writtenI [of x ?y k m])
        using assms(2-5) apply (auto simp: grown_def)
        done
      done
    subgoal
      apply (simp add: wp_rules)
      by (rule wp_finish) (use assms in auto)
    done
qed

lemma wp_ca_certificate:
  assumes "track l = Some {Pkey k, Pkey m}" and "k \<noteq> m"
  shows "wp (ca_certificate e config k m) (chain_result config) l"
proof -
  let ?x = "1 + int (length l)"
  show ?thesis
    unfolding ca_certificate_def wp_bind wp_obj wp_if
    apply (rule if_split [THEN iffD2], intro conjI impI)
    subgoal
      apply (simp add: wp_rules)
      apply (rule wp_fill_cert [where live = "{Pkey k, Pkey m, Cert ?x}"])
      using assms apply (auto)[3]
      apply (simp add: wp_rules, intro conjI impI)
      subgoal by (rule wp_finish) (use assms in \<open>auto simp: grown_def\<close>)
      subgoal for l1
        apply (rule wp_server_certificate)
        using assms apply (auto simp: grown_def)
        done
      done
    subgoal
      apply (simp add: wp_rules)
      by (rule wp_finish) (use assms in auto)
    done
qed

lemma wp_GenerateFullChain:
  assumes "track l = Some {}"
  shows "wp (GenerateFullChain e config) (chain_result config) l"
  unfolding GenerateFullChain_def wp_bind
  apply (rule wp_CreateDirectoryIfNotExists [OF assms])
  apply (rule wp_CreateDirectoryIfNotExists, erule grown_track)
  apply (rule wp_GenerateKey, erule grown_track, simp)
  apply (rule wp_GenerateKey, erule grown_track, simp)
  apply (simp add: wp_rules)
  apply (auto simp: chain_result_def grown_def intro: wp_ca_certificate)
  done

lemma wp_EnsureCertificates:
  assumes "\<And>r l. track l = Some {} \<Longrightarrow> r \<longrightarrow> chain_written config l \<or>
      (\<exists>q n. q \<noteq> 0 \<and> q = e n (Fs_exists (cc_ca_key_file config))) \<Longrightarrow> Q r l"
  shows "wp (EnsureCertificates e config) Q []"
proof -
  have gen: "wp (GenerateFullChain e config) Q l" if "track l = Some {}" for l
    using wp_GenerateFullChain [OF that, of e config]
    unfolding wp_def by (auto simp: chain_result_def intro: assms)
  have keys: "wp (if r2
        then sys e (Fs_exists (cc_ca_key_file config)) else State_Monad.return 0)
      (\<lambda>r. wp (if r \<noteq> 0 then sys e (Fs_exists (server_key_file config)) else State_Monad.return 0)
        (\<lambda>r. wp (if r \<noteq> 0 then State_Monad.return True
          else GenerateFullChain e config \<bind> State_Monad.return) Q)) l"
    if "track l = Some {}" for r2 l
    using that by (auto simp: wp_rules intro!: gen assms)
  have "wp (if r1 then IsCertValid e (server_cert_file config) else State_Monad.return False)
      (\<lambda>r. wp (if r then sys e (Fs_exists (cc_ca_key_file config)) else State_Monad.return 0)
        (\<lambda>r. wp (if r \<noteq> 0 then sys e (Fs_exists (server_key_file config)) else State_Monad.return 0)
          (\<lambda>r. wp (if r \<noteq> 0 then State_Monad.return True
            else GenerateFullChain e config \<bind> State_Monad.return) Q))) l1"
    if l1: "track l1 = Some {}" for r1 l1
  proof (cases r1)
    case True
    have "wp (IsCertValid e (server_cert_file config)) R l1"
      if "\<And>r l'. track l' = Some {} \<Longrightarrow> R r l'" for R
      using l1 that by (intro wp_IsCertValid) (auto simp: grown_def)
    with True keys show ?thesis by simp
  next
    case False
    with keys [OF l1, of False] show ?thesis by (simp add: wp_rules)
  qed
  then show ?thesis
    unfolding EnsureCertificates_def wp_bind
    by (intro wp_IsCertValid) (simp_all add: grown_def)
qed

section \<open>Properties\<close>

text \<open>
  C40: Certificates are generated safely: whatever the library and the file system answer, every key,
  certificate, extension, context and file that was created has been released exactly once and is
  not used afterwards, no certificate is changed after it was signed, and only signed ones are
  written. Success means that the four files hold a CA certificate with its key and a server
  certificate with its key that the CA has signed.
\<close>

theorem certificate_chain_generated:
  assumes "run_state (GenerateFullChain e config) [] = (r, l)"
  shows "track l = Some {} \<and> (r \<longrightarrow> chain_written config l)"
  using wp_GenerateFullChain [of "[]" e config] assms by (simp add: wp_def chain_result_def)

theorem certificate_chain_generated_witness:
  "chain_written CertConfig_default
     (snd (run_state (GenerateFullChain (\<lambda>n c. 1) CertConfig_default) []))"
proof (rule certificate_chain_generated [THEN conjunct2, THEN mp])
  show "run_state (GenerateFullChain (\<lambda>n c. 1) CertConfig_default) [] =
      (fst (run_state (GenerateFullChain (\<lambda>n c. 1) CertConfig_default) []),
       snd (run_state (GenerateFullChain (\<lambda>n c. 1) CertConfig_default) []))" by simp
  show "fst (run_state (GenerateFullChain (\<lambda>n c. 1) CertConfig_default) [])" by code_simp
qed

text \<open>The check of the existing files leaves nothing behind either.\<close>

theorem ensure_certificates_released:
  "track (snd (run_state (EnsureCertificates e config) [])) = Some {}"
  using wp_EnsureCertificates [of config e "\<lambda>r l. track l = Some {}"]
  by (simp add: wp_def split: prod.splits)

text \<open>
  A server whose certificate was issued by someone else has no key of that CA. Then success means
  that its certificate and its key have been replaced, however valid they were.
\<close>

theorem missing_ca_key_replaces_certificate:
  assumes "\<And>n. e n (Fs_exists (cc_ca_key_file config)) = 0"
    and "run_state (EnsureCertificates e config) [] = (True, l)"
  shows "chain_written config l"
  using wp_EnsureCertificates [of config e "\<lambda>r l. r \<longrightarrow> chain_written config l"] assms
  by (simp add: wp_def)

end
