(* ===== verification/Tunnel.thy ===== *)
theory Tunnel
  imports Mux_Flow Bridge "HOL-Library.Sublist"
begin

text \<open>
  A proxied connection from end to end: a bridge at the server between the user's socket and the
  work stream, the work stream with its flow control, and a bridge at the client between the work
  stream and the socket of the local service (\<open>src/common/async_bridge.cpp\<close> on top of
  \<open>src/common/mux.cpp\<close>). \<open>tunnel_step\<close> interleaves the reads from both sockets, the deliveries of
  frames and the reads from the work stream freely. What a bridge has written to its socket is a
  function of what it has read from the work stream, because its reads there follow one another.
\<close>

section \<open>The system\<close>

text \<open>The blocks that the bridge at each end has read from its socket and sent.\<close>

record tunnel =
  tn_flow :: flow
  sent_a :: "bytes list"
  sent_b :: "bytes list"

definition tunnel_swap :: "tunnel \<Rightarrow> tunnel" where
  "tunnel_swap t = \<lparr>tn_flow = swap (tn_flow t), sent_a = sent_b t, sent_b = sent_a t\<rparr>"

definition tunnel_init :: "32 word \<Rightarrow> tunnel" where
  "tunnel_init sid = \<lparr>tn_flow = flow_init sid, sent_a = [], sent_b = []\<rparr>"

text \<open>
  \<open>socket_read\<close>: the bridge at end a has read a block from its socket and writes the packet to
  its end of the work stream; the block counts as sent unless the stream refuses the write.
  \<open>stream\<close>: any step of the two ends of the work stream that is not a write of an application.
\<close>

inductive tunnel_step :: "zstd \<Rightarrow> bridge \<Rightarrow> tunnel \<Rightarrow> tunnel \<Rightarrow> bool" for z b where
  socket_read: "\<lbrakk>d \<noteq> []; length d \<le> 32768;
    written_blocks (snd (on_read_some z 1 Success d b)) = [packet];
    stream_step (Ev_write [packet] h) (fl_a (tn_flow t)) = Some r\<rbrakk> \<Longrightarrow>
    tunnel_step z b t
      (t\<lparr>tn_flow := after_step (Ev_write [packet] h) r (tn_flow t),
         sent_a := sent_a t @
           (if accepted (Ev_write [packet] h) (fl_a (tn_flow t)) = [] then [] else [d])\<rparr>)"
| stream: "\<lbrakk>flow_step (tn_flow t) f; put_a f = put_a (tn_flow t); put_b f = put_b (tn_flow t)\<rbrakk> \<Longrightarrow>
    tunnel_step z b t (t\<lparr>tn_flow := f\<rparr>)"
| other_side: "tunnel_step z b (tunnel_swap t) (tunnel_swap u) \<Longrightarrow> tunnel_step z b t u"

inductive tunnel_reach :: "zstd \<Rightarrow> bridge \<Rightarrow> tunnel \<Rightarrow> bool" for z b where
  tunnel_start: "tunnel_reach z b (tunnel_init sid)"
| tunnel_next: "\<lbrakk>tunnel_reach z b t; tunnel_step z b t u\<rbrakk> \<Longrightarrow> tunnel_reach z b u"

text \<open>
  What a bridge has written to its socket when it has read \<open>bs\<close> from the work stream: the
  unpacked blocks, or without compression the bytes as they come.
\<close>

definition tunnel_out :: "zstd \<Rightarrow> bridge \<Rightarrow> bytes \<Rightarrow> bytes" where
  "tunnel_out z b bs = (if use_compression b then concat (fst (bridge_recv z bs b)) else bs)"

section \<open>The packets on the work stream\<close>

definition wire_block :: "zstd \<Rightarrow> bridge \<Rightarrow> bytes \<Rightarrow> bytes" where
  "wire_block z b d = (if use_compression b then enc_packet (pack z (compression_level b) d) else d)"

lemma on_read_some_packet:
  "written_blocks (snd (on_read_some z 1 Success d b)) = [wire_block z b d]"
  by (simp add: on_read_some_def wire_block_def)

lemma wire_block_ne: "d \<noteq> [] \<Longrightarrow> wire_block z b d \<noteq> []"
  by (simp add: wire_block_def enc_packet_def)

definition tunnel_inv :: "zstd \<Rightarrow> bridge \<Rightarrow> tunnel \<Rightarrow> bool" where
  "tunnel_inv z b t \<longleftrightarrow> flow_reach (tn_flow t) \<and>
     put_a (tn_flow t) = concat (map (wire_block z b) (sent_a t)) \<and>
     put_b (tn_flow t) = concat (map (wire_block z b) (sent_b t)) \<and>
     list_all (\<lambda>d. length d \<le> 32768) (sent_a t) \<and> list_all (\<lambda>d. length d \<le> 32768) (sent_b t)"

lemma flow_step_swap: "flow_step (swap f) g \<Longrightarrow> flow_step f (swap g)"
  using flow_step.other_end [of f "swap g"] by simp

lemma swap_init: "swap (flow_init sid) = flow_init sid"
  by (simp add: swap_def flow_init_def)

lemma flow_reach_swap: "flow_reach f \<Longrightarrow> flow_reach (swap f)"
proof (induction rule: flow_reach.induct)
  case (flow_start sid)
  show ?case unfolding swap_init by (rule flow_reach.flow_start)
next
  case (flow_next f g)
  have "flow_step (swap f) (swap g)"
    using flow_step.other_end [of "swap f" "swap g"] flow_next.hyps by simp
  with flow_next show ?case by (auto intro: flow_reach.flow_next)
qed

lemma tunnel_inv_swap: "tunnel_inv z b (tunnel_swap t) = tunnel_inv z b t"
proof -
  have "flow_reach (swap (tn_flow t)) = flow_reach (tn_flow t)"
    using flow_reach_swap [of "tn_flow t"] flow_reach_swap [of "swap (tn_flow t)"] by auto
  moreover have "put_a (swap f) = put_b f" "put_b (swap f) = put_a f" for f by (simp_all add: swap_def)
  ultimately show ?thesis by (auto simp: tunnel_inv_def tunnel_swap_def)
qed

lemma tunnel_inv_init: "tunnel_inv z b (tunnel_init sid)"
  using flow_start [of sid] by (simp add: tunnel_inv_def tunnel_init_def flow_init_def)

lemma tunnel_step_inv: "tunnel_step z b t u \<Longrightarrow> tunnel_inv z b t \<Longrightarrow> tunnel_inv z b u"
proof (induction rule: tunnel_step.induct)
  case (socket_read d packet h t r)
  let ?e = "Ev_write [packet] h"
  have p: "packet = wire_block z b d" using socket_read(3) on_read_some_packet [of z d b] by simp
  then have ne: "packet \<noteq> []" using socket_read(1) by (simp add: wire_block_ne)
  have "flow_step (tn_flow t) (after_step ?e r (tn_flow t))"
    using socket_read(4) by (intro flow_step.app) simp_all
  then have "flow_reach (after_step ?e r (tn_flow t))"
    using socket_read.prems by (auto simp: tunnel_inv_def intro: flow_next)
  then show ?case
    using socket_read.prems socket_read(2) p ne by (simp add: tunnel_inv_def after_step_def)
next
  case (stream t f)
  then show ?case by (auto simp: tunnel_inv_def intro: flow_next)
next
  case (other_side t u)
  then show ?case by (simp add: tunnel_inv_swap)
qed

lemma tunnel_reach_inv: "tunnel_reach z b t \<Longrightarrow> tunnel_inv z b t"
  by (induction rule: tunnel_reach.induct) (auto intro: tunnel_inv_init tunnel_step_inv)

section \<open>Unpacking what has arrived so far\<close>

lemma recv_short:
  assumes "\<not> br_stopped b" and "length body \<le> MAX_MESSAGE_SIZE"
    and "prefix bs (enc_packet (c, body))" and "bs \<noteq> enc_packet (c, body)"
  shows "fst (bridge_recv z bs b) = []"
proof (cases "length bs < 4")
  case True
  then show ?thesis by (subst bridge_recv.simps) simp
next
  case False
  have n: "unat (word_of_nat (length body) :: 32 word) = length body"
    using assms(2) by (intro unat_word32) (simp add: MAX_MESSAGE_SIZE_def)
  have len: "length body < 2 ^ 31" using assms(2) by (simp add: MAX_MESSAGE_SIZE_def)
  have short: "length bs < 4 + length body"
    using assms(3,4) prefix_length_less [of bs "enc_packet (c, body)"]
    by (simp add: enc_packet_def strict_prefix_def)
  obtain rest where r: "enc_packet (c, body) = bs @ rest" using assms(3) by (auto elim: prefixE)
  have "take 4 bs = take 4 (enc_packet (c, body))" unfolding r using False by simp
  then have "take 4 bs =
      be32 (if c then word_of_nat (length body) OR COMPRESSION_FLAG else word_of_nat (length body))"
    by (simp add: enc_packet_def)
  with False short assms(1,2) n header_word [OF len] show ?thesis
    by (subst bridge_recv.simps) (simp add: on_header_def Let_def)
qed

lemma recv_prefix:
  assumes "zstd_lossless z" and "\<not> br_stopped b" and "list_all (\<lambda>d. length d \<le> 32768) blocks"
    and "prefix bs (concat (map (\<lambda>d. enc_packet (pack z level d)) blocks))"
  shows "prefix (fst (bridge_recv z bs b)) blocks"
  using assms(2-4)
proof (induction blocks arbitrary: b bs)
  case Nil
  then show ?case by (subst bridge_recv.simps) simp
next
  case (Cons d blocks)
  let ?p = "pack z level d"
  have d: "length d \<le> MAX_MESSAGE_SIZE" using Cons.prems(2) by (simp add: MAX_MESSAGE_SIZE_def)
  note ok = pack_ok [OF assms(1) d, of level]
  show ?case
  proof (cases "prefix bs (enc_packet ?p) \<and> bs \<noteq> enc_packet ?p")
    case True
    with recv_short [OF Cons.prems(1) ok(1), of bs "fst ?p" z] show ?thesis by simp
  next
    case False
    with Cons.prems(3) obtain bs' where bs: "bs = enc_packet ?p @ bs'"
      "prefix bs' (concat (map (\<lambda>d. enc_packet (pack z level d)) blocks))"
      by (auto simp: prefix_append)
    obtain b' where b': "\<not> br_stopped b'" "bridge_recv z (enc_packet ?p @ bs') b =
        (case bridge_recv z bs' b' of (ds, b3, r) \<Rightarrow> (d # ds, b3, r))"
      using recv_one [OF Cons.prems(1) ok(1), of z "fst ?p" d bs'] ok(2) by auto
    have "prefix (fst (bridge_recv z bs' b')) blocks"
      using Cons.IH [OF b'(1) _ bs(2)] Cons.prems(2) by simp
    then show ?thesis using bs(1) b'(2) by (simp add: case_prod_beta)
  qed
qed

lemma prefix_concat: "prefix xs ys \<Longrightarrow> prefix (concat xs) (concat ys)"
  by (auto simp: prefix_def)

lemma tunnel_direction:
  assumes "zstd_lossless z" and "\<not> br_stopped b" and "tunnel_inv z b t"
  shows "prefix (tunnel_out z b (got_b (tn_flow t))) (concat (sent_a t)) \<and>
    (unread (fl_b (tn_flow t)) = [] \<and> wire_data (wire_ab (tn_flow t)) = [] \<and> pending_bytes (fl_a (tn_flow t)) = [] \<longrightarrow>
      tunnel_out z b (got_b (tn_flow t)) = concat (sent_a t))"
proof -
  have inv: "list_all (\<lambda>d. length d \<le> 32768) (sent_a t)"
    "put_a (tn_flow t) = concat (map (wire_block z b) (sent_a t))" "flow_reach (tn_flow t)"
    using assms(3) by (simp_all add: tunnel_inv_def)
  have put: "put_a (tn_flow t) = got_b (tn_flow t) @ unread (fl_b (tn_flow t)) @
      wire_data (wire_ab (tn_flow t)) @ pending_bytes (fl_a (tn_flow t))"
    using flow_reach_inv [OF inv(3)] by (simp add: flow_inv_def dir_inv_def)
  show ?thesis
  proof (cases "use_compression b")
    case True
    then have w: "wire_block z b = (\<lambda>d. enc_packet (pack z (compression_level b) d))"
      by (simp add: wire_block_def fun_eq_iff)
    have "prefix (got_b (tn_flow t)) (concat (map (\<lambda>d. enc_packet (pack z (compression_level b) d)) (sent_a t)))"
      using put inv(2) w by (metis prefixI)
    from recv_prefix [OF assms(1,2) inv(1) this] True
    have "prefix (tunnel_out z b (got_b (tn_flow t))) (concat (sent_a t))"
      by (simp add: tunnel_out_def prefix_concat)
    moreover have "tunnel_out z b (concat (map (wire_block z b) (sent_a t))) = concat (sent_a t)"
      using bridge_packets [OF assms(1,2) inv(1), of "compression_level b"] True w
      by (auto simp: tunnel_out_def)
    ultimately show ?thesis using put inv(2) by auto
  next
    case False
    then have "wire_block z b = (\<lambda>d. d)" by (simp add: wire_block_def fun_eq_iff)
    then have "put_a (tn_flow t) = concat (sent_a t)" using inv(2) by simp
    with False put show ?thesis by (auto simp: tunnel_out_def)
  qed
qed

section \<open>Properties\<close>


lemma tunnel_witness_reach:
  "\<exists>t. tunnel_reach rle (Bridge True 1 False) t \<and> sent_a t = [[5, 6]] \<and>
     wire_data (wire_ab (tn_flow t)) = [0, 0, 0, 2, 5, 6]"
proof -
  let ?b = "Bridge True 1 False" and ?f = "flow_init 9"
  let ?p = "[0, 0, 0, 2, 5, 6] :: bytes"
  obtain r where r: "stream_step (Ev_write [?p] 7) (new_stream 9) = Some r" by simp
  have wr: "written_blocks (snd (on_read_some rle 1 Success [5, 6] ?b)) = [?p]"
    by (simp add: on_read_some_def Bridge_def pack_def rle_def rle_compress_def enc_packet_def be32_def submit_op_def)
  have "tunnel_step rle ?b (tunnel_init 9)
     ((tunnel_init 9)\<lparr>tn_flow := after_step (Ev_write [?p] 7) r ?f, sent_a := [[5, 6]]\<rparr>)"
    using tunnel_step.socket_read [OF _ _ wr, of 7 "tunnel_init 9" r] r
    by (simp add: tunnel_init_def flow_init_def new_stream_def kMuxStreamMaxPendingWrites_def)
  moreover have "wire_data (frames_of (snd r)) = ?p" using r by (auto simp: flow_written_eval)
  ultimately show ?thesis
    using tunnel_next [OF tunnel_start [of rle ?b 9]]
    by (fastforce simp: after_step_def flow_init_def tunnel_init_def)
qed


end
