(* ===== verification/Settings.thy ===== *)
theory Settings
  imports Config Acceptor Certificates End_To_End
begin

text \<open>
  From the configuration to the running objects: the part of \<open>main\<close> in \<open>src/main.cpp\<close> that reads
  the tables \<open>[server]\<close> and \<open>[client]\<close>, and the constructors \<open>Server::Server\<close>
  (\<open>src/server/server.cpp\<close>) and \<open>Client::Client\<close> (\<open>src/client/client.cpp\<close>) with the choice of
  certificates and of the verification of the peer. Loading a certificate is a call of asio, whose
  answer is a parameter.
\<close>

section \<open>The server's table\<close>

record server_ssl =
  ss_enable :: bool
  ss_auto_generate :: bool
  ss_cert_file :: string
  ss_key_file :: string
  ss_ca_file :: string
  ss_domains :: "string list"

definition server_ssl_default :: server_ssl where
  "server_ssl_default =
     \<lparr>ss_enable = True, ss_auto_generate = True, ss_cert_file = ''certs/server.crt'',
      ss_key_file = ''certs/server.key'', ss_ca_file = ''certs/ca.crt'', ss_domains = []\<rparr>"

text \<open>\<open>as_table\<close> of a child.\<close>

definition get_table :: "'n toml_api \<Rightarrow> 'n \<Rightarrow> string \<Rightarrow> 'n option" where
  "get_table T n k = Option.bind (tm_at T n k) (\<lambda>c. if tm_table T c then Some c else None)"

definition parse_server_ssl :: "'n toml_api \<Rightarrow> 'n \<Rightarrow> server_ssl" where
  "parse_server_ssl T server =
     (case get_table T server ''ssl'' of
        None \<Rightarrow> server_ssl_default
      | Some t \<Rightarrow>
          \<lparr>ss_enable = value_or (get_bool T t ''enable'') True,
           ss_auto_generate = value_or (get_bool T t ''auto_generate'') True,
           ss_cert_file = value_or (get_string T t ''cert_file'') ''certs/server.crt'',
           ss_key_file = value_or (get_string T t ''key_file'') ''certs/server.key'',
           ss_ca_file = value_or (get_string T t ''ca_file'') ''certs/ca.crt'',
           ss_domains =
             (case Option.bind (tm_at T t ''domains'') (tm_array T) of
                Some ds \<Rightarrow> List.map_filter (tm_string T) ds | None \<Rightarrow> [])\<rparr>)"

record server_settings =
  se_log_level :: "string option"
  se_bind_addr :: string
  se_bind_port :: "16 word"
  se_token :: string
  se_protocol :: string
  se_ssl :: server_ssl
  se_allowed_ports :: "(16 word \<times> 16 word) list"
  se_allowed_clients :: "string list"
  se_vhost_http :: "16 word"
  se_vhost_https :: "16 word"
  se_pool :: pool

text \<open>
  \<open>cli_tok\<close> is the token of the command line, empty when there is none. The buffer pool is read
  from the whole document, everything else from its table \<open>[server]\<close>.
\<close>

definition parse_server :: "'n toml_api \<Rightarrow> string \<Rightarrow> 'n \<Rightarrow> 'n \<Rightarrow> server_settings" where
  "parse_server T cli_tok config server =
     \<lparr>se_log_level = get_string T server ''log_level'',
      se_bind_addr = value_or (get_string T server ''bind_addr'') ''0.0.0.0'',
      se_bind_port = word_of_int (value_or (get_int T server ''bind_port'') 7000),
      se_token = (if cli_tok \<noteq> '''' then cli_tok else value_or (get_string T server ''token'') ''''),
      se_protocol = value_or (get_string T server ''protocol'') ''auto'',
      se_ssl = parse_server_ssl T server,
      se_allowed_ports = parse_allowed_ports T server,
      se_allowed_clients = parse_allowed_clients T server,
      se_vhost_http = word_of_int (value_or (get_int T server ''vhost_http_port'') 0),
      se_vhost_https = word_of_int (value_or (get_int T server ''vhost_https_port'') 0),
      se_pool = ParseBufferPool T (Some config)\<rparr>"

record mgmt_settings =
  ms_bind_addr :: string
  ms_bind_port :: "16 word"
  ms_username :: string
  ms_password :: string

definition parse_mgmt :: "'n toml_api \<Rightarrow> 'n \<Rightarrow> mgmt_settings option" where
  "parse_mgmt T server =
     (case get_table T server ''management'' of
        None \<Rightarrow> None
      | Some m \<Rightarrow>
          if value_or (get_bool T m ''enable'') False
          then Some
            \<lparr>ms_bind_addr = value_or (get_string T m ''bind_addr'') ''127.0.0.1'',
             ms_bind_port = word_of_int (value_or (get_int T m ''bind_port'') 7002),
             ms_username = value_or (get_string T m ''username'') '''',
             ms_password = value_or (get_string T m ''password'') ''''\<rparr>
          else None)"

section \<open>The constructor of the server\<close>

text \<open>
  The certificates are made when TLS or QUIC is in use; a failure of \<open>EnsureCertificates\<close> is not
  looked at, and the four loads stop at the first that throws, which is caught. \<open>load\<close> tells
  whether the \<open>i\<close>-th load succeeds. The result is \<open>None\<close> when the constructor throws, which happens
  for a CA file without \<open>.crt\<close> in its name.
\<close>

record server_object =
  so_state :: server
  so_listen :: listen_config
  so_contexts :: bool
  so_loaded :: nat
  so_pool :: pool

definition needs_tls :: "server_settings \<Rightarrow> bool" where
  "needs_tls se \<longleftrightarrow> ss_enable (se_ssl se) \<or> se_protocol se = ''quic'' \<or> se_protocol se = ''auto''"

definition cert_config :: "server_ssl \<Rightarrow> string \<Rightarrow> CertConfig" where
  "cert_config ssl key =
     CertConfig_default\<lparr>ca_cert_file := ss_ca_file ssl, server_cert_file := ss_cert_file ssl,
       server_key_file := ss_key_file ssl, domains := ss_domains ssl, cc_ca_key_file := key\<rparr>"

fun loads_until :: "(nat \<Rightarrow> bool) \<Rightarrow> nat \<Rightarrow> nat \<Rightarrow> nat" where
  "loads_until load i 0 = i"
| "loads_until load i (Suc k) = (if load i then loads_until load (Suc i) k else i)"

definition Server_Server ::
    "tls_env \<Rightarrow> (nat \<Rightarrow> bool) \<Rightarrow> server_settings \<Rightarrow> (tls_log, server_object option) state" where
  "Server_Server e load se =
     (let made = (\<lambda>contexts.
            \<lparr>so_state = new_server (se_token se) (se_allowed_ports se) (se_allowed_clients se),
             so_listen = \<lparr>lc_protocol = se_protocol se, lc_ssl = ss_enable (se_ssl se),
               lc_vhost_http = se_vhost_http se, lc_vhost_https = se_vhost_https se\<rparr>,
             so_contexts = contexts, so_loaded = (if contexts then loads_until load 0 4 else 0),
             so_pool = se_pool se\<rparr>)
      in if \<not> needs_tls se then State_Monad.return (Some (made False))
         else if ss_auto_generate (se_ssl se)
         then (case ca_key_file (ss_ca_file (se_ssl se)) of
                 None \<Rightarrow> State_Monad.return None
               | Some key \<Rightarrow> do {
                   _ \<leftarrow> EnsureCertificates e (cert_config (se_ssl se) key);
                   State_Monad.return (Some (made True)) })
         else State_Monad.return (Some (made True)))"

section \<open>The client's table\<close>

record client_ssl =
  ks_enable :: bool
  ks_verify_peer :: bool
  ks_verify_host :: bool
  ks_ca_file :: string

definition client_ssl_default :: client_ssl where
  "client_ssl_default =
     \<lparr>ks_enable = True, ks_verify_peer = False, ks_verify_host = False, ks_ca_file = ''certs/ca.crt''\<rparr>"

definition parse_client_ssl :: "'n toml_api \<Rightarrow> 'n \<Rightarrow> client_ssl" where
  "parse_client_ssl T node =
     (case get_table T node ''ssl'' of
        None \<Rightarrow> client_ssl_default
      | Some t \<Rightarrow>
          \<lparr>ks_enable = value_or (get_bool T t ''enable'') True,
           ks_verify_peer = value_or (get_bool T t ''verify_peer'') False,
           ks_verify_host = value_or (get_bool T t ''verify_host'') False,
           ks_ca_file = value_or (get_string T t ''ca_file'') ''certs/ca.crt''\<rparr>)"

record client_settings =
  ce_log_level :: "string option"
  ce_server_addr :: string
  ce_server_port :: "16 word"
  ce_token :: string
  ce_name :: string
  ce_conf_d :: string
  ce_protocol :: string
  ce_compression :: bool
  ce_compression_level :: int
  ce_ssl :: client_ssl
  ce_pool :: pool
  ce_proxies :: "ProxyConfig list"

text \<open>
  The proxies of a client. A bandwidth limit that overflows is undefined behaviour and makes the
  result \<open>None\<close>.
\<close>

fun parse_proxies :: "'n toml_api \<Rightarrow> 'n list \<Rightarrow> ProxyConfig list option" where
  "parse_proxies T [] = Some []"
| "parse_proxies T (elem # elems) =
     (if tm_table T elem
      then (case parse_proxy T elem of
              None \<Rightarrow> None
            | Some pc \<Rightarrow> map_option ((#) pc) (parse_proxies T elems))
      else parse_proxies T elems)"

definition client_node :: "'n toml_api \<Rightarrow> 'n \<Rightarrow> 'n option" where
  "client_node T config =
     (case tm_at T config ''client'' of Some n \<Rightarrow> Some n | None \<Rightarrow> tm_at T config ''server'')"

definition parse_client :: "'n toml_api \<Rightarrow> string \<Rightarrow> 'n \<Rightarrow> client_settings option" where
  "parse_client T cli_tok node =
     map_option (\<lambda>proxies.
       \<lparr>ce_log_level = get_string T node ''log_level'',
        ce_server_addr = value_or (get_string T node ''server_addr'') ''127.0.0.1'',
        ce_server_port = word_of_int (value_or (get_int T node ''server_port'') 7001),
        ce_token = (if cli_tok \<noteq> '''' then cli_tok else value_or (get_string T node ''token'') ''''),
        ce_name = value_or (get_string T node ''name'') '''',
        ce_conf_d = value_or (get_string T node ''conf_d'') '''',
        ce_protocol = value_or (get_string T node ''protocol'') ''auto'',
        ce_compression = value_or (get_bool T node ''compression'') True,
        ce_compression_level = value_or (get_int T node ''compression_level'') 1,
        ce_ssl = parse_client_ssl T node,
        ce_pool = ParseBufferPool T (if tm_table T node then Some node else None),
        ce_proxies = proxies\<rparr>)
       (case Option.bind (tm_at T node ''proxies'') (tm_array T) of
          Some elems \<Rightarrow> parse_proxies T elems | None \<Rightarrow> Some [])"

text \<open>What \<open>main\<close> makes of it: the client with its static proxies.\<close>

definition make_client :: "client_settings \<Rightarrow> client" where
  "make_client ce =
     fold AddProxy (ce_proxies ce)
       (Client (ce_token ce) (ce_name ce) (ce_compression ce) (ce_compression_level ce) (ce_conf_d ce)
          (ce_protocol ce))"

section \<open>The verification of the peer\<close>

datatype trust = Ca_file string | System_paths

text \<open>
  The TLS context of the client: \<open>None\<close> without TLS; else the trust store when the peer is
  verified and the host name to compare with. \<open>client_quic_context\<close> is the context of
  \<open>DoQuicConnect\<close> with the checks it adds to the session.
\<close>

definition client_tls_context :: "client_ssl \<Rightarrow> string \<Rightarrow> (trust option \<times> string option) option" where
  "client_tls_context ssl server_addr =
     (if \<not> ks_enable ssl then None
      else if ks_verify_peer ssl
      then Some (Some (if ks_ca_file ssl \<noteq> '''' then Ca_file (ks_ca_file ssl) else System_paths),
                 if ks_verify_host ssl then Some server_addr else None)
      else Some (None, None))"

definition client_quic_context :: "client_ssl \<Rightarrow> string \<Rightarrow> trust option \<times> string option \<times> string option" where
  "client_quic_context ssl server_addr =
     ((if ks_verify_peer ssl
       then Some (if ks_ca_file ssl \<noteq> '''' then Ca_file (ks_ca_file ssl) else System_paths) else None),
      (if ks_enable ssl \<and> ks_verify_peer ssl \<and> ks_verify_host ssl then Some server_addr else None),
      (if ks_enable ssl then Some server_addr else None))"

section \<open>What reaches the running program\<close>

lemma Server_Server_state:
  assumes "run_state (Server_Server e load se) l = (Some so, l')"
  shows "so_state so = new_server (se_token se) (se_allowed_ports se) (se_allowed_clients se) \<and>
    lc_ssl (so_listen so) = ss_enable (se_ssl se) \<and> lc_protocol (so_listen so) = se_protocol se"
  using assms
  by (auto simp: Server_Server_def Let_def State_Monad.bind_def split: if_splits option.splits prod.splits)

lemma parse_server_simps [simp]:
  "se_token (parse_server T tok config server) =
     (if tok \<noteq> '''' then tok else value_or (get_string T server ''token'') '''')"
  "se_allowed_ports (parse_server T tok config server) = parse_allowed_ports T server"
  "se_allowed_clients (parse_server T tok config server) = parse_allowed_clients T server"
  "se_ssl (parse_server T tok config server) = parse_server_ssl T server"
  "se_protocol (parse_server T tok config server) = value_or (get_string T server ''protocol'') ''auto''"
  by (simp_all add: parse_server_def)

text \<open>
  C37: The ports of the configuration are enforced: on a server made from a document whose
  \<open>allowed_ports\<close> is one range \<open>lo-hi\<close>, every listener that any reachable session holds, whatever
  its client has sent, is on a port from \<open>lo\<close> to \<open>hi\<close>.
\<close>

theorem configured_ports_enforced:
  assumes "tm_at T server ''allowed_ports'' = Some a" and "tm_array T a = Some [elem]"
    and "tm_string T elem = Some (to_string lo @ ''-'' @ to_string hi)"
    and "lo < 65536" and "hi < 65536"
    and "run_state (Server_Server e load (parse_server T tok config server)) l = (Some so, l')"
    and "same_policy (so_state so) sv" and "cs_reach cs sv"
  shows "\<forall>p \<in> set (proxies cs @ udp_proxies cs). lo \<le> unat (pl_port p) \<and> unat (pl_port p) \<le> hi"
proof
  fix p
  assume "p \<in> set (proxies cs @ udp_proxies cs)"
  then have "IsPortAllowed (pl_port p) sv"
    using cs_reach_inv [OF assms(8)] by (auto simp: cs_inv_def ports_ok_def list_all_iff)
  then have "IsPortAllowed (pl_port p) (so_state so)" using IsPortAllowed_policy [OF assms(7)] by simp
  then have "IsPortAllowed (pl_port p)
      (new_server (if tok \<noteq> '''' then tok else value_or (get_string T server ''token'') '''')
        (parse_allowed_ports T server) (parse_allowed_clients T server))"
    using Server_Server_state [OF assms(6)] by simp
  then show "lo \<le> unat (pl_port p) \<and> unat (pl_port p) \<le> hi"
    using assms(1-5) by (simp add: configured_port_range)
qed

definition demo_doc :: toml where
  "demo_doc = T_tab
     [(''token'', T_str ''secret''), (''protocol'', T_str ''tcp''),
      (''allowed_ports'', T_arr [T_str (to_string 1000 @ ''-'' @ to_string 2000)]),
      (''ssl'', T_tab [(''enable'', T_bool False)])]"

lemma demo_doc_server:
  "\<exists>so. run_state (Server_Server e load (parse_server toml_doc '''' (T_tab []) demo_doc)) l = (Some so, l) \<and>
    so_state so = demo_server"
proof -
  have "parse_allowed_ports toml_doc demo_doc = [(1000, 2000)]"
    using parse_port_range [of 1000 2000]
    by (simp add: parse_allowed_ports_def demo_doc_def parse_allowed_port_def)
  moreover have "parse_allowed_clients toml_doc demo_doc = []"
    by (simp add: parse_allowed_clients_def demo_doc_def)
  moreover have "ss_enable (parse_server_ssl toml_doc demo_doc) = False"
    by (simp add: demo_doc_def parse_server_ssl_def get_table_def get_bool_def value_or_def)
  moreover have "get_string toml_doc demo_doc ''token'' = Some ''secret''"
    "get_string toml_doc demo_doc ''protocol'' = Some ''tcp''"
    by (simp_all add: demo_doc_def get_string_def)
  ultimately show ?thesis
    by (simp add: Server_Server_def Let_def needs_tls_def value_or_def demo_server_def)
qed

lemma demo_run_policy: "same_policy demo_server (snd demo_run)"
  by (simp add: demo_run_def login_msg_def login_body register_body LoginMessage_ok_def proxy_msg_def
      RegisterProxyMessage_ok_def IsClientAllowed_def demo_server_def new_server_def AllocateClientName_def
      ControlSession_def HandleRegisterProxy_def Let_def is_vhost_type_def IsPortAllowed_def same_policy_def)

theorem configured_ports_enforced_witness:
  "proxies (fst demo_run) = [\<lparr>pl_name = ''web'', pl_port = 1500, pl_ref = 5\<rparr>] \<and>
   list_all (\<lambda>p. 1000 \<le> unat (pl_port p) \<and> unat (pl_port p) \<le> 2000)
     (proxies (fst demo_run) @ udp_proxies (fst demo_run))"
proof -
  obtain so where so: "run_state (Server_Server (\<lambda>n c. 1) (\<lambda>i. True)
      (parse_server toml_doc '''' (T_tab []) demo_doc)) [] = (Some so, [])" "so_state so = demo_server"
    using demo_doc_server by blast
  have reach: "cs_reach (fst demo_run) (snd demo_run)"
    unfolding demo_run_def by (intro cs_reach_after_body) (simp add: cs_new)
  have "\<forall>p \<in> set (proxies (fst demo_run) @ udp_proxies (fst demo_run)).
      1000 \<le> unat (pl_port p) \<and> unat (pl_port p) \<le> 2000"
    by (rule configured_ports_enforced [where a = "T_arr [T_str (to_string 1000 @ ''-'' @ to_string 2000)]"
          and elem = "T_str (to_string 1000 @ ''-'' @ to_string 2000)",
          OF _ _ _ _ _ so(1) _ reach])
       (use so(2) demo_run_policy in \<open>simp_all add: demo_doc_def\<close>)
  then show ?thesis by (simp add: list_all_iff demo_run_proxies)
qed

lemma fold_AddProxy: "cl_token (fold AddProxy ps c) = cl_token c \<and> cl_name (fold AddProxy ps c) = cl_name c"
  by (induction ps arbitrary: c) (auto simp: AddProxy_def)

lemma parse_client_identity:
  assumes "parse_client T tok node = Some ce"
  shows "cl_token (make_client ce) = (if tok \<noteq> '''' then tok else value_or (get_string T node ''token'') '''') \<and>
    cl_name (make_client ce) = value_or (get_string T node ''name'') ''''"
proof -
  from assms have "ce_token ce = (if tok \<noteq> '''' then tok else value_or (get_string T node ''token'') '''')"
    "ce_name ce = value_or (get_string T node ''name'') ''''"
    by (auto simp: parse_client_def)
  then show ?thesis
    using fold_AddProxy [of "ce_proxies ce" "Client (ce_token ce) (ce_name ce) (ce_compression ce)
        (ce_compression_level ce) (ce_conf_d ce) (ce_protocol ce)"]
    by (simp add: make_client_def Client_def)
qed

text \<open>
  Two configuration files with the same token and no list of clients make a client that the
  server accepts. A file without a token counts as one with the empty token: then whoever sends
  an empty token is accepted.
\<close>

theorem configured_client_accepted:
  assumes "parse_client T '''' node = Some ce"
    and "run_state (Server_Server e load (parse_server T '''' config server)) l = (Some so, l')"
    and "value_or (get_string T node ''token'') '''' = value_or (get_string T server ''token'') ''''"
    and "tm_at T server ''allowed_clients'' = None"
    and "short (value_or (get_string T node ''token'') '''')" and "short (value_or (get_string T node ''name'') '''')"
  shows "\<exists>cs' sv' outs. HandleMessage listen now ref (login_message (make_client ce)) cs (so_state so) =
    Inr (cs', sv', outs) \<and> authenticated cs'"
proof -
  note c = parse_client_identity [OF assms(1)] and s = Server_Server_state [OF assms(2)]
  have "IsClientAllowed n (so_state so)" for n
    using s assms(4) by (simp add: IsClientAllowed_def new_server_def parse_allowed_clients_def)
  moreover have "cl_token (make_client ce) = sv_token (so_state so)"
    using c s assms(3) by (simp add: new_server_def)
  ultimately show ?thesis
    using login_accepted [of "make_client ce" "so_state so" listen now ref cs] c assms(5,6) by simp
qed

theorem configured_client_accepted_witness:
  "\<exists>cs' sv' outs. HandleMessage (\<lambda>_ _. None) 0 0
      (login_message (make_client (the (parse_client toml_doc '''' (T_tab [])))))
      (ControlSession 2 (Some 7)) (so_state (the (fst (run_state
        (Server_Server (\<lambda>n c. 1) (\<lambda>i. False) (parse_server toml_doc '''' (T_tab []) (T_tab []))) [])))) =
    Inr (cs', sv', outs) \<and> authenticated cs'"
proof (rule configured_client_accepted)
  show "parse_client toml_doc '''' (T_tab []) = Some (the (parse_client toml_doc '''' (T_tab [])))"
    by (simp add: parse_client_def)
  show "run_state (Server_Server (\<lambda>n c. 1) (\<lambda>i. False) (parse_server toml_doc '''' (T_tab []) (T_tab []))) [] =
      (Some (the (fst (run_state (Server_Server (\<lambda>n c. 1) (\<lambda>i. False) (parse_server toml_doc '''' (T_tab []) (T_tab []))) []))),
       snd (run_state (Server_Server (\<lambda>n c. 1) (\<lambda>i. False) (parse_server toml_doc '''' (T_tab []) (T_tab []))) []))"
    by (simp add: Server_Server_def Let_def parse_server_ssl_def get_table_def server_ssl_default_def
        ca_key_file_example needs_tls_def State_Monad.bind_def split: prod.splits)
qed (simp_all add: get_string_def value_or_def)

text \<open>
  Certificates that cannot be loaded do not keep the server from starting with TLS switched on;
  then no TLS handshake can succeed.
\<close>

lemma server_starts_without_certificate:
  assumes "ss_enable (se_ssl se)" and "\<not> ss_auto_generate (se_ssl se)"
  shows "\<exists>so. run_state (Server_Server e (\<lambda>i. False) se) l = (Some so, l) \<and>
    lc_ssl (so_listen so) \<and> so_loaded so = 0"
  using assms by (simp add: Server_Server_def Let_def needs_tls_def eval_nat_numeral)

text \<open>
  Over TLS, the peer is verified exactly when \<open>enable\<close> and \<open>verify_peer\<close> are set, and its name
  exactly when \<open>verify_host\<close> is set too; QUIC verifies the peer also without \<open>enable\<close>, but
  never the name then.
\<close>

lemma peer_verification:
  "(\<exists>t h. client_tls_context ssl addr = Some (Some t, h)) \<longleftrightarrow> ks_enable ssl \<and> ks_verify_peer ssl"
  "(\<exists>t. client_tls_context ssl addr = Some (t, Some addr)) \<longleftrightarrow>
     ks_enable ssl \<and> ks_verify_peer ssl \<and> ks_verify_host ssl"
  "fst (client_quic_context ssl addr) \<noteq> None \<longleftrightarrow> ks_verify_peer ssl"
  "fst (snd (client_quic_context ssl addr)) = Some addr \<longleftrightarrow>
     ks_enable ssl \<and> ks_verify_peer ssl \<and> ks_verify_host ssl"
  by (auto simp: client_tls_context_def client_quic_context_def)

end
