(* ===== verification/Lifecycle.thy ===== *)
theory Lifecycle
  imports Config
begin

text \<open>
  The program as a process (\<open>main\<close> in \<open>src/main.cpp\<close>, the process utilities of
  \<open>src/common/utils.h\<close>): the commands \<open>status\<close>, \<open>stop\<close> and \<open>config\<close>, the files generated on the
  first start, background mode with its PID file, the handler of \<open>SIGINT\<close> and \<open>SIGTERM\<close>, and the
  loops of the worker threads. It is the POSIX branch of the code. A machine has the files next
  to the executable, the processes of cfrp and other processes; whether \<open>kill\<close> succeeds is a
  parameter. All processes belong to one user, so that \<open>kill(pid, 0)\<close> succeeds exactly for the
  processes that exist.
\<close>

section \<open>The machine\<close>

datatype phase = Child | Recorded | Foreground | Stopping

text \<open>The PID file: absent, not starting with a number, or a number.\<close>

record machine =
  pid_file :: "int option option"
  status_file :: "string list option"
  procs :: "int \<Rightarrow> phase option"
  others :: "int \<Rightarrow> bool"

definition IsProcessRunning :: "int \<Rightarrow> machine \<Rightarrow> bool" where
  "IsProcessRunning pid m \<longleftrightarrow> procs m pid \<noteq> None \<or> others m pid"

definition recorded_pid :: "machine \<Rightarrow> int option" where
  "recorded_pid m = (case pid_file m of Some (Some p) \<Rightarrow> Some p | _ \<Rightarrow> None)"

definition int_string :: "int \<Rightarrow> string" where
  "int_string i = (if i < 0 then CHR ''-'' # to_string (nat (- i)) else to_string (nat i))"

section \<open>The commands\<close>

definition rule_line :: string where "rule_line = replicate 39 (CHR ''-'')"

definition not_running :: "string list" where "not_running = [''cfrp is not running.'']"

definition cmd_status :: "machine \<Rightarrow> string list" where
  "cmd_status m =
     (case recorded_pid m of
        None \<Rightarrow> not_running
      | Some pid \<Rightarrow>
          if IsProcessRunning pid m
          then [rule_line, ''  cfrp status: Running'', ''  PID:         '' @ int_string pid] @
               (case status_file m of Some ls \<Rightarrow> map (\<lambda>l. ''  '' @ l) ls | None \<Rightarrow> []) @ [rule_line]
          else [''cfrp is not running (stale PID: '' @ int_string pid @ '').''])"

text \<open>
  \<open>cfrp stop\<close>: the machine, the output, the exit code and the process that was signalled.
  \<open>kill_ok\<close> is the answer of \<open>kill(pid, SIGTERM)\<close>.
\<close>

definition remove_files :: "machine \<Rightarrow> machine" where
  "remove_files m = m\<lparr>pid_file := None, status_file := None\<rparr>"

definition cmd_stop :: "(int \<Rightarrow> bool) \<Rightarrow> machine \<Rightarrow> machine \<times> string \<times> nat \<times> int option" where
  "cmd_stop kill_ok m =
     (case recorded_pid m of
        None \<Rightarrow> (m, ''cfrp is not running.'', 0, None)
      | Some pid \<Rightarrow>
          if IsProcessRunning pid m
          then (if kill_ok pid
                then (remove_files m, ''Stopped cfrp process '' @ int_string pid, 0, Some pid)
                else (m, ''Error: Failed to stop process '' @ int_string pid, 1, None))
          else (remove_files m,
                ''Process '' @ int_string pid @ '' is not running. Cleaning up stale PID file.'', 0, None))"

text \<open>
  The command line up to the start: \<open>config\<close> with an unknown subcommand is not a command, the
  words are then read as options and files.
\<close>

datatype command =
    Cmd_status
  | Cmd_stop
  | Cmd_usage
  | Cmd_config_ls
  | Cmd_config_get string
  | Cmd_config_set string string
  | Cmd_start

fun command_of :: "string list \<Rightarrow> command" where
  "command_of [] = Cmd_start"
| "command_of (a # args) =
     (if a = ''status'' then Cmd_status
      else if a = ''stop'' then Cmd_stop
      else if a = ''config'' then
        (case args of
           [] \<Rightarrow> Cmd_usage
         | sub # rest \<Rightarrow>
             if sub = ''ls'' then Cmd_config_ls
             else if sub = ''get'' then (case rest of [] \<Rightarrow> Cmd_usage | k # _ \<Rightarrow> Cmd_config_get k)
             else if sub = ''set''
             then (case rest of k # v # _ \<Rightarrow> Cmd_config_set k v | _ \<Rightarrow> Cmd_usage)
             else Cmd_start)
      else Cmd_start)"

definition daemon_worker :: "string list \<Rightarrow> bool" where
  "daemon_worker args \<longleftrightarrow> ''--daemon-worker'' \<in> set args"

text \<open>
  How a value of the settings file is printed. \<open>show_float\<close> is the library's rendering of a
  floating-point value. \<open>config ls\<close> prints all entries, \<open>config get\<close> one; the file is absent
  (\<open>None\<close>), not a TOML document (\<open>Some None\<close>, exit code 1) or a document.
\<close>

definition bool_string :: "bool \<Rightarrow> string" where
  "bool_string b = (if b then ''true'' else ''false'')"

definition scalar_string :: "'n toml_api \<Rightarrow> ('n \<Rightarrow> string option) \<Rightarrow> 'n \<Rightarrow> string option" where
  "scalar_string T show_float n =
     (case tm_integer T n of
        Some i \<Rightarrow> Some (int_string i)
      | None \<Rightarrow> (case tm_bool T n of Some b \<Rightarrow> Some (bool_string b) | None \<Rightarrow> show_float n))"

definition config_line :: "'n toml_api \<Rightarrow> ('n \<Rightarrow> string option) \<Rightarrow> string \<times> 'n \<Rightarrow> string" where
  "config_line T show_float kv =
     fst kv @ '' = '' @
     (case tm_string T (snd kv) of
        Some s \<Rightarrow> [CHR 0x22] @ s @ [CHR 0x22]
      | None \<Rightarrow> (case scalar_string T show_float (snd kv) of
                   Some s \<Rightarrow> s | None \<Rightarrow> ''<complex type>''))"

definition config_ls ::
    "'n toml_api \<Rightarrow> ('n \<Rightarrow> string option) \<Rightarrow> ('n \<Rightarrow> (string \<times> 'n) list) \<Rightarrow> 'n option option \<Rightarrow>
     string list \<times> nat" where
  "config_ls T show_float entries file =
     (case file of
        None \<Rightarrow> ([], 0)
      | Some None \<Rightarrow> ([], 1)
      | Some (Some doc) \<Rightarrow> (map (config_line T show_float) (entries doc), 0))"

definition config_get ::
    "'n toml_api \<Rightarrow> ('n \<Rightarrow> string option) \<Rightarrow> string \<Rightarrow> 'n option option \<Rightarrow> string list \<times> nat" where
  "config_get T show_float key file =
     (case file of
        None \<Rightarrow> ([], 0)
      | Some None \<Rightarrow> ([], 1)
      | Some (Some doc) \<Rightarrow>
          (case tm_at T doc key of
             None \<Rightarrow> ([], 0)
           | Some n \<Rightarrow>
               (case tm_string T n of
                  Some s \<Rightarrow> ([s], 0)
                | None \<Rightarrow> (case scalar_string T show_float n of Some s \<Rightarrow> ([s], 0) | None \<Rightarrow> ([], 0)))))"

section \<open>Generated files\<close>

text \<open>The lines that are written, with \<open>quoted\<close> for a text in quotation marks.\<close>

definition quoted :: "string \<Rightarrow> string" where "quoted s = [CHR 0x22] @ s @ [CHR 0x22]"

definition tool_config_template :: "string list" where
  "tool_config_template =
     [''# cfrp global tool configuration'', ''working_mode = '' @ quoted ''foreground'']"

definition client_template :: "string \<Rightarrow> string \<Rightarrow> string list" where
  "client_template ca_path token =
     [''# Default Client Configuration'',
      ''[client]'',
      ''server_addr = '' @ quoted ''127.0.0.1'',
      ''server_port = 7001'',
      ''token = '' @ quoted (if token \<noteq> '''' then token else ''secret_token''),
      ''name = '' @ quoted ''my-client'',
      ''protocol = '' @ quoted ''auto'',
      ''compression = true'',
      ''log_level = '' @ quoted ''info'',
      '''',
      ''[client.performance]'',
      ''threads = 2'',
      ''# Buffer Pool settings (optional, optimized for low memory by default)'',
      ''# buffer_pool = ['',
      ''#   { buffer_size = 512, initial_count = 8, max_count = 32 },'',
      ''#   { buffer_size = 1024, initial_count = 4, max_count = 16 },'',
      ''#   { buffer_size = 4096, initial_count = 2, max_count = 8 },'',
      ''#   { buffer_size = 65536, initial_count = 1, max_count = 4 }'',
      ''# ]'',
      '''',
      ''[client.ssl]'',
      ''enable = true'',
      ''verify_peer = true'',
      ''ca_file = '' @ quoted ca_path,
      '''',
      ''[[client.proxies]]'',
      ''name = '' @ quoted ''ssh'',
      ''type = '' @ quoted ''tcp'',
      ''local_ip = '' @ quoted ''127.0.0.1'',
      ''local_port = 22'',
      ''remote_port = 6000'',
      '''']"

definition server_template :: "string \<Rightarrow> string list" where
  "server_template token =
     [''# Default Server Configuration'',
      ''[server]'',
      ''bind_addr = '' @ quoted ''0.0.0.0'',
      ''bind_port = 7001'',
      ''token = '' @ quoted (if token \<noteq> '''' then token else ''secret_token''),
      ''log_level = '' @ quoted ''info'',
      '''',
      ''[server.performance]'',
      ''threads = 2'',
      ''memory_profile = '' @ quoted ''low'' @
        '' # Options: low, standard, high. Optimized for edge devices by default.'',
      '''',
      ''# Virtual Host ports for HTTP and HTTPS (SNI routing)'',
      ''vhost_http_port = 8080'',
      ''vhost_https_port = 8443'',
      '''',
      ''[server.ssl]'',
      ''enable = true'',
      ''auto_generate = true'',
      ''cert_file = '' @ quoted ''certs/server.crt'',
      ''key_file = '' @ quoted ''certs/server.key'',
      ''ca_file = '' @ quoted ''certs/ca.crt'',
      '''']"

text \<open>The table that a key of such a file belongs to: the last header before its line.\<close>

fun key_table :: "string \<Rightarrow> string \<Rightarrow> string list \<Rightarrow> string option" where
  "key_table key header [] = None"
| "key_table key header (l # ls) =
     (if l \<noteq> [] \<and> hd l = CHR ''['' then key_table key l ls
      else if line_key l = Some key then Some header else key_table key header ls)"

section \<open>Starting\<close>

text \<open>
  \<open>working_mode\<close> of the tool's configuration; a file that is absent (it is then generated) or
  cannot be parsed leaves the default. \<open>home\<close> is the user's home directory, empty when unknown.
\<close>

definition working_mode :: "'n toml_api \<Rightarrow> string \<Rightarrow> 'n option option \<Rightarrow> string" where
  "working_mode T home file =
     (if home = '''' then ''foreground''
      else (case file of
              Some (Some doc) \<Rightarrow> value_or (get_string T doc ''working_mode'') ''foreground''
            | _ \<Rightarrow> ''foreground''))"

datatype launch = Launch_refused int | Launch_fork | Launch_recording | Launch_plain

definition launch :: "string \<Rightarrow> bool \<Rightarrow> machine \<Rightarrow> launch" where
  "launch mode daemon m =
     (if mode = ''background'' \<or> daemon
      then (case (if daemon then None else recorded_pid m) of
              Some pid \<Rightarrow>
                if IsProcessRunning pid m then Launch_refused pid
                else if mode = ''background'' \<and> \<not> daemon then Launch_fork else Launch_recording
            | None \<Rightarrow> if mode = ''background'' \<and> \<not> daemon then Launch_fork else Launch_recording)
      else Launch_plain)"

definition write_pid :: "int \<Rightarrow> machine \<Rightarrow> machine" where
  "write_pid self m = m\<lparr>pid_file := Some (Some self)\<rparr>"

definition status_lines :: "run_mode \<Rightarrow> string \<Rightarrow> string list" where
  "status_lines mode path =
     [''Mode:        '' @ (case mode of Run_server \<Rightarrow> ''Server'' | _ \<Rightarrow> ''Client''), ''Config:      '' @ path]"

text \<open>The handler of the signals; the process ends when the event loop has stopped.\<close>

definition on_signal :: "int \<Rightarrow> machine \<Rightarrow> machine" where
  "on_signal self m = (if recorded_pid m = Some self then remove_files m else m)"

section \<open>The worker threads\<close>

text \<open>
  \<open>io_context.run()\<close> again and again until it returns; an exception of a handler is logged and
  the loop goes on. The result counts the exceptions; \<open>None\<close> while it has not returned.
\<close>

datatype run_result = Returned | Threw

fun event_loop :: "run_result list \<Rightarrow> nat \<Rightarrow> nat option" where
  "event_loop [] n = None"
| "event_loop (Returned # rs) n = Some n"
| "event_loop (Threw # rs) n = event_loop rs (Suc n)"

lemma event_loop_survives: "event_loop (replicate k Threw @ Returned # rs) n = Some (n + k)"
  by (induction k arbitrary: n) auto

section \<open>Processes over time\<close>

text \<open>
  A background start is two steps, the check with the fork and the writing of the PID file by
  the child. With \<open>serial\<close> nobody starts cfrp while another start is between the two. A signal ends
  a process that has not installed its handler yet; any process may die at any time.
\<close>

definition signal_process :: "int \<Rightarrow> machine \<Rightarrow> machine" where
  "signal_process p m =
     m\<lparr>procs := (procs m)(p := (case procs m p of
        None \<Rightarrow> None | Some Child \<Rightarrow> None | Some ph \<Rightarrow> Some Stopping))\<rparr>"

inductive life :: "bool \<Rightarrow> machine \<Rightarrow> machine \<Rightarrow> bool" for serial where
  start_background: "\<lbrakk>launch ''background'' False m = Launch_fork; \<not> IsProcessRunning p m;
    serial \<Longrightarrow> \<forall>q. procs m q \<noteq> Some Child\<rbrakk> \<Longrightarrow>
    life serial m (m\<lparr>procs := (procs m)(p := Some Child)\<rparr>)"
| record_pid: "procs m p = Some Child \<Longrightarrow>
    life serial m (write_pid p (m\<lparr>procs := (procs m)(p := Some Recorded)\<rparr>))"
| start_foreground: "\<lbrakk>launch mode False m = Launch_plain; \<not> IsProcessRunning p m\<rbrakk> \<Longrightarrow>
    life serial m (m\<lparr>procs := (procs m)(p := Some Foreground)\<rparr>)"
| write_status: "procs m p \<in> {Some Recorded, Some Foreground} \<Longrightarrow>
    life serial m (m\<lparr>status_file := Some (status_lines mode path)\<rparr>)"
| stop_command: "cmd_stop kill_ok m = (m', out, code, target) \<Longrightarrow>
    life serial m (case target of None \<Rightarrow> m' | Some p \<Rightarrow> signal_process p m')"
| other_signal: "life serial m (signal_process p m)"
| handler: "procs m p = Some Stopping \<Longrightarrow>
    life serial m ((on_signal p m)\<lparr>procs := (procs m)(p := None)\<rparr>)"
| death: "life serial m (m\<lparr>procs := (procs m)(p := None)\<rparr>)"
| other_process: "procs m p = None \<Longrightarrow> life serial m (m\<lparr>others := (others m)(p := b)\<rparr>)"

inductive life_reach :: "bool \<Rightarrow> machine \<Rightarrow> bool" for serial where
  life_init: "life_reach serial \<lparr>pid_file = None, status_file = None, procs = (\<lambda>_. None), others = f\<rparr>"
| life_next: "\<lbrakk>life_reach serial m; life serial m m'\<rbrakk> \<Longrightarrow> life_reach serial m'"

definition active :: "machine \<Rightarrow> int \<Rightarrow> bool" where
  "active m p \<longleftrightarrow> procs m p = Some Child \<or> procs m p = Some Recorded"

definition life_inv :: "machine \<Rightarrow> bool" where
  "life_inv m \<longleftrightarrow> (\<forall>p q. active m p \<longrightarrow> active m q \<longrightarrow> p = q) \<and>
     (\<forall>p. procs m p = Some Recorded \<longrightarrow> pid_file m = Some (Some p))"

section \<open>One background process\<close>

lemma remove_files_simps [simp]:
  "procs (remove_files m) = procs m" "others (remove_files m) = others m" "pid_file (remove_files m) = None"
  by (simp_all add: remove_files_def)

lemma recorded_running: "procs m p = Some ph \<Longrightarrow> IsProcessRunning p m"
  by (simp add: IsProcessRunning_def)

lemma recorded_pid_Some: "recorded_pid m = Some p \<longleftrightarrow> pid_file m = Some (Some p)"
  by (simp add: recorded_pid_def split: option.splits)

lemma signal_process_simps [simp]:
  "pid_file (signal_process p m) = pid_file m"
  "procs (signal_process p m) q = Some Child \<longleftrightarrow> q \<noteq> p \<and> procs m q = Some Child"
  "procs (signal_process p m) q = Some Recorded \<longleftrightarrow> q \<noteq> p \<and> procs m q = Some Recorded"
  by (auto simp: signal_process_def split: option.splits phase.splits)

lemma life_inv_signal: "life_inv m \<Longrightarrow> life_inv (signal_process p m)"
  by (auto simp: life_inv_def active_def)

lemma life_inv_stop:
  assumes "life_inv m" and "cmd_stop kill_ok m = (m', out, code, target)"
  shows "life_inv (case target of None \<Rightarrow> m' | Some p \<Rightarrow> signal_process p m')"
proof (cases "recorded_pid m")
  case None
  with assms show ?thesis by (auto simp: cmd_stop_def)
next
  case (Some pid)
  have only: "q = pid" if "procs m q = Some Recorded" for q
    using assms(1) that Some by (auto simp: life_inv_def recorded_pid_Some)
  show ?thesis
  proof (cases "IsProcessRunning pid m")
    case True
    then have "m' = remove_files m \<and> target = Some pid \<or> m' = m \<and> target = None"
      using assms(2) unfolding cmd_stop_def Some by (simp split: if_splits)
    moreover have "life_inv (signal_process pid (remove_files m))"
      using assms(1) only by (auto simp: life_inv_def active_def)
    ultimately show ?thesis using assms(1) by auto
  next
    case False
    then have "procs m q \<noteq> Some Recorded" for q using only recorded_running by metis
    with Some False assms show ?thesis by (auto simp: cmd_stop_def life_inv_def active_def)
  qed
qed

lemma life_step_inv: "life True m m' \<Longrightarrow> life_inv m \<Longrightarrow> life_inv m'"
proof (induction rule: life.induct)
  case (start_background m p)
  have none: "procs m q \<noteq> Some Recorded" for q
  proof
    assume q: "procs m q = Some Recorded"
    then have "recorded_pid m = Some q"
      using start_background.prems by (simp add: life_inv_def recorded_pid_Some)
    with start_background(1) recorded_running [OF q] show False by (simp add: launch_def)
  qed
  with start_background show ?case by (auto simp: life_inv_def active_def)
next
  case (record_pid m p)
  then show ?case by (auto simp: life_inv_def active_def write_pid_def)
next
  case (start_foreground mode m p)
  then show ?case by (auto simp: life_inv_def active_def IsProcessRunning_def)
next
  case (stop_command kill_ok m m' out code target)
  then show ?case by (blast intro: life_inv_stop)
next
  case (other_signal m p)
  then show ?case by (rule life_inv_signal)
next
  case (handler m p)
  then show ?case by (auto simp: life_inv_def active_def on_signal_def recorded_pid_Some)
qed (auto simp: life_inv_def active_def)

lemma life_reach_inv: "life_reach True m \<Longrightarrow> life_inv m"
proof (induction rule: life_reach.induct)
  case (life_init f)
  show ?case by (simp add: life_inv_def active_def)
qed (blast intro: life_step_inv)


definition fresh_machine :: machine where
  "fresh_machine = \<lparr>pid_file = None, status_file = None, procs = (\<lambda>_. None), others = (\<lambda>_. False)\<rparr>"

lemma fresh_forks: "launch ''background'' False (fresh_machine\<lparr>procs := f\<rparr>) = Launch_fork"
  by (simp add: launch_def fresh_machine_def recorded_pid_def)

lemma one_start: "life_reach serial (write_pid 41 (fresh_machine\<lparr>procs := [41 \<mapsto> Recorded]\<rparr>))"
proof -
  have "life_reach serial fresh_machine" unfolding fresh_machine_def by (rule life_init)
  moreover have "life serial fresh_machine (fresh_machine\<lparr>procs := [41 \<mapsto> Child]\<rparr>)"
    using start_background [of fresh_machine 41 serial] fresh_forks [of "procs fresh_machine"]
    by (simp add: IsProcessRunning_def fresh_machine_def)
  moreover have "life serial (fresh_machine\<lparr>procs := [41 \<mapsto> Child]\<rparr>)
      (write_pid 41 (fresh_machine\<lparr>procs := [41 \<mapsto> Recorded]\<rparr>))"
    using record_pid [of "fresh_machine\<lparr>procs := [41 \<mapsto> Child]\<rparr>" 41 serial] by simp
  ultimately show ?thesis by (blast intro: life_next)
qed


text \<open>
  Two starts that overlap are both let through: the check and the writing of the PID file are not
  atomic. Then only the second process can be found again.
\<close>

theorem overlapping_starts:
  "\<exists>m. life_reach False m \<and> procs m 41 = Some Recorded \<and> procs m 42 = Some Recorded \<and>
    recorded_pid m = Some 42"
proof -
  let ?m1 = "fresh_machine\<lparr>procs := [41 \<mapsto> Child]\<rparr>"
  let ?m2 = "fresh_machine\<lparr>procs := [41 \<mapsto> Child, 42 \<mapsto> Child]\<rparr>"
  let ?m3 = "write_pid 41 (fresh_machine\<lparr>procs := [41 \<mapsto> Recorded, 42 \<mapsto> Child]\<rparr>)"
  let ?m4 = "write_pid 42 (fresh_machine\<lparr>procs := [41 \<mapsto> Recorded, 42 \<mapsto> Recorded]\<rparr>)"
  have "life_reach False fresh_machine" unfolding fresh_machine_def by (rule life_init)
  moreover have "life False fresh_machine ?m1"
    using start_background [of fresh_machine 41 False] fresh_forks [of "procs fresh_machine"]
    by (simp add: IsProcessRunning_def fresh_machine_def)
  moreover have "life False ?m1 ?m2"
    using start_background [of ?m1 42 False] fresh_forks [of "[41 \<mapsto> Child]"]
    by (simp add: IsProcessRunning_def fresh_machine_def)
  moreover have "life False ?m2 ?m3"
    using record_pid [of ?m2 41 False] by (simp add: fun_upd_twist [of 41 42])
  moreover have "life False ?m3 ?m4"
    using record_pid [of ?m3 42 False] by (simp add: write_pid_def)
  ultimately have "life_reach False ?m4" by (blast intro: life_next)
  then show ?thesis by (intro exI [of _ ?m4]) (simp add: write_pid_def recorded_pid_def)
qed

section \<open>The generated files\<close>

text \<open>
  The ports of the two generated files agree; but the ports for virtual hosts stand in the table
  \<open>[server.performance]\<close>, not in \<open>[server]\<close>, where they are read.
\<close>

lemma generated_ports_agree:
  "''server_port = 7001'' \<in> set (client_template ca tok) \<and> ''bind_port = 7001'' \<in> set (server_template tok')"
  by (simp add: client_template_def server_template_def)

lemma server_template_vhost_table:
  "key_table ''vhost_http_port'' '''' (server_template tok) = Some ''[server.performance]''"
  "key_table ''bind_port'' '''' (server_template tok) = Some ''[server]''"
proof -
  have tok: "line_key (''token = '' @ v) = Some ''token''" for v
    using line_key_set [of "''token''" v] by (simp add: blanks_def)
  show "key_table ''vhost_http_port'' '''' (server_template tok) = Some ''[server.performance]''"
    "key_table ''bind_port'' '''' (server_template tok) = Some ''[server]''"
    using tok unfolding server_template_def
    by (simp_all add: line_key_def quoted_def blanks_def trim_left_def trim_right_def)
qed

end
