(* ===== verification/Program.thy ===== *)
theory Program
  imports Settings Lifecycle
begin

text \<open>
  \<open>main\<close> of \<open>src/main.cpp\<close> as a whole: from the command line, the files and the PID file to what
  the process becomes, a command that ends, a background parent that ends, a server or a
  client, composed of the parts in \<open>Config\<close>, \<open>Settings\<close> and \<open>Lifecycle\<close> in the order of the code.
  The TOML parser is a parameter, a function of the lines of a file.
\<close>

section \<open>The program\<close>

text \<open>\<open>fork\<close> fails, or returns in the parent or in the child (where \<open>setsid\<close> cannot fail).\<close>

datatype fork_answer = Fork_failed | Fork_parent | Fork_child

record os =
  os_home :: string
  os_tool :: "string list option"
  os_files :: "string \<Rightarrow> string list option"
  os_write_ok :: bool
  os_fork :: fork_answer
  os_self :: int
  os_bind_ok :: bool
  os_hardware :: "32 word"
  os_machine :: machine

datatype outcome =
    Exits nat
  | Runs_server server_object "mgmt_settings option" "32 word"
  | Runs_client client "32 word"
  | Undefined_behaviour

text \<open>
  The body of the \<open>try\<close> block on the lines of the configuration file. The sockets of a server are
  bound in its constructor; that they cannot be bound is an exception, as is a CA file whose name
  has no \<open>.crt\<close>.
\<close>

definition set_status :: "run_mode \<Rightarrow> string \<Rightarrow> os \<Rightarrow> os" where
  "set_status mode path w = w\<lparr>os_machine := (os_machine w)\<lparr>status_file := Some (status_lines mode path)\<rparr>\<rparr>"

definition run_document ::
    "'n toml_api \<Rightarrow> tls_env \<Rightarrow> (nat \<Rightarrow> bool) \<Rightarrow> string \<Rightarrow> string \<Rightarrow> string \<Rightarrow> 'n \<Rightarrow> os \<Rightarrow> outcome \<times> os" where
  "run_document T e load path ca token config w =
     (let threads = thread_count T (os_hardware w) config in
      case select_mode T (ca \<noteq> '''') config of
        Run_fail \<Rightarrow> (Exits 1, w)
      | Run_server \<Rightarrow>
          (case tm_at T config ''server'' of
             None \<Rightarrow> (Exits 1, w)
           | Some server \<Rightarrow>
               if \<not> os_bind_ok w then (Exits 1, set_status Run_server path w)
               else (case fst (run_state (Server_Server e load (parse_server T token config server)) []) of
                       None \<Rightarrow> (Exits 1, set_status Run_server path w)
                     | Some so \<Rightarrow> (Runs_server so (parse_mgmt T server) threads, set_status Run_server path w)))
      | Run_client \<Rightarrow>
          (case client_node T config of
             None \<Rightarrow> (Exits 1, w)
           | Some node \<Rightarrow>
               (case parse_client T token node of
                  None \<Rightarrow> (Undefined_behaviour, set_status Run_client path w)
                | Some ce \<Rightarrow> (Runs_client (make_client ce) threads, set_status Run_client path w))))"

definition run_file ::
    "'n toml_api \<Rightarrow> (string list \<Rightarrow> 'n option) \<Rightarrow> tls_env \<Rightarrow> (nat \<Rightarrow> bool) \<Rightarrow> string \<Rightarrow> string \<Rightarrow> string \<Rightarrow>
     os \<Rightarrow> outcome \<times> os" where
  "run_file T toml_parse e load path ca token w =
     (case Option.bind (os_files w path) toml_parse of
        None \<Rightarrow> (Exits 1, w)
      | Some config \<Rightarrow> run_document T e load path ca token config w)"

text \<open>Finding or generating the configuration file. The options are dropped when there is one.\<close>

definition generate :: "string \<Rightarrow> string list \<Rightarrow> os \<Rightarrow> os" where
  "generate path ls w = w\<lparr>os_files := (os_files w)(path \<mapsto> ls)\<rparr>"

definition run_functional ::
    "'n toml_api \<Rightarrow> (string list \<Rightarrow> 'n option) \<Rightarrow> tls_env \<Rightarrow> (nat \<Rightarrow> bool) \<Rightarrow> cli \<Rightarrow> os \<Rightarrow> outcome \<times> os" where
  "run_functional T toml_parse e load c w =
     (case select_config (\<lambda>p. os_files w p \<noteq> None) c of
        Start_exit n \<Rightarrow> (Exits n, w)
      | Use_config path \<Rightarrow> run_file T toml_parse e load path '''' '''' w
      | Generate_client ca token \<Rightarrow>
          if os_write_ok w
          then run_file T toml_parse e load ''client.toml'' ca token
                 (generate ''client.toml'' (client_template ca token) w)
          else (Exits 1, w)
      | Generate_server \<Rightarrow>
          if os_write_ok w
          then run_file T toml_parse e load ''server.toml'' '''' '''' (generate ''server.toml'' (server_template '''') w)
          else (Exits 1, w))"

text \<open>The tool's configuration, generated when it is absent, and background mode.\<close>

definition tool_file :: "(string list \<Rightarrow> 'n option) \<Rightarrow> os \<Rightarrow> 'n option option" where
  "tool_file toml_parse w = (if os_home w = '''' then None else map_option toml_parse (os_tool w))"

definition ensure_tool_config :: "os \<Rightarrow> os" where
  "ensure_tool_config w =
     (if os_home w \<noteq> '''' \<and> os_tool w = None \<and> os_write_ok w
      then w\<lparr>os_tool := Some tool_config_template\<rparr> else w)"

definition record_self :: "os \<Rightarrow> os" where
  "record_self w = w\<lparr>os_machine := write_pid (os_self w) (os_machine w)\<rparr>"

definition run_start ::
    "'n toml_api \<Rightarrow> (string list \<Rightarrow> 'n option) \<Rightarrow> tls_env \<Rightarrow> (nat \<Rightarrow> bool) \<Rightarrow> bool \<Rightarrow> cli \<Rightarrow> os \<Rightarrow> outcome \<times> os" where
  "run_start T toml_parse e load daemon c w =
     (let mode = working_mode T (os_home w) (tool_file toml_parse w);
          w1 = ensure_tool_config w
      in case launch mode daemon (os_machine w1) of
           Launch_refused pid \<Rightarrow> (Exits 1, w1)
         | Launch_fork \<Rightarrow>
             (case os_fork w1 of
                Fork_failed \<Rightarrow> (Exits 1, w1)
              | Fork_parent \<Rightarrow> (Exits 0, w1)
              | Fork_child \<Rightarrow> run_functional T toml_parse e load c (record_self w1))
         | Launch_recording \<Rightarrow> run_functional T toml_parse e load c (record_self w1)
         | Launch_plain \<Rightarrow> run_functional T toml_parse e load c w1)"

definition no_options :: cli where
  "no_options = \<lparr>cli_config = '''', cli_ca = '''', cli_token = '''', cli_level = L_Info\<rparr>"

text \<open>
  \<open>kill_ok\<close>, \<open>show_float\<close> and \<open>entries\<close> are the parameters of the commands; what they print is in
  \<open>Lifecycle\<close>. \<open>config set\<close> writes the file whether or not it can be parsed.
\<close>

definition cfrp_main ::
    "'n toml_api \<Rightarrow> (string list \<Rightarrow> 'n option) \<Rightarrow> ('n \<Rightarrow> string option) \<Rightarrow> ('n \<Rightarrow> (string \<times> 'n) list) \<Rightarrow>
     (int \<Rightarrow> bool) \<Rightarrow> tls_env \<Rightarrow> (nat \<Rightarrow> bool) \<Rightarrow> string list \<Rightarrow> os \<Rightarrow> outcome \<times> os" where
  "cfrp_main T toml_parse show_float entries kill_ok e load args w =
     (case command_of args of
        Cmd_status \<Rightarrow> (Exits 0, w)
      | Cmd_stop \<Rightarrow> (case cmd_stop kill_ok (os_machine w) of (m, _, code, _) \<Rightarrow> (Exits code, w\<lparr>os_machine := m\<rparr>))
      | Cmd_usage \<Rightarrow> (Exits 1, w)
      | Cmd_config_ls \<Rightarrow> (Exits (snd (config_ls T show_float entries (tool_file toml_parse w))), w)
      | Cmd_config_get key \<Rightarrow> (Exits (snd (config_get T show_float key (tool_file toml_parse w))), w)
      | Cmd_config_set key value \<Rightarrow>
          if os_home w = '''' then (Exits 1, w)
          else (Exits 0, w\<lparr>os_tool := Some (config_set key value (case os_tool w of Some ls \<Rightarrow> ls | None \<Rightarrow> []))\<rparr>)
      | Cmd_start \<Rightarrow>
          (case parse_args args no_options of
             Cli_exit n \<Rightarrow> (Exits n, w)
           | Cli_run c \<Rightarrow> run_start T toml_parse e load (daemon_worker args) c w))"

section \<open>Which role a process takes\<close>

text \<open>A configuration file, named or found, makes \<open>-c\<close> and \<open>-t\<close> irrelevant.\<close>

lemma config_file_overrides_options:
  assumes "cli_config c \<noteq> '''' \<or> os_files w ''server.toml'' \<noteq> None \<or> os_files w ''client.toml'' \<noteq> None"
  shows "run_functional T toml_parse e load c w =
    run_functional T toml_parse e load (c\<lparr>cli_ca := ca, cli_token := token\<rparr>) w"
proof -
  have "select_config (\<lambda>p. os_files w p \<noteq> None) c =
      select_config (\<lambda>p. os_files w p \<noteq> None) (c\<lparr>cli_ca := ca, cli_token := token\<rparr>)"
    using assms by (elim disjE) (simp_all add: select_config_def Let_def)
  then show ?thesis by (simp add: run_functional_def)
qed

text \<open>
  A start that fails in background mode leaves its PID file behind, here because \<open>-t\<close> is missing.
\<close>

lemma failed_start_leaves_pid_file:
  assumes "os_files w ''server.toml'' = None" and "os_files w ''client.toml'' = None"
    and "working_mode T (os_home w) (tool_file toml_parse w) = ''background''"
    and "pid_file (os_machine w) = None" and "os_fork w = Fork_child" and "ca \<noteq> ''''"
  shows "fst (run_start T toml_parse e load False (no_options\<lparr>cli_ca := ca\<rparr>) w) = Exits 1 \<and>
    pid_file (os_machine (snd (run_start T toml_parse e load False (no_options\<lparr>cli_ca := ca\<rparr>) w))) = Some (Some (os_self w))"
proof -
  have "os_machine (ensure_tool_config w) = os_machine w" "os_fork (ensure_tool_config w) = os_fork w"
    "os_files (ensure_tool_config w) = os_files w" "os_self (ensure_tool_config w) = os_self w"
    by (simp_all add: ensure_tool_config_def)
  with assms show ?thesis
    by (simp add: run_start_def launch_def recorded_pid_def run_functional_def select_config_def no_options_def
        record_self_def write_pid_def Let_def)
qed

section \<open>The first start\<close>

text \<open>
  What a TOML parser makes of the generated files, written as values of \<open>toml\<close>; the server's
  virtual-host ports are where the file has them, in the table \<open>performance\<close>.
\<close>

definition server_doc :: toml where
  "server_doc = T_tab [(''server'', T_tab
     [(''bind_addr'', T_str ''0.0.0.0''), (''bind_port'', T_int 7001), (''token'', T_str ''secret_token''),
      (''log_level'', T_str ''info''),
      (''performance'', T_tab [(''threads'', T_int 2), (''memory_profile'', T_str ''low''),
         (''vhost_http_port'', T_int 8080), (''vhost_https_port'', T_int 8443)]),
      (''ssl'', T_tab [(''enable'', T_bool True), (''auto_generate'', T_bool True),
         (''cert_file'', T_str ''certs/server.crt''), (''key_file'', T_str ''certs/server.key''),
         (''ca_file'', T_str ''certs/ca.crt'')])])]"

definition client_doc :: "string \<Rightarrow> string \<Rightarrow> toml" where
  "client_doc ca token = T_tab [(''client'', T_tab
     [(''server_addr'', T_str ''127.0.0.1''), (''server_port'', T_int 7001), (''token'', T_str token),
      (''name'', T_str ''my-client''), (''protocol'', T_str ''auto''), (''compression'', T_bool True),
      (''log_level'', T_str ''info''), (''performance'', T_tab [(''threads'', T_int 2)]),
      (''ssl'', T_tab [(''enable'', T_bool True), (''verify_peer'', T_bool True), (''ca_file'', T_str ca)]),
      (''proxies'', T_arr [T_tab [(''name'', T_str ''ssh''), (''type'', T_str ''tcp''),
         (''local_ip'', T_str ''127.0.0.1''), (''local_port'', T_int 22), (''remote_port'', T_int 6000)]])])]"

definition ssh_proxy :: ProxyConfig where
  "ssh_proxy = \<lparr>pc_name = ''ssh'', pc_type = ''tcp'', pc_local_ip = ''127.0.0.1'', pc_local_port = 22,
     pc_remote_port = 6000, pc_custom_domains = [], pc_bandwidth_limit = 0\<rparr>"

lemmas toml_reads = get_string_def get_int_def get_bool_def value_or_def get_table_def toml_doc_def

lemma server_doc_runs:
  assumes "os_bind_ok w"
  shows "\<exists>so. run_document toml_doc e load path '''' '''' server_doc w =
      (Runs_server so None 2, set_status Run_server path w) \<and>
    so_state so = new_server ''secret_token'' [] [] \<and> lc_ssl (so_listen so) \<and>
    lc_vhost_http (so_listen so) = 0 \<and> lc_vhost_https (so_listen so) = 0"
proof -
  define server where "server = the (toml_at server_doc ''server'')"
  have at: "toml_at server_doc ''server'' = Some server" by (simp add: server_def server_doc_def)
  let ?se = "parse_server toml_doc '''' server_doc server"
  have se: "se_token ?se = ''secret_token''" "se_allowed_ports ?se = []" "se_allowed_clients ?se = []"
    "se_protocol ?se = ''auto''" "ss_enable (se_ssl ?se)" "ss_ca_file (se_ssl ?se) = ''certs/ca.crt''"
    "se_vhost_http ?se = 0" "se_vhost_https ?se = 0"
    by (simp_all add: server_def server_doc_def parse_allowed_ports_def parse_allowed_clients_def
        parse_server_ssl_def toml_reads) (simp_all add: parse_server_def toml_reads)
  have "\<exists>so. fst (run_state (Server_Server e load ?se) []) = Some so \<and>
      so_state so = new_server ''secret_token'' [] [] \<and> lc_ssl (so_listen so) \<and>
      lc_vhost_http (so_listen so) = 0 \<and> lc_vhost_https (so_listen so) = 0"
    using se by (auto simp: Server_Server_def Let_def needs_tls_def ca_key_file_example State_Monad.bind_def
        split: prod.splits)
  moreover have "thread_count toml_doc (os_hardware w) server_doc = 2" "parse_mgmt toml_doc server = None"
    by (simp_all add: server_def server_doc_def thread_count_def threads_of_def parse_mgmt_def toml_reads)
  ultimately show ?thesis
    using assms at by (auto simp: run_document_def select_mode_def Let_def)
qed

lemma client_doc_runs:
  assumes "ca \<noteq> ''''" and "token \<noteq> ''''"
  shows "\<exists>c. run_document toml_doc e load path ca token (client_doc ca token) w =
      (Runs_client c 2, set_status Run_client path w) \<and>
    cl_token c = token \<and> cl_name c = ''my-client'' \<and> cl_proxies c = [ssh_proxy] \<and> conf_d_path c = ''''"
proof -
  define node where "node = the (toml_at (client_doc ca token) ''client'')"
  have at: "toml_at (client_doc ca token) ''client'' = Some node" "toml_at (client_doc ca token) ''server'' = None"
    by (simp_all add: node_def client_doc_def)
  have "parse_proxies toml_doc
      [T_tab [(''name'', T_str ''ssh''), (''type'', T_str ''tcp''), (''local_ip'', T_str ''127.0.0.1''),
              (''local_port'', T_int 22), (''remote_port'', T_int 6000)]] = Some [ssh_proxy]"
    by (simp add: parse_proxy_def parse_limit_def parse_domains_def ssh_proxy_def toml_reads)
  then have "\<exists>ce. parse_client toml_doc token node = Some ce \<and> ce_token ce = token \<and>
      ce_name ce = ''my-client'' \<and> ce_proxies ce = [ssh_proxy] \<and> ce_conf_d ce = ''''"
    using assms by (simp add: parse_client_def node_def client_doc_def get_string_def value_or_def)
  then obtain ce where ce: "parse_client toml_doc token node = Some ce" "ce_token ce = token"
    "ce_name ce = ''my-client''" "ce_proxies ce = [ssh_proxy]" "ce_conf_d ce = ''''" by blast
  have "thread_count toml_doc (os_hardware w) (client_doc ca token) = 2"
    by (simp add: client_doc_def thread_count_def threads_of_def toml_reads)
  with at ce assms show ?thesis
    by (auto simp: run_document_def select_mode_def client_node_def make_client_def AddProxy_def Client_def Let_def)
qed

text \<open>Without a home directory the program runs in the foreground.\<close>

lemma plain_start:
  assumes "os_home w = ''''" and "\<not> daemon_worker args" and "command_of args = Cmd_start"
    and "parse_args args no_options = Cli_run c"
  shows "cfrp_main T toml_parse show_float entries kill_ok e load args w = run_functional T toml_parse e load c w"
  using assms by (simp add: cfrp_main_def run_start_def working_mode_def ensure_tool_config_def launch_def Let_def)

definition fresh_directory :: "os \<Rightarrow> bool" where
  "fresh_directory w \<longleftrightarrow> os_home w = '''' \<and> os_files w = (\<lambda>_. None) \<and> os_write_ok w \<and> os_bind_ok w"

lemma first_server:
  assumes "fresh_directory w" and "toml_parse (server_template '''') = Some server_doc"
  shows "\<exists>so w'. cfrp_main toml_doc toml_parse show_float entries kill_ok e load [] w = (Runs_server so None 2, w') \<and>
    so_state so = new_server ''secret_token'' [] [] \<and> lc_ssl (so_listen so)"
proof -
  let ?w = "generate ''server.toml'' (server_template '''') w"
  have "os_bind_ok ?w" using assms(1) by (simp add: fresh_directory_def generate_def)
  from server_doc_runs [OF this, of e load "''server.toml''"] obtain so where
    "run_document toml_doc e load ''server.toml'' '''' '''' server_doc ?w =
       (Runs_server so None 2, set_status Run_server ''server.toml'' ?w)"
    "so_state so = new_server ''secret_token'' [] []" "lc_ssl (so_listen so)" by blast
  moreover have "cfrp_main toml_doc toml_parse show_float entries kill_ok e load [] w =
      run_functional toml_doc toml_parse e load no_options w"
    using assms(1) by (intro plain_start) (simp_all add: fresh_directory_def daemon_worker_def)
  ultimately show ?thesis
    using assms by (simp add: run_functional_def select_config_def no_options_def run_file_def generate_def
        fresh_directory_def Let_def)
qed

lemma first_client:
  assumes "fresh_directory w" and "ca \<noteq> ''''" and "ca \<noteq> ''--daemon-worker''"
    and "token \<noteq> ''''" and "token \<noteq> ''--daemon-worker''"
    and "toml_parse (client_template ca token) = Some (client_doc ca token)"
  shows "\<exists>c w'. cfrp_main toml_doc toml_parse show_float entries kill_ok e load [''-c'', ca, ''-t'', token] w =
      (Runs_client c 2, w') \<and>
    cl_token c = token \<and> cl_name c = ''my-client'' \<and> cl_proxies c = [ssh_proxy] \<and> conf_d_path c = ''''"
proof -
  let ?w = "generate ''client.toml'' (client_template ca token) w"
  let ?c = "no_options\<lparr>cli_ca := ca, cli_token := token\<rparr>"
  from client_doc_runs [OF assms(2,4), of e load "''client.toml''" ?w] obtain c where
    "run_document toml_doc e load ''client.toml'' ca token (client_doc ca token) ?w =
       (Runs_client c 2, set_status Run_client ''client.toml'' ?w)"
    "cl_token c = token" "cl_name c = ''my-client''" "cl_proxies c = [ssh_proxy]" "conf_d_path c = ''''" by blast
  moreover have "cfrp_main toml_doc toml_parse show_float entries kill_ok e load [''-c'', ca, ''-t'', token] w =
      run_functional toml_doc toml_parse e load ?c w"
    using assms(1,3,5) by (intro plain_start) (simp_all add: fresh_directory_def daemon_worker_def no_options_def)
  ultimately show ?thesis
    using assms by (simp add: run_functional_def select_config_def no_options_def run_file_def generate_def
        fresh_directory_def Let_def)
qed


definition demo_os :: os where
  "demo_os = \<lparr>os_home = '''', os_tool = None, os_files = (\<lambda>_. None), os_write_ok = True,
     os_fork = Fork_failed, os_self = 5, os_bind_ok = True, os_hardware = 4, os_machine = fresh_machine\<rparr>"

definition demo_parse :: "string list \<Rightarrow> toml option" where
  "demo_parse ls = (if ls = server_template '''' then Some server_doc else Some (client_doc ''ca.crt'' ''secret_token''))"


end
