(* ===== verification/Mux_Demux.thy ===== *)
theory Mux_Demux
  imports Mux_Session
begin

text \<open>
  Streams of a session are isolated from each other (\<open>src/common/mux.cpp\<close>). A run of a session is
  any sequence of received frames, submitted frames, completed writes, heartbeats, opened and
  removed streams. What a stream is told in such a run is a function of the frames with its
  identifier alone, whatever arrives for the other streams.
\<close>

section \<open>Runs of a session\<close>

datatype session_event =
    Se_frame Header bytes nat
  | Se_submit Header "bytes list" frame_cb "bytes option"
  | Se_done error_code
  | Se_open
  | Se_remove "32 word"
  | Se_tick error_code nat
  | Se_stop

fun session_step :: "session_event \<Rightarrow> session \<Rightarrow> session \<times> session_out list" where
  "session_step (Se_frame h body now) s = handle_frames now [(h, body)] s"
| "session_step (Se_submit h bodies cb st) s = async_send_frame h bodies cb st s"
| "session_step (Se_done ec) s = session_write_done ec s"
| "session_step Se_open s = snd (open_stream s)"
| "session_step (Se_remove sid) s = (remove_stream sid s, [])"
| "session_step (Se_tick ec now) s = heartbeat_tick ec now s"
| "session_step Se_stop s = session_stop s"

fun session_run :: "session_event list \<Rightarrow> session \<Rightarrow> session \<times> session_out list" where
  "session_run [] s = (s, [])"
| "session_run (e # es) s =
     (case session_step e s of (t, o1) \<Rightarrow> case session_run es t of (u, o2) \<Rightarrow> (u, o1 @ o2))"

inductive session_reach :: "session \<Rightarrow> bool" where
  session_new: "session_reach (new_session server now)"
| session_next: "session_reach s \<Longrightarrow> session_reach (fst (session_step e s))"

section \<open>What a stream is told\<close>

fun calls :: "nat \<Rightarrow> session_out list \<Rightarrow> stream_event list" where
  "calls r [] = []"
| "calls r (Stream_call r' e # os) = (if r' = r then e # calls r os else calls r os)"
| "calls r (_ # os) = calls r os"

fun received :: "session_event list \<Rightarrow> frame list" where
  "received [] = []"
| "received (Se_frame h body now # es) = (h, body) # received es"
| "received (_ # es) = received es"

text \<open>The specification: what one frame means for the stream it names.\<close>

definition frame_calls :: "frame \<Rightarrow> stream_event list" where
  "frame_calls f =
     (if h_type (fst f) = Type_Data
      then (if snd f \<noteq> [] then [Ev_data (snd f)] else []) @
           (if h_flags (fst f) AND Flags_FIN \<noteq> 0 then [Ev_remote_close] else [])
      else if h_type (fst f) = Type_WindowUpdate then [Ev_window (h_length (fst f))] else [])"

definition stream_calls :: "32 word \<Rightarrow> frame list \<Rightarrow> stream_event list" where
  "stream_calls sid fs = concat (map frame_calls (filter (\<lambda>f. h_stream_id (fst f) = sid) fs))"

lemma stream_calls_simps [simp]:
  "stream_calls sid [] = []" "stream_calls sid (fs @ gs) = stream_calls sid fs @ stream_calls sid gs"
  "stream_calls sid (f # fs) =
     (if h_stream_id (fst f) = sid then frame_calls f @ stream_calls sid fs else stream_calls sid fs)"
  by (simp_all add: stream_calls_def)

lemma calls_append [simp]: "calls r (xs @ ys) = calls r xs @ calls r ys"
  by (induction r xs rule: calls.induct) auto

lemma received_Cons: "received (e # es) = received [e] @ received es"
  by (cases e) auto

text \<open>The table of streams: distinct identifiers, distinct objects, all made before.\<close>

definition table_ok :: "session \<Rightarrow> bool" where
  "table_ok s \<longleftrightarrow> distinct (map fst (streams s)) \<and> distinct (map snd (streams s)) \<and>
     (\<forall>r \<in> snd ` set (streams s). r < next_ref s)"

lemma session_do_write_quiet:
  "session_do_write s = (t, out) \<Longrightarrow>
     calls r out = [] \<and> streams t = streams s \<and> sess_stopped t = sess_stopped s \<and> next_ref t = next_ref s"
  by (auto simp: session_do_write_def split: list.splits)

lemma async_send_frame_quiet:
  "async_send_frame h bodies cb st s = (t, out) \<Longrightarrow>
     calls r out = [] \<and> streams t = streams s \<and> sess_stopped t = sess_stopped s \<and> next_ref t = next_ref s"
  by (auto simp: async_send_frame_def Let_def split: if_splits dest: session_do_write_quiet)

lemma calls_close_all:
  "distinct (map snd al) \<Longrightarrow>
     calls r (map (\<lambda>(sid, r). Stream_call r Ev_remote_close) al) = (if r \<in> snd ` set al then [Ev_remote_close] else [])"
  by (induction al) (auto simp: image_iff, force+)

lemma session_stop_calls:
  assumes "session_stop s = (t, out)" and "table_ok s"
  shows "sess_stopped t \<and> table_ok t \<and> next_ref t = next_ref s \<and>
    calls r out = (if \<not> sess_stopped s \<and> r \<in> snd ` set (streams s) then [Ev_remote_close] else [])"
  using assms calls_close_all [of "streams s" r]
  by (auto simp: session_stop_def table_ok_def split: if_splits)

lemma update_new: "k \<notin> fst ` set al \<Longrightarrow> AList.update k v al = al @ [(k, v)]"
  by (induction al) auto

lemma delete_filter: "AList.delete k al = filter (\<lambda>kv. fst kv \<noteq> k) al"
  by (induction al) (auto simp: AList.delete_eq)

lemma table_ok_lookup:
  "\<lbrakk>table_ok s; map_of (streams s) sid = Some r; (sid', r) \<in> set (streams s)\<rbrakk> \<Longrightarrow> sid' = sid"
  using eq_key_imp_eq_value [of "map (\<lambda>(k, v). (v, k)) (streams s)" r sid' sid]
  by (force simp: table_ok_def case_prod_beta comp_def dest: map_of_SomeD)

text \<open>Any update under a fresh object keeps the table well-formed.\<close>

lemma update_snds: "snd ` set (AList.update k v al) \<subseteq> insert v (snd ` set al)"
  by (induction al) auto

lemma update_distinct_snd:
  "distinct (map snd al) \<Longrightarrow> v \<notin> snd ` set al \<Longrightarrow> distinct (map snd (AList.update k v al))"
proof (induction al)
  case (Cons a al)
  then show ?case using update_snds [of k v al] by (cases a) auto
qed simp

lemma table_ok_update:
  assumes "table_ok s" and "streams t = AList.update sid (next_ref s) (streams s)" and "next_ref t = next_ref s + 1"
  shows "table_ok t"
proof -
  have "next_ref s \<notin> snd ` set (streams s)" using assms(1) by (auto simp: table_ok_def)
  then show ?thesis
    using assms update_snds [of sid "next_ref s" "streams s"]
    by (fastforce simp: table_ok_def distinct_update intro: update_distinct_snd)
qed

section \<open>One step\<close>

definition told :: "32 word \<Rightarrow> nat \<Rightarrow> frame list \<Rightarrow> session \<Rightarrow> session_out list \<Rightarrow> bool" where
  "told sid r fs t out \<longleftrightarrow> table_ok t \<and>
     calls r out = stream_calls sid fs @ (if sess_stopped t then [Ev_remote_close] else []) \<and>
     (\<not> sess_stopped t \<longrightarrow> map_of (streams t) sid = Some r)"

lemma accept_stream_calls:
  assumes "accept_stream sid s = (r, t, out)"
  shows "r = next_ref s \<and> calls r' out = [] \<and> streams t = AList.update sid (next_ref s) (streams s) \<and>
    sess_stopped t = sess_stopped s \<and> next_ref t = next_ref s + 1"
  using assms by (auto simp: accept_stream_def Let_def split: prod.splits dest: async_send_frame_quiet)

lemma open_stream_calls:
  assumes "open_stream s = (r, t, out)"
  shows "calls r' out = [] \<and> streams t = AList.update (next_stream_id s) (next_ref s) (streams s) \<and>
    sess_stopped t = sess_stopped s \<and> next_ref t = next_ref s + 1"
  using assms by (auto simp: open_stream_def Let_def split: prod.splits dest: async_send_frame_quiet)

lemma told_stop:
  assumes "session_stop s = (t, out)" and "table_ok s" and "\<not> sess_stopped s" and "map_of (streams s) sid = Some r"
  shows "told sid r [] t out"
proof -
  have "r \<in> snd ` set (streams s)" using assms(4) by (force dest: map_of_SomeD)
  with session_stop_calls [OF assms(1,2), of r] assms(3) show ?thesis by (simp add: told_def)
qed

lemma handle_frame_told:
  assumes h: "handle_frame h body s = (t, out)" and ok: "table_ok s" and "\<not> sess_stopped s"
    and r: "map_of (streams s) sid = Some r"
  shows "told sid r [(h, body)] t out"
proof -
  let ?found = "map_of (streams s) (h_stream_id h)"
  have same: "?found = Some r \<longleftrightarrow> h_stream_id h = sid"
    using table_ok_lookup [OF ok r] r by (auto dest: map_of_SomeD)
  consider (data) "h_type h = Type_Data" | (window) "h_type h = Type_WindowUpdate"
    | (ping) "h_type h = Type_Ping" | (stop) "h_type h \<notin> {Type_Data, Type_WindowUpdate, Type_Ping}" by blast
  then show ?thesis
  proof cases
    case data
    show ?thesis
    proof (cases "h_flags h AND Flags_SYN \<noteq> 0 \<and> ?found = None")
      case True
      obtain r1 s1 o1 where a: "accept_stream (h_stream_id h) s = (r1, s1, o1)" by (metis prod_cases3)
      note acc = accept_stream_calls [OF a]
      have new: "h_stream_id h \<notin> fst ` set (streams s)" using True by (simp add: map_of_eq_None_iff)
      have "t = s1" "r1 \<noteq> r" "h_stream_id h \<noteq> sid"
        using h data True a acc ok r by (force simp: handle_frame_def table_ok_def dest: map_of_SomeD)+
      moreover have "calls r out = []"
        using h data True a acc calculation(2) by (auto simp: handle_frame_def)
      moreover have "table_ok s1" by (rule table_ok_update [OF ok]) (use acc in simp_all)
      ultimately show ?thesis using acc r assms(3) by (auto simp: told_def update_new [OF new] map_add_Some_iff)
    next
      case False
      then have "t = s" and "calls r out = (if ?found = Some r then frame_calls (h, body) else [])"
        using h data by (auto simp: handle_frame_def Let_def frame_calls_def split: option.splits if_splits)
      with same ok r assms(3) show ?thesis by (simp add: told_def)
    qed
  next
    case window
    then have "t = s" and "calls r out = (if ?found = Some r then frame_calls (h, body) else [])"
      using h by (auto simp: handle_frame_def Let_def frame_calls_def frame_types split: option.splits)
    with same ok r assms(3) show ?thesis by (simp add: told_def)
  next
    case ping
    have f: "frame_calls (h, body) = []" using ping by (simp add: frame_calls_def frame_types)
    have "calls r out = [] \<and> streams t = streams s \<and> sess_stopped t = sess_stopped s \<and> next_ref t = next_ref s"
      using h ping async_send_frame_quiet [of _ _ _ _ s t out r]
      by (auto simp: handle_frame_def Let_def frame_types split: if_splits)
    with f ok r assms(3) show ?thesis by (simp add: told_def table_ok_def)
  next
    case stop
    then have "session_stop s = (t, out)" "frame_calls (h, body) = []"
      using h by (auto simp: handle_frame_def Let_def frame_calls_def)
    with told_stop [OF this(1) ok assms(3) r] show ?thesis by (simp add: told_def)
  qed
qed

lemma stopped_silent:
  assumes "session_step e s = (t, out)" and "sess_stopped s"
  shows "calls r out = [] \<and> sess_stopped t"
proof (cases e)
  case (Se_done ec)
  show ?thesis
  proof (cases "in_flight s")
    case (Some pw)
    let ?s = "s\<lparr>in_flight := None, write_queue := (case write_queue s of [] \<Rightarrow> []
        | q # qs \<Rightarrow> if q = pw then qs else q # qs)\<rparr>"
    obtain t' o' where "(if ec = Success then session_do_write ?s else session_stop ?s) = (t', o')" by force
    with Some assms Se_done show ?thesis
      using session_do_write_quiet [of ?s t' o' r]
      by (auto simp: session_write_done_def Let_def session_stop_def split: if_splits)
  qed (use assms Se_done in \<open>simp add: session_write_done_def\<close>)
next
  case Se_open
  with assms show ?thesis by (cases "open_stream s") (auto dest: open_stream_calls)
next
  case (Se_tick ec now)
  with assms show ?thesis
    by (auto simp: heartbeat_tick_def session_stop_def split: if_splits prod.splits dest!: async_send_frame_quiet)
qed (use assms in \<open>auto simp: remove_stream_def session_stop_def dest!: async_send_frame_quiet\<close>)

lemma table_ok_same: "\<lbrakk>table_ok s; streams t = streams s; next_ref t = next_ref s\<rbrakk> \<Longrightarrow> table_ok t"
  by (simp add: table_ok_def)

lemma table_ok_delete: "table_ok s \<Longrightarrow> table_ok (remove_stream sid s)"
  by (auto simp: table_ok_def remove_stream_def delete_filter distinct_map_filter)

lemma write_done_cases:
  assumes "session_write_done ec s = (t, out)"
  obtains "t = s" "out = []"
  | s1 out1 where "streams s1 = streams s" "next_ref s1 = next_ref s" "sess_stopped s1 = sess_stopped s"
      "session_do_write s1 = (t, out1) \<or> session_stop s1 = (t, out1)" "calls r out = calls r out1"
proof (cases "in_flight s")
  case None
  with assms that(1) show ?thesis by (simp add: session_write_done_def)
next
  case (Some pw)
  let ?s = "s\<lparr>in_flight := None, write_queue := (case write_queue s of [] \<Rightarrow> []
      | q # qs \<Rightarrow> if q = pw then qs else q # qs)\<rparr>"
  obtain o' where "(if ec = Success then session_do_write ?s else session_stop ?s) = (t, o')"
    "calls r out = calls r o'"
    using assms Some by (auto simp: session_write_done_def Let_def split: prod.splits if_splits)
  with that(2) [of ?s o'] show ?thesis by (simp split: if_splits)
qed

lemma handle_frame_table_ok:
  assumes "handle_frame h body s = (t, out)" and "table_ok s"
  shows "table_ok t"
proof -
  have "handle_frame h body s = (t, out) \<Longrightarrow> t = s \<or>
      (streams t = streams s \<and> next_ref t = next_ref s) \<or> (\<exists>o'. session_stop s = (t, o')) \<or>
      (\<exists>r o'. accept_stream (h_stream_id h) s = (r, t, o'))"
    by (auto simp: handle_frame_def Let_def split: if_splits prod.splits dest: async_send_frame_quiet)
  with assms(1) show ?thesis
    using assms(2) session_stop_calls [OF _ assms(2)] accept_stream_calls table_ok_update [OF assms(2)]
    by (metis table_ok_same)
qed

lemma step_table_ok:
  assumes "session_step e s = (t, out)" and ok: "table_ok s"
  shows "table_ok t"
proof (cases e)
  case (Se_frame h body now)
  obtain t' o' where "handle_frame h body (s\<lparr>last_read_time := now\<rparr>) = (t', o')" by force
  moreover from handle_frame_table_ok [OF this] ok have "table_ok t'" by (simp add: table_ok_def)
  ultimately show ?thesis using assms Se_frame by (auto split: if_splits)
next
  case (Se_done ec)
  with assms have "session_write_done ec s = (t, out)" by simp
  then show ?thesis
  proof (cases rule: write_done_cases [where r = 0])
    case (2 s1 out1)
    then show ?thesis
      using ok session_stop_calls [of s1 t out1] session_do_write_quiet [of s1 t out1]
      by (metis table_ok_same)
  qed (simp add: ok)
next
  case Se_open
  with assms show ?thesis using table_ok_update [OF ok] open_stream_calls by (metis prod.collapse session_step.simps(4))
next
  case (Se_tick ec now)
  with assms show ?thesis
    using session_stop_calls [OF _ ok, of t out] table_ok_same [OF ok]
    by (auto simp: heartbeat_tick_def split: if_splits prod.splits dest!: async_send_frame_quiet)
next
  case Se_stop
  with assms show ?thesis using session_stop_calls [OF _ ok, of t out] by simp
qed (use assms table_ok_same [OF ok] table_ok_delete [OF ok] in \<open>auto dest!: async_send_frame_quiet\<close>)

lemma session_reach_table_ok: "session_reach s \<Longrightarrow> table_ok s"
proof (induction rule: session_reach.induct)
  case (session_new server now)
  show ?case by (simp add: table_ok_def new_session_def)
next
  case (session_next s e)
  then show ?case using step_table_ok by (metis prod.collapse)
qed

text \<open>An event that takes a stream out of the table without closing it.\<close>

definition drops :: "32 word \<Rightarrow> session_event \<Rightarrow> session \<Rightarrow> bool" where
  "drops sid e s \<longleftrightarrow> e = Se_remove sid \<or> (e = Se_open \<and> next_stream_id s = sid)"

lemma step_told:
  assumes step: "session_step e s = (t, out)" and ok: "table_ok s" and "\<not> sess_stopped s"
    and r: "map_of (streams s) sid = Some r" and keep: "\<not> drops sid e s"
  shows "told sid r (received [e]) t out"
proof (cases e)
  case (Se_frame h body now)
  obtain t' o' where h: "handle_frame h body (s\<lparr>last_read_time := now\<rparr>) = (t', o')" by force
  have "told sid r [(h, body)] t' o'"
    by (rule handle_frame_told [OF h]) (use ok r assms(3) in \<open>simp_all add: table_ok_def\<close>)
  with h step Se_frame assms(3) show ?thesis by simp
next
  case (Se_done ec)
  with assms have "session_write_done ec s = (t, out)" by simp
  then show ?thesis
  proof (cases rule: write_done_cases [where r = r])
    case 1
    with Se_done ok r assms(3) show ?thesis by (simp add: told_def)
  next
    case (2 s1 out1)
    have ok1: "table_ok s1" "map_of (streams s1) sid = Some r" "\<not> sess_stopped s1"
      using 2 ok r assms(3) by (auto intro: table_ok_same)
    from 2(4) show ?thesis
    proof
      assume "session_do_write s1 = (t, out1)"
      with session_do_write_quiet [OF this, of r] 2(5) ok1 Se_done show ?thesis
        by (auto simp: told_def intro: table_ok_same)
    next
      assume "session_stop s1 = (t, out1)"
      from told_stop [OF this ok1(1,3,2)] 2(5) Se_done show ?thesis by (simp add: told_def)
    qed
  qed
next
  case Se_open
  obtain q o' where q: "open_stream s = (q, t, o')" "out = o'"
    using step Se_open by (cases "open_stream s") auto
  have "sid \<noteq> next_stream_id s" using keep Se_open by (auto simp: drops_def)
  with open_stream_calls [OF q(1)] q(2) ok r assms(3) Se_open show ?thesis
    by (auto simp: told_def update_conv' intro: table_ok_update [OF ok])
next
  case (Se_remove sid')
  with step keep ok r assms(3) show ?thesis
    by (auto simp: told_def remove_stream_def drops_def delete_conv' table_ok_delete [unfolded remove_stream_def])
next
  case (Se_tick ec now)
  show ?thesis
  proof (cases "ec = Success \<and> heartbeat_timeout < now - last_read_time s")
    case True
    with Se_tick step have "session_stop s = (t, out)" by (simp add: heartbeat_tick_def)
    from told_stop [OF this ok assms(3) r] Se_tick show ?thesis by simp
  next
    case False
    then have "calls r out = [] \<and> streams t = streams s \<and> sess_stopped t = sess_stopped s \<and> next_ref t = next_ref s"
      using Se_tick step by (auto simp: heartbeat_tick_def split: if_splits prod.splits dest: async_send_frame_quiet)
    with ok r assms(3) Se_tick show ?thesis by (auto simp: told_def intro: table_ok_same)
  qed
next
  case Se_stop
  with step have "session_stop s = (t, out)" by simp
  from told_stop [OF this ok assms(3) r] Se_stop show ?thesis by simp
next
  case (Se_submit h bodies cb st)
  with step async_send_frame_quiet [of h bodies cb st s t out r] ok r assms(3) show ?thesis
    by (auto simp: told_def intro: table_ok_same)
qed

section \<open>Whole runs\<close>

fun keeps :: "32 word \<Rightarrow> session_event list \<Rightarrow> session \<Rightarrow> bool" where
  "keeps sid [] s = True"
| "keeps sid (e # es) s = (\<not> drops sid e s \<and> keeps sid es (fst (session_step e s)))"

lemma run_silent:
  "\<lbrakk>session_run es s = (t, out); sess_stopped s\<rbrakk> \<Longrightarrow> calls r out = [] \<and> sess_stopped t"
proof (induction es arbitrary: s out)
  case (Cons e es)
  obtain u o1 o2 where *: "session_step e s = (u, o1)" "session_run es u = (t, o2)" "out = o1 @ o2"
    using Cons.prems(1) by (auto split: prod.splits)
  from stopped_silent [OF *(1) Cons.prems(2), of r] Cons.IH [OF *(2)] *(3) show ?case by simp
qed simp

lemma run_told:
  assumes "session_run es s = (t, out)" and "table_ok s" and "\<not> sess_stopped s"
    and "map_of (streams s) sid = Some r" and "keeps sid es s"
  shows "\<exists>fs rest. received es = fs @ rest \<and>
    calls r out = stream_calls sid fs @ (if sess_stopped t then [Ev_remote_close] else []) \<and>
    (\<not> sess_stopped t \<longrightarrow> rest = [])"
  using assms
proof (induction es arbitrary: s out)
  case (Cons e es)
  obtain u o1 o2 where *: "session_step e s = (u, o1)" "session_run es u = (t, o2)" "out = o1 @ o2"
    using Cons.prems(1) by (auto split: prod.splits)
  have u: "told sid r (received [e]) u o1"
    using step_told [OF *(1) Cons.prems(2,3,4)] Cons.prems(5) by simp
  show ?case
  proof (cases "sess_stopped u")
    case True
    with run_silent [OF *(2), of r] u *(3) show ?thesis
      by (intro exI [of _ "received [e]"] exI [of _ "received es"])
        (simp add: told_def received_Cons [of e es] del: received.simps)
  next
    case False
    with u have "table_ok u" "map_of (streams u) sid = Some r" by (simp_all add: told_def)
    from Cons.IH [OF *(2) this(1) False this(2)] Cons.prems(5) *(1)
    obtain fs rest where fs: "received es = fs @ rest"
      "calls r o2 = stream_calls sid fs @ (if sess_stopped t then [Ev_remote_close] else [])"
      "\<not> sess_stopped t \<longrightarrow> rest = []" by auto
    with u False *(3) show ?thesis
      by (intro exI [of _ "received [e] @ fs"] exI [of _ rest])
        (simp add: told_def received_Cons [of e es] del: received.simps)
  qed
qed simp


definition demux_frame :: "16 word \<Rightarrow> 32 word \<Rightarrow> bytes \<Rightarrow> session_event" where
  "demux_frame flags sid body = Se_frame (mk_header Type_Data flags sid (word_of_nat (length body))) body 0"

definition demux_start :: session where
  "demux_start = fst (session_step (demux_frame Flags_SYN 1 []) (new_session True 0))"

definition demux_events :: "session_event list" where
  "demux_events = [demux_frame Flags_SYN 3 [5], demux_frame 0 1 [7], demux_frame 0 3 [9], demux_frame Flags_FIN 1 []]"

lemmas demux_defs = demux_frame_def demux_start_def demux_events_def handle_frame_def accept_stream_def
  async_send_frame_def session_do_write_def new_session_def mk_header_def Let_def frame_flags frame_types


section \<open>From one session to a stream of the other\<close>

lemma session_run_append:
  "session_run (es @ fs) s =
     (case session_run es s of (t, o1) \<Rightarrow> case session_run fs t of (u, o2) \<Rightarrow> (u, o1 @ o2))"
  by (induction es arbitrary: s) (auto split: prod.splits)

definition frame_events :: "nat \<Rightarrow> frame list \<Rightarrow> session_event list" where
  "frame_events now fs = map (\<lambda>f. Se_frame (fst f) (snd f) now) fs"

lemma frame_events_simps [simp]:
  "frame_events now [] = []"
  "frame_events now (f # fs) = Se_frame (fst f) (snd f) now # frame_events now fs"
  by (simp_all add: frame_events_def)

lemma received_frame_events [simp]: "received (frame_events now fs) = fs"
  by (induction fs) auto

lemma keeps_frame_events: "keeps sid (frame_events now fs) s"
  by (induction fs arbitrary: s) (auto simp: drops_def)

lemma handle_frames_stopped: "sess_stopped s \<Longrightarrow> handle_frames now fs s = (s, [])"
  by (cases fs) auto

lemma handle_frames_run: "handle_frames now fs s = session_run (frame_events now fs) s"
proof (induction fs arbitrary: s)
  case (Cons f fs)
  then show ?case
    by (cases f) (auto simp: handle_frames_stopped simp flip: Cons.IH split: prod.splits)
qed simp

lemma written_out:
  assumes "wr_run es (new_session server start) = (a, out)" and "unstarted a = []"
  shows "writes out = concat (map enc_frame (submitted es))"
  using wr_run_ok [OF _ assms(1)] assms(2) by (simp add: wq_ok_def new_session_def unstarted_def)

text \<open>
  C10: What a session at one end submits, its streams at the other end are told. The frames submitted
  in any run of the write queue that has been written out completely, carried as bytes and cut
  apart by the reader, tell each registered stream exactly what the frames with its identifier
  say, in the order of submission; only if a frame makes the session stop are the later ones lost.
\<close>

theorem frames_reach_their_stream:
  assumes "wr_run es (new_session server start) = (a, out)" and "unstarted a = []"
    and "list_all frame_ok (submitted es)"
    and "session_reach b" and "\<not> sess_stopped b" and "map_of (streams b) sid = Some r"
    and "session_feed now (writes out) b = (b', outb, left)"
  shows "\<exists>k. calls r outb = stream_calls sid (take k (submitted es)) @ (if sess_stopped b' then [Ev_remote_close] else []) \<and>
    (\<not> sess_stopped b' \<longrightarrow> k = length (submitted es) \<and> left = [])"
proof -
  note w = written_out [OF assms(1,2)]
  from feed_frames [OF assms(3), of now b] assms(7) have run:
    "handle_frames now (submitted es) b = (b', outb)" "left = [] \<or> sess_stopped b'"
    unfolding w by (auto simp: prod_eq_iff)
  then have "session_run (frame_events now (submitted es)) b = (b', outb)" by (simp add: handle_frames_run)
  from run_told [OF this session_reach_table_ok [OF assms(4)] assms(5,6) keeps_frame_events]
  obtain fs rest where "submitted es = fs @ rest"
    "calls r outb = stream_calls sid fs @ (if sess_stopped b' then [Ev_remote_close] else [])"
    "\<not> sess_stopped b' \<longrightarrow> rest = []" by auto
  with run(2) show ?thesis by (intro exI [of _ "length fs"]) auto
qed

definition path_writes :: "wr_event list" where
  "path_writes =
     [Submit (mk_header Type_Data 0 1 1) [7] No_handler, Submit (mk_header Type_Data 0 9 1) [8] No_handler, Done Success,
      Submit (mk_header Type_Data Flags_FIN 1 0) [] No_handler, Done Success, Done Success]"

theorem frames_reach_their_stream_witness:
  "\<exists>b' outb. session_feed 0 (writes (snd (wr_run path_writes (new_session False 0)))) demux_start = (b', outb, []) \<and>
     calls 0 outb = [Ev_data [7], Ev_remote_close]"
proof -
  obtain a out where a: "wr_run path_writes (new_session False 0) = (a, out)" by force
  have "unstarted (fst (wr_run path_writes (new_session False 0))) = []"
    by (simp add: path_writes_def async_send_frame_def new_session_def session_do_write_def
        session_write_done_def unstarted_def Let_def)
  with a have un: "unstarted a = []" by simp
  have sub: "submitted path_writes =
      [(mk_header Type_Data 0 1 1, [7]), (mk_header Type_Data 0 9 1, [8]), (mk_header Type_Data Flags_FIN 1 0, [])]"
    by (simp add: path_writes_def)
  have ok: "list_all frame_ok (submitted path_writes)"
    by (simp add: sub frame_ok_def mk_header_def MAX_MESSAGE_SIZE_def)
  have b: "session_reach demux_start" "\<not> sess_stopped demux_start" "map_of (streams demux_start) 1 = Some 0"
    unfolding demux_start_def
    by (intro session_next session_new) (simp_all add: demux_defs)
  obtain b' outb left where f: "session_feed 0 (writes out) demux_start = (b', outb, left)"
    by (metis prod_cases3)
  have "b' = fst (handle_frames 0 (submitted path_writes) demux_start)"
    using feed_frames [OF ok, of 0 demux_start] f unfolding written_out [OF a un] by auto
  then have "\<not> sess_stopped b'" by (simp add: sub demux_defs)
  with frames_reach_their_stream [OF a un ok b f] have "calls 0 outb = stream_calls 1 (submitted path_writes)" "left = []"
    by auto
  with f a show ?thesis
    by (simp add: sub mk_header_def frame_calls_def frame_types frame_flags)
qed

end
