(* ===== verification/Quic_Server.thy ===== *)
theory Quic_Server
  imports Quic_Session Acceptor
begin

text \<open>
  The life of a \<open>QuicSession\<close> (\<open>src/common/quic_ngtcp2.cpp\<close>): the constructor, \<open>init\<close> with the
  connection identifiers, the transport parameters and the callbacks given to ngtcp2, the
  destructor, and the sessions of the server (\<open>src/server/server.cpp\<close>) with its table
  \<open>quic_sessions_\<close>: datagrams, operations of the sessions, posted callbacks of closed ones and
  the stop of the server, in any order. What ngtcp2 and wolfSSL answer is a parameter.
\<close>

section \<open>The arguments of a new connection\<close>

text \<open>Connection identifiers are byte strings; the random ones are parameters.\<close>

record transport_params =
  tp_stream_data_bidi_local :: nat
  tp_stream_data_bidi_remote :: nat
  tp_stream_data_uni :: nat
  tp_max_data :: nat
  tp_streams_bidi :: nat
  tp_streams_uni :: nat
  tp_idle_timeout_s :: nat
  tp_cid_limit :: nat
  tp_original_dcid :: "bytes option"

datatype ng_callback =
    Recv_stream_data | Stream_close | Get_new_connection_id | Handshake_completed | Rand
  | Client_initial | Recv_client_initial | Recv_crypto_data | Encrypt | Decrypt | Hp_mask
  | Recv_retry | Update_key | Delete_aead_ctx | Delete_cipher_ctx | Get_path_challenge_data
  | Version_negotiation

record quic_new =
  qn_server :: bool
  qn_dcid :: bytes
  qn_scid :: bytes
  qn_callbacks :: "ng_callback list"
  qn_params :: transport_params

definition quic_params :: "bytes option \<Rightarrow> transport_params" where
  "quic_params original =
     \<lparr>tp_stream_data_bidi_local = 10 * 1024 * 1024, tp_stream_data_bidi_remote = 10 * 1024 * 1024,
      tp_stream_data_uni = 10 * 1024 * 1024, tp_max_data = 20 * 1024 * 1024,
      tp_streams_bidi = 1000, tp_streams_uni = 1000, tp_idle_timeout_s = 60, tp_cid_limit = 8,
      tp_original_dcid = original\<rparr>"

definition quic_callbacks :: "bool \<Rightarrow> ng_callback list" where
  "quic_callbacks is_server =
     [Recv_stream_data, Stream_close, Get_new_connection_id, Handshake_completed, Rand,
      Client_initial, Recv_crypto_data, Encrypt, Decrypt, Hp_mask, Recv_retry, Update_key,
      Delete_aead_ctx, Delete_cipher_ctx, Get_path_challenge_data, Version_negotiation] @
     (if is_server then [Recv_client_initial] else [])"

text \<open>
  \<open>client_dcid\<close> and \<open>client_scid\<close> are the optional arguments of \<open>init\<close>; the two random identifiers
  are the blocks that the generator returns, the second is not drawn for a server.
\<close>

definition quic_conn_args ::
    "bool \<Rightarrow> bytes option \<Rightarrow> bytes option \<Rightarrow> bytes \<Rightarrow> bytes \<Rightarrow> quic_new" where
  "quic_conn_args is_server client_dcid client_scid random1 random2 =
     (case (is_server, client_dcid, client_scid) of
        (True, Some cd, Some cs) \<Rightarrow>
          \<lparr>qn_server = True, qn_dcid = cs, qn_scid = random1, qn_callbacks = quic_callbacks True,
           qn_params = quic_params (Some cd)\<rparr>
      | _ \<Rightarrow>
          \<lparr>qn_server = is_server, qn_dcid = random1, qn_scid = random2,
           qn_callbacks = quic_callbacks is_server, qn_params = quic_params None\<rparr>)"

section \<open>Constructor, init, destructor\<close>

definition QuicSession :: quic_session where
  "QuicSession = \<lparr>q_streams = [], q_conn = False, q_notified = False, q_writes = []\<rparr>"

datatype quic_init_call =
    Configure_context bool
  | Tls_new
  | Tls_state bool
  | Use_alpn string
  | Conn_new quic_new
  | Set_tls_handle
  | Post_schedule_timer

text \<open>
  \<open>has_ctx\<close>: a TLS context was given; \<open>conn_new\<close> is the result of \<open>ngtcp2_conn_server_new\<close> or
  \<open>ngtcp2_conn_client_new\<close>, 0 for success.
\<close>

definition quic_init ::
    "bool \<Rightarrow> (quic_new \<Rightarrow> int) \<Rightarrow> bool \<Rightarrow> bytes option \<Rightarrow> bytes option \<Rightarrow> bytes \<Rightarrow> bytes \<Rightarrow>
     quic_session \<Rightarrow> quic_session \<times> quic_init_call list" where
  "quic_init has_ctx conn_new is_server client_dcid client_scid random1 random2 s =
     (if \<not> has_ctx then (s, [])
      else
        (let args = quic_conn_args is_server client_dcid client_scid random1 random2;
             calls = [Configure_context is_server, Tls_new, Tls_state is_server, Use_alpn ''cfrp'',
                      Conn_new args]
         in if conn_new args \<noteq> 0 then (s, calls)
            else (s\<lparr>q_conn := True\<rparr>, calls @ [Set_tls_handle, Post_schedule_timer])))"

text \<open>
  \<open>QuicStream::async_write\<close>: the stream holds a weak pointer to its session; \<open>alive\<close> tells whether the
  session still exists. A session that is gone and one that is closed answer alike.
\<close>

definition quic_async_write ::
    "'e ngtcp2 \<Rightarrow> bool \<Rightarrow> int \<Rightarrow> bytes list \<Rightarrow> nat \<Rightarrow> 'e \<times> quic_session \<Rightarrow> ('e \<times> quic_session) \<times> quic_out list" where
  "quic_async_write ng alive sid buffers handler es =
     (if alive then quic_write_stream ng sid buffers handler es
      else (es, [Q_handler handler Connection_reset 0]))"

lemma quic_async_write_gone:
  "quic_dead (snd es) \<Longrightarrow> quic_async_write ng True sid bs h es = quic_async_write ng False sid bs h es"
  by (cases es) (simp add: quic_async_write_def quic_write_stream_def)

text \<open>The destructor closes the streams; the writes that are still queued are dropped.\<close>

definition quic_session_destroy :: "quic_session \<Rightarrow> quic_out list" where
  "quic_session_destroy s = close_all s"

text \<open>
  The identifiers of the two ends agree, as the protocol demands: the server sends to the
  identifier the client chose for itself, and names the one the client has made up for it.
\<close>

lemma connection_ids_agree:
  assumes "c = quic_conn_args False x y r1 r2"
    and "s = quic_conn_args True (Some (qn_dcid c)) (Some (qn_scid c)) r3 r4"
  shows "qn_dcid s = qn_scid c \<and> tp_original_dcid (qn_params s) = Some (qn_dcid c) \<and>
    tp_original_dcid (qn_params c) = None"
  using assms by (simp add: quic_conn_args_def quic_params_def)

text \<open>The callbacks that ngtcp2 documents as mandatory for each role are all given.\<close>

definition mandatory_callbacks :: "bool \<Rightarrow> ng_callback list" where
  "mandatory_callbacks is_server =
     (if is_server then [Recv_client_initial] else [Client_initial, Recv_retry]) @
     [Recv_crypto_data, Encrypt, Decrypt, Hp_mask, Rand, Get_new_connection_id, Update_key,
      Delete_aead_ctx, Delete_cipher_ctx, Get_path_challenge_data, Version_negotiation]"

lemma callbacks_complete:
  "set (mandatory_callbacks (qn_server n)) \<subseteq> set (qn_callbacks n)"
  if "n = quic_conn_args is_server cd cs r1 r2"
  using that
  by (simp add: quic_conn_args_def mandatory_callbacks_def quic_callbacks_def split: bool.splits option.splits)

section \<open>A session closes once\<close>

text \<open>
  \<open>closing s s' os\<close>: an operation from \<open>s\<close> to \<open>s'\<close> posts the callback for closed sessions exactly
  when it closes the session, and a closed session stays closed.
\<close>

definition closing :: "quic_session \<Rightarrow> quic_session \<Rightarrow> quic_out list \<Rightarrow> bool" where
  "closing s s' os \<longleftrightarrow> q_conn s' = q_conn s \<and> (q_notified s \<longrightarrow> q_notified s') \<and>
     (q_notified s' \<longrightarrow> q_notified s \<or> q_conn s) \<and>
     count_list os Q_closed = (if q_notified s' \<and> \<not> q_notified s then 1 else 0)"

lemma closing_refl [simp]: "closing s s []" by (simp add: closing_def)

lemma closing_trans: "closing s s1 os1 \<Longrightarrow> closing s1 s2 os2 \<Longrightarrow> closing s s2 (os1 @ os2)"
  unfolding closing_def by (cases "q_notified s"; cases "q_notified s1"; cases "q_notified s2") simp_all

lemma closing_silent:
  "\<lbrakk>Q_closed \<notin> set os; q_conn s' = q_conn s; q_notified s' = q_notified s\<rbrakk> \<Longrightarrow> closing s s' os"
  by (simp add: closing_def count_list_0_iff)

lemma closing_before: "closing s s1 os1 \<Longrightarrow> Q_closed \<notin> set os2 \<Longrightarrow> closing s s1 (os1 @ os2)"
  using closing_trans [of s s1 os1 s1 os2] by (simp add: closing_silent)

lemma lift_stream_no_close: "Q_closed \<notin> set (snd (lift_stream r st))"
  by (auto simp: lift_stream_def split: option.splits)

lemma close_all_no_close: "Q_closed \<notin> set (close_all s)"
  by (auto simp: close_all_def lift_stream_no_close split: prod.splits)

lemma timer_no_close: "Q_closed \<notin> set (quic_schedule_timer ng now es)"
  by (auto simp: quic_schedule_timer_def split: prod.splits option.splits)

lemma closing_close_session:
  "quic_close_session ng b es = (es', os) \<Longrightarrow> closing (snd es) (snd es') os"
  using close_all_no_close [of "snd es"]
  by (auto simp: quic_close_session_def closing_def quic_dead_def count_list_0_iff split: prod.splits if_splits)

lemma closing_check_closed:
  "quic_check_closed ng es = (es', os) \<Longrightarrow> closing (snd es) (snd es') os"
  using close_all_no_close [of "snd es"]
  by (auto simp: quic_check_closed_def closing_def quic_dead_def count_list_0_iff split: prod.splits if_splits)

lemma closing_write_step:
  "quic_write_step ng n es = (go, n', es', os) \<Longrightarrow> closing (snd es) (snd es') os"
  unfolding quic_write_step_def Let_def
  by (auto simp: closing_def dest!: closing_close_session split: prod.splits list.splits if_splits)

lemma closing_write_loop:
  "quic_write_loop ng n es = (n', es', os) \<Longrightarrow> closing (snd es) (snd es') os"
proof (induction ng n es arbitrary: n' es' os rule: quic_write_loop.induct)
  case (1 ng n es)
  obtain go n1 es1 os1 where s: "quic_write_step ng n es = (go, n1, es1, os1)" by (metis prod.exhaust)
  note c = closing_write_step [OF s]
  show ?case
  proof (cases go)
    case True
    obtain m t ps where l: "quic_write_loop ng n1 es1 = (m, t, ps)" by (metis prod.exhaust)
    have "es' = t" "os = os1 @ ps"
      using "1.prems" True s l by (subst (asm) quic_write_loop.simps, simp)+
    moreover have "closing (snd es1) (snd t) ps"
      using "1.IH" [OF s [symmetric] refl refl True l] by simp
    ultimately show ?thesis using c closing_trans by blast
  next
    case False
    then have "es' = es1" "os = os1"
      using "1.prems" s by (subst (asm) quic_write_loop.simps, simp)+
    then show ?thesis using c by simp
  qed
qed

lemma closing_do_write: "quic_do_write ng es = (es', os) \<Longrightarrow> closing (snd es) (snd es') os"
  unfolding quic_do_write_def
  by (auto dest: closing_write_loop intro: closing_before split: prod.splits if_splits)

lemma closing_write_stream:
  "quic_write_stream ng sid buffers h es = (es', os) \<Longrightarrow> closing (snd es) (snd es') os"
  unfolding quic_write_stream_def
  by (cases es) (auto dest!: closing_do_write simp: closing_def split: if_splits)

lemma closing_send_loop: "quic_send_loop ng n es = (es', os) \<Longrightarrow> closing (snd es) (snd es') os"
proof (induction ng n es arbitrary: es' os rule: quic_send_loop.induct)
  case (2 ng n e s)
  obtain e1 wrote where w: "ng_write_pkt ng e = (e1, wrote)" by force
  obtain e2 ec where t: "ng_send ng e1 = (e2, ec)" by force
  show ?case
  proof (cases "wrote \<and> ec = Success")
    case True
    with "2.IH" [OF w [symmetric] _ t [symmetric]] "2.prems" w t show ?thesis by simp
  next
    case False
    with "2.prems" w t show ?thesis by (auto dest: closing_close_session split: if_splits bool.splits)
  qed
qed simp

lemma closing_send_packets: "quic_send_packets ng now es = (es', os) \<Longrightarrow> closing (snd es) (snd es') os"
proof (cases "quic_dead (snd es)")
  case False
  obtain es1 os1 es2 os2 es3 os3 where *: "quic_send_loop ng 32 es = (es1, os1)"
    "quic_do_write ng es1 = (es2, os2)" "quic_check_closed ng es2 = (es3, os3)" by (metis prod.exhaust)
  assume "quic_send_packets ng now es = (es', os)"
  with False * have r: "es' = es3" "os = os1 @ os2 @ quic_schedule_timer ng now es2 @ os3"
    by (simp_all add: quic_send_packets_def)
  have "closing (snd es2) (snd es2) (quic_schedule_timer ng now es2)"
    by (simp add: closing_silent timer_no_close)
  then show ?thesis
    unfolding r using * closing_send_loop closing_do_write closing_check_closed closing_trans by metis
qed (simp add: quic_send_packets_def)

lemma closing_callback: "on_callback cb s = (s', os) \<Longrightarrow> Q_closed \<notin> set os \<and> q_conn s' = q_conn s \<and> q_notified s' = q_notified s"
proof -
  have data: "on_stream_data sid d s = (s', os) \<Longrightarrow> Q_closed \<notin> set os \<and> q_conn s' = q_conn s \<and> q_notified s' = q_notified s"
    for sid d s s' os
    using lift_stream_no_close [of "quic_handle_data d (the (map_of (q_streams s) sid))" "the (map_of (q_streams s) sid)"]
      lift_stream_no_close [of "quic_handle_data d (QuicStream sid)" "QuicStream sid"]
    by (auto simp: on_stream_data_def split: option.splits prod.splits)
  have close: "on_stream_close sid s = (s', os) \<Longrightarrow> Q_closed \<notin> set os \<and> q_conn s' = q_conn s \<and> q_notified s' = q_notified s"
    for sid s s' os
    using lift_stream_no_close by (auto simp: on_stream_close_def split: option.splits)
  show "on_callback cb s = (s', os) \<Longrightarrow> ?thesis"
  proof (cases cb)
    case (Cb_stream_data sid d fin)
    obtain s1 o1 s2 o2 where "on_stream_data sid d s = (s1, o1)" "on_stream_close sid s1 = (s2, o2)" by force
    moreover note data [OF this(1)] close [OF this(2)]
    moreover assume "on_callback cb s = (s', os)"
    ultimately show ?thesis using Cb_stream_data by (auto split: if_splits)
  qed (auto dest: close)
qed

lemma closing_callbacks: "on_callbacks cbs s = (s', os) \<Longrightarrow> closing s s' os"
proof (induction cbs arbitrary: s s' os)
  case (Cons c cs)
  obtain s1 o1 s2 o2 where *: "on_callback c s = (s1, o1)" "on_callbacks cs s1 = (s2, o2)" by force
  with Cons.prems have "s' = s2" "os = o1 @ o2" by simp_all
  moreover have "closing s s1 o1" using closing_callback [OF *(1)] by (simp add: closing_silent)
  ultimately show ?case using Cons.IH [OF *(2)] closing_trans by simp
qed simp

section \<open>The operations of a session\<close>

datatype session_op =
    So_packet bytes
  | So_timer error_code
  | So_write int "bytes list" nat
  | So_retry_write
  | So_close_stream int
  | So_open_stream
  | So_close bool

fun run_op :: "'e ngtcp2 \<Rightarrow> nat \<Rightarrow> session_op \<Rightarrow> 'e \<times> quic_session \<Rightarrow> ('e \<times> quic_session) \<times> quic_out list" where
  "run_op ng now (So_packet d) es = quic_handle_packet ng now d es"
| "run_op ng now (So_timer ec) es = quic_timer ng now ec es"
| "run_op ng now (So_write sid bs h) es = quic_write_stream ng sid bs h es"
| "run_op ng now So_retry_write es = quic_do_write ng es"
| "run_op ng now (So_close_stream sid) es = quic_close_stream ng now sid es"
| "run_op ng now So_open_stream es = (fst (quic_open_stream ng es), [])"
| "run_op ng now (So_close b) es = quic_close_session ng b es"

lemma closing_handle_packet:
  "quic_handle_packet ng now d es = (es', os) \<Longrightarrow> closing (snd es) (snd es') os"
proof (cases "quic_dead (snd es)")
  case False
  assume h: "quic_handle_packet ng now d es = (es', os)"
  obtain e cbs res where p: "ng_read_pkt ng (fst es) d = (e, cbs, res)" by (metis prod_cases3)
  obtain s1 os1 where c: "on_callbacks cbs (snd es) = (s1, os1)" by force
  have "\<exists>os2. os = os1 @ os2 \<and> closing s1 (snd es') os2"
  proof (cases res)
    case Pkt_ok
    obtain es2 os2 es3 os3 where *: "quic_send_packets ng now (e, s1) = (es2, os2)"
      "quic_check_closed ng es2 = (es3, os3)" by (metis prod.exhaust)
    with h False p c Pkt_ok have "es' = es3" "os = os1 @ os2 @ os3"
      by (simp_all add: quic_handle_packet_def)
    then show ?thesis using closing_trans closing_send_packets [OF *(1)] closing_check_closed [OF *(2)] by auto
  qed (use h False p c in \<open>auto simp: quic_handle_packet_def dest!: closing_close_session split: prod.splits\<close>)
  then show ?thesis using closing_callbacks [OF c] closing_trans by blast
qed (simp add: quic_handle_packet_def)

lemma closing_op: "run_op ng now op es = (es', os) \<Longrightarrow> closing (snd es) (snd es') os"
proof (cases op)
  case (So_packet d)
  then show "run_op ng now op es = (es', os) \<Longrightarrow> ?thesis" by (simp add: closing_handle_packet)
next
  case (So_timer ec)
  then show "run_op ng now op es = (es', os) \<Longrightarrow> ?thesis"
    by (auto simp: quic_timer_def dest!: closing_close_session closing_send_packets split: prod.splits if_splits)
next
  case (So_write sid bs h)
  then show "run_op ng now op es = (es', os) \<Longrightarrow> ?thesis" by (simp add: closing_write_stream)
next
  case So_retry_write
  then show "run_op ng now op es = (es', os) \<Longrightarrow> ?thesis" by (simp add: closing_do_write)
next
  case (So_close_stream sid)
  then show "run_op ng now op es = (es', os) \<Longrightarrow> ?thesis"
    by (auto simp: quic_close_stream_def dest!: closing_send_packets split: if_splits)
next
  case So_open_stream
  then show "run_op ng now op es = (es', os) \<Longrightarrow> ?thesis"
    by (cases es) (auto simp: quic_open_stream_def closing_def split: prod.splits option.splits if_splits)
next
  case (So_close b)
  then show "run_op ng now op es = (es', os) \<Longrightarrow> ?thesis" by (simp add: closing_close_session)
qed

section \<open>The sessions of the server\<close>

text \<open>
  Sessions are numbered in the order of creation; of each the server's \<open>on_closed\<close> handler knows
  the endpoint it was created for. \<open>qs_posted\<close> holds the sessions whose handler has been posted and
  has not run yet, \<open>qs_handler\<close> tells whether a session still has its handler.
\<close>

record 'e quic_server =
  qs_table :: quic_table
  qs_sess :: "nat \<Rightarrow> 'e \<times> quic_session"
  qs_ep :: "nat \<Rightarrow> nat"
  qs_handler :: "nat \<Rightarrow> bool"
  qs_posted :: "nat list"

definition quic_server_init :: "'e quic_server \<Rightarrow> 'e quic_server" where
  "quic_server_init q = q\<lparr>qs_table := \<lparr>qt_sessions = [], qt_next = 0, qt_open = True\<rparr>, qs_posted := []\<rparr>"

text \<open>The session made for a datagram, with the identifiers read from its header.\<close>

definition new_quic_session ::
    "'e \<Rightarrow> (quic_new \<Rightarrow> int) \<Rightarrow> bytes \<Rightarrow> bytes \<Rightarrow> bytes \<Rightarrow> nat \<times> nat \<Rightarrow> 'e quic_server \<Rightarrow> 'e quic_server" where
  "new_quic_session e conn_new dcid scid random ep_sid q =
     q\<lparr>qs_sess := (qs_sess q)(snd ep_sid :=
          (e, fst (quic_init True conn_new True (Some dcid) (Some scid) random [] QuicSession))),
       qs_ep := (qs_ep q)(snd ep_sid := fst ep_sid), qs_handler := (qs_handler q)(snd ep_sid := True)\<rparr>"

definition server_datagram ::
    "'e \<Rightarrow> (quic_new \<Rightarrow> int) \<Rightarrow> bytes \<Rightarrow> bytes \<Rightarrow> bytes \<Rightarrow> (bytes \<Rightarrow> bool) \<Rightarrow> error_code \<Rightarrow> nat \<Rightarrow> bytes \<Rightarrow>
     'e quic_server \<Rightarrow> 'e quic_server \<times> udp_out list" where
  "server_datagram e conn_new dcid scid random is_quic ec ep data q =
     (case server_udp_read is_quic ec ep data (qs_table q) of
        (t, os) \<Rightarrow> (fold (new_quic_session e conn_new dcid scid random) (created os) (q\<lparr>qs_table := t\<rparr>), os))"

definition session_runs ::
    "'e ngtcp2 \<Rightarrow> nat \<Rightarrow> session_op \<Rightarrow> nat \<Rightarrow> 'e quic_server \<Rightarrow> 'e quic_server \<times> quic_out list" where
  "session_runs ng now op sid q =
     (case run_op ng now op (qs_sess q sid) of
        (es, os) \<Rightarrow>
          (q\<lparr>qs_sess := (qs_sess q)(sid := es),
             qs_posted := qs_posted q @ (if qs_handler q sid then replicate (count_list os Q_closed) sid else [])\<rparr>,
           os))"

definition on_closed_runs :: "nat \<Rightarrow> 'e quic_server \<Rightarrow> 'e quic_server" where
  "on_closed_runs sid q =
     q\<lparr>qs_table := quic_session_closed (qs_ep q sid) (qs_table q), qs_posted := remove1 sid (qs_posted q)\<rparr>"

definition server_stop_session :: "'e ngtcp2 \<Rightarrow> nat \<Rightarrow> 'e quic_server \<Rightarrow> 'e quic_server" where
  "server_stop_session ng sid q =
     q\<lparr>qs_sess := (qs_sess q)(sid := fst (quic_close_session ng True (qs_sess q sid))),
       qs_handler := (qs_handler q)(sid := False)\<rparr>"

definition server_stops :: "'e ngtcp2 \<Rightarrow> 'e quic_server \<Rightarrow> 'e quic_server" where
  "server_stops ng q =
     (fold (server_stop_session ng) (map snd (qt_sessions (qs_table q))) q)
       \<lparr>qs_table := fst (Server_Stop_quic (qs_table q))\<rparr>"

inductive quic_server_reach :: "'e ngtcp2 \<Rightarrow> 'e quic_server \<Rightarrow> bool" for ng where
  qsr_init: "quic_server_reach ng (quic_server_init q)"
| qsr_datagram: "quic_server_reach ng q \<Longrightarrow>
    quic_server_reach ng (fst (server_datagram e conn_new dcid scid random is_quic ec ep data q))"
| qsr_session: "\<lbrakk>quic_server_reach ng q; sid < qt_next (qs_table q)\<rbrakk> \<Longrightarrow>
    quic_server_reach ng (fst (session_runs ng now op sid q))"
| qsr_on_closed: "\<lbrakk>quic_server_reach ng q; sid \<in> set (qs_posted q)\<rbrakk> \<Longrightarrow>
    quic_server_reach ng (on_closed_runs sid q)"
| qsr_stop: "quic_server_reach ng q \<Longrightarrow> quic_server_reach ng (server_stops ng q)"

text \<open>A session that the server must still know: it is not closed, or its handler has not run yet.\<close>

definition known :: "'e quic_server \<Rightarrow> nat \<Rightarrow> bool" where
  "known q sid \<longleftrightarrow> sid < qt_next (qs_table q) \<and>
     (\<not> q_notified (snd (qs_sess q sid)) \<or> sid \<in> set (qs_posted q))"

definition quic_server_inv :: "'e quic_server \<Rightarrow> bool" where
  "quic_server_inv q \<longleftrightarrow>
     (qt_open (qs_table q) \<longrightarrow>
       distinct (map fst (qt_sessions (qs_table q))) \<and>
       (\<forall>ep sid. (ep, sid) \<in> set (qt_sessions (qs_table q)) \<longleftrightarrow> known q sid \<and> qs_ep q sid = ep) \<and>
       (\<forall>sid < qt_next (qs_table q). qs_handler q sid \<and>
          (q_notified (snd (qs_sess q sid)) \<longrightarrow> q_conn (snd (qs_sess q sid)))) \<and>
       distinct (qs_posted q) \<and>
       (\<forall>sid \<in> set (qs_posted q). sid < qt_next (qs_table q) \<and> q_notified (snd (qs_sess q sid))))"

lemma set_update_new:
  "k \<notin> fst ` set al \<Longrightarrow> set (AList.update k v al) = insert (k, v) (set al)"
  by (induction al) auto

lemma set_alist_delete: "set (AList.delete k al) = {kv \<in> set al. fst kv \<noteq> k}"
  by (induction al) auto

lemma quic_init_fresh:
  "q_notified (fst (quic_init c n b x y r1 r2 QuicSession)) = False"
  by (simp add: quic_init_def QuicSession_def Let_def)

lemma inv_datagram:
  assumes inv: "quic_server_inv q"
  shows "quic_server_inv (fst (server_datagram e conn_new dcid scid random is_quic ec ep data q))"
proof (cases "ec = Success \<and> map_of (qt_sessions (qs_table q)) ep = None \<and> is_quic data")
  case False
  then have "fst (server_datagram e conn_new dcid scid random is_quic ec ep data q) = q"
    by (auto simp: server_datagram_def server_udp_read_def split: option.splits)
  with inv show ?thesis by simp
next
  case True
  define n where "n = qt_next (qs_table q)"
  define q' where "q' = fst (server_datagram e conn_new dcid scid random is_quic ec ep data q)"
  have q': "q' = new_quic_session e conn_new dcid scid random (ep, n)
      (q\<lparr>qs_table := (qs_table q)\<lparr>qt_sessions := AList.update ep n (qt_sessions (qs_table q)), qt_next := n + 1\<rparr>\<rparr>)"
    using True by (simp add: q'_def server_datagram_def server_udp_read_def n_def)
  have ep: "ep \<notin> fst ` set (qt_sessions (qs_table q))" using True by (simp add: map_of_eq_None_iff)
  have fresh: "\<not> q_notified (snd (qs_sess q' n))" by (simp add: q' new_quic_session_def quic_init_fresh)
  have same: "qt_open (qs_table q') = qt_open (qs_table q)" "qt_next (qs_table q') = n + 1"
    "qs_posted q' = qs_posted q" "qs_ep q' n = ep" "qs_handler q' n"
    "qt_sessions (qs_table q') = AList.update ep n (qt_sessions (qs_table q))"
    "\<And>m. m < n \<Longrightarrow> qs_sess q' m = qs_sess q m \<and> qs_ep q' m = qs_ep q m \<and> qs_handler q' m = qs_handler q m"
    by (auto simp: q' new_quic_session_def)
  show ?thesis
    unfolding quic_server_inv_def q'_def [symmetric]
  proof (intro impI conjI)
    assume "qt_open (qs_table q')"
    with inv same have I: "distinct (map fst (qt_sessions (qs_table q)))"
      "\<And>ep sid. (ep, sid) \<in> set (qt_sessions (qs_table q)) \<longleftrightarrow> known q sid \<and> qs_ep q sid = ep"
      "\<And>sid. sid < n \<Longrightarrow> qs_handler q sid \<and>
          (q_notified (snd (qs_sess q sid)) \<longrightarrow> q_conn (snd (qs_sess q sid)))"
      "distinct (qs_posted q)" "\<And>sid. sid \<in> set (qs_posted q) \<Longrightarrow> sid < n \<and> q_notified (snd (qs_sess q sid))"
      by (auto simp: quic_server_inv_def n_def)
    show "distinct (map fst (qt_sessions (qs_table q')))" using I(1) same by (simp add: distinct_update)
    have k: "known q' sid \<and> qs_ep q' sid = ep' \<longleftrightarrow> (sid = n \<and> ep' = ep) \<or> (known q sid \<and> qs_ep q sid = ep')" for sid ep'
      using fresh same I(5) by (cases "sid < n") (auto simp: known_def n_def [symmetric] less_Suc_eq)
    show "\<forall>ep sid. (ep, sid) \<in> set (qt_sessions (qs_table q')) \<longleftrightarrow> known q' sid \<and> qs_ep q' sid = ep"
      unfolding k same(6) set_update_new [OF ep] using I(2) by auto
    show "\<forall>sid < qt_next (qs_table q'). qs_handler q' sid \<and>
          (q_notified (snd (qs_sess q' sid)) \<longrightarrow> q_conn (snd (qs_sess q' sid)))"
      using same fresh I(3) by (auto simp: less_Suc_eq)
    show "distinct (qs_posted q')" using I(4) same by simp
    show "\<forall>sid \<in> set (qs_posted q'). sid < qt_next (qs_table q') \<and> q_notified (snd (qs_sess q' sid))"
      using I(5) same by fastforce
  qed
qed

lemma inv_session:
  assumes inv: "quic_server_inv q" and sid: "sid < qt_next (qs_table q)"
  shows "quic_server_inv (fst (session_runs ng now op sid q))"
proof -
  obtain es os where r: "run_op ng now op (qs_sess q sid) = (es, os)" by (metis prod.exhaust)
  note c = closing_op [OF r, unfolded closing_def]
  define q' where "q' = fst (session_runs ng now op sid q)"
  have q': "q' = q\<lparr>qs_sess := (qs_sess q)(sid := es),
      qs_posted := qs_posted q @ (if qs_handler q sid then replicate (count_list os Q_closed) sid else [])\<rparr>"
    by (simp add: q'_def session_runs_def r)
  show ?thesis
    unfolding quic_server_inv_def q'_def [symmetric]
  proof (intro impI)
    assume "qt_open (qs_table q')"
    then have I: "distinct (map fst (qt_sessions (qs_table q)))"
      "\<And>ep sid. (ep, sid) \<in> set (qt_sessions (qs_table q)) \<longleftrightarrow> known q sid \<and> qs_ep q sid = ep"
      "\<And>sid. sid < qt_next (qs_table q) \<Longrightarrow> qs_handler q sid \<and>
          (q_notified (snd (qs_sess q sid)) \<longrightarrow> q_conn (snd (qs_sess q sid)))"
      "distinct (qs_posted q)"
      "\<And>sid. sid \<in> set (qs_posted q) \<Longrightarrow> sid < qt_next (qs_table q) \<and> q_notified (snd (qs_sess q sid))"
      using inv by (auto simp: quic_server_inv_def q')
    have h: "qs_handler q sid" using I(3) [OF sid] by simp
    have same: "qs_table q' = qs_table q" "qs_ep q' = qs_ep q" "qs_handler q' = qs_handler q" by (simp_all add: q')
    have k: "known q' m = known q m" for m
      using c h sid by (auto simp: known_def q' split: if_splits)
    have posted: "qs_posted q' = qs_posted q \<and> q_notified (snd es) = q_notified (snd (qs_sess q sid)) \<or>
        qs_posted q' = qs_posted q @ [sid] \<and> q_notified (snd es) \<and> \<not> q_notified (snd (qs_sess q sid)) \<and> q_conn (snd es)"
      using c h by (auto simp: q' split: if_splits)
    have conn: "q_notified (snd es) \<longrightarrow> q_conn (snd es)" using c I(3) [OF sid] posted by auto
    show "distinct (map fst (qt_sessions (qs_table q'))) \<and>
       (\<forall>ep sid. (ep, sid) \<in> set (qt_sessions (qs_table q')) \<longleftrightarrow> known q' sid \<and> qs_ep q' sid = ep) \<and>
       (\<forall>sid < qt_next (qs_table q'). qs_handler q' sid \<and>
          (q_notified (snd (qs_sess q' sid)) \<longrightarrow> q_conn (snd (qs_sess q' sid)))) \<and>
       distinct (qs_posted q') \<and>
       (\<forall>sid \<in> set (qs_posted q'). sid < qt_next (qs_table q') \<and> q_notified (snd (qs_sess q' sid)))"
      unfolding k same using I(1,2)
    proof (intro conjI)
      show "\<forall>m < qt_next (qs_table q). qs_handler q m \<and>
          (q_notified (snd (qs_sess q' m)) \<longrightarrow> q_conn (snd (qs_sess q' m)))"
        using I(3) conn by (auto simp: q')
      show "distinct (qs_posted q')" using I(4,5) posted by auto
      show "\<forall>m \<in> set (qs_posted q'). m < qt_next (qs_table q) \<and> q_notified (snd (qs_sess q' m))"
        using I(5) posted sid by (auto simp: q')
    qed auto
  qed
qed

lemma inv_on_closed:
  assumes inv: "quic_server_inv q" and sid: "sid \<in> set (qs_posted q)"
  shows "quic_server_inv (on_closed_runs sid q)"
  unfolding quic_server_inv_def
proof (intro impI)
  let ?q = "on_closed_runs sid q"
  assume "qt_open (qs_table ?q)"
  then have I: "distinct (map fst (qt_sessions (qs_table q)))"
      "\<And>ep sid. (ep, sid) \<in> set (qt_sessions (qs_table q)) \<longleftrightarrow> known q sid \<and> qs_ep q sid = ep"
      "\<And>sid. sid < qt_next (qs_table q) \<Longrightarrow> qs_handler q sid \<and>
          (q_notified (snd (qs_sess q sid)) \<longrightarrow> q_conn (snd (qs_sess q sid)))"
      "distinct (qs_posted q)"
      "\<And>sid. sid \<in> set (qs_posted q) \<Longrightarrow> sid < qt_next (qs_table q) \<and> q_notified (snd (qs_sess q sid))"
    using inv by (auto simp: quic_server_inv_def on_closed_runs_def quic_session_closed_def)
  have "known q sid" using I(5) [OF sid] sid by (simp add: known_def)
  then have t: "(qs_ep q sid, sid) \<in> set (qt_sessions (qs_table q))" using I(2) by simp
  have only: "known q m \<Longrightarrow> qs_ep q m = qs_ep q sid \<Longrightarrow> m = sid" for m
    using I(1,2) t by (metis eq_key_imp_eq_value)
  have k: "known ?q m \<longleftrightarrow> known q m \<and> m \<noteq> sid" for m
    using I(4,5) sid by (auto simp: known_def on_closed_runs_def quic_session_closed_def)
  have "(\<forall>ep m. (ep, m) \<in> set (qt_sessions (qs_table ?q)) \<longleftrightarrow> known ?q m \<and> qs_ep ?q m = ep)"
    unfolding k using I(2) only
    by (auto simp: on_closed_runs_def quic_session_closed_def set_alist_delete)
  then show "distinct (map fst (qt_sessions (qs_table ?q))) \<and>
       (\<forall>ep sid. (ep, sid) \<in> set (qt_sessions (qs_table ?q)) \<longleftrightarrow> known ?q sid \<and> qs_ep ?q sid = ep) \<and>
       (\<forall>sid < qt_next (qs_table ?q). qs_handler ?q sid \<and>
          (q_notified (snd (qs_sess ?q sid)) \<longrightarrow> q_conn (snd (qs_sess ?q sid)))) \<and>
       distinct (qs_posted ?q) \<and>
       (\<forall>sid \<in> set (qs_posted ?q). sid < qt_next (qs_table ?q) \<and> q_notified (snd (qs_sess ?q sid)))"
    using I(1,3,4,5) by (auto simp: on_closed_runs_def quic_session_closed_def distinct_delete)
qed

lemma quic_server_reach_inv: "quic_server_reach ng q \<Longrightarrow> quic_server_inv q"
proof (induction rule: quic_server_reach.induct)
  case (qsr_init q)
  show ?case by (auto simp: quic_server_inv_def quic_server_init_def known_def)
next
  case (qsr_stop q)
  show ?case by (simp add: quic_server_inv_def server_stops_def Server_Stop_quic_def)
qed (simp_all add: inv_datagram inv_session inv_on_closed)


text \<open>
  A session that ngtcp2 could not create is never removed: it takes all further datagrams of its
  endpoint and drops them.
\<close>

theorem failed_session_stays:
  assumes "quic_server_reach ng q" and "qt_open (qs_table q)"
    and "sid < qt_next (qs_table q)" and "\<not> q_conn (snd (qs_sess q sid))"
  shows "map_of (qt_sessions (qs_table q)) (qs_ep q sid) = Some sid \<and>
    quic_handle_packet ng now data (qs_sess q sid) = (qs_sess q sid, [])"
proof -
  have "quic_server_inv q" using quic_server_reach_inv [OF assms(1)] .
  with assms(2-4) have "known q sid" "distinct (map fst (qt_sessions (qs_table q)))"
    "(qs_ep q sid, sid) \<in> set (qt_sessions (qs_table q))"
    by (auto simp: quic_server_inv_def known_def)
  moreover have "quic_dead (snd (qs_sess q sid))" using assms(4) by (simp add: quic_dead_def)
  ultimately show ?thesis by (simp add: quic_dead_silent)
qed

definition sample_server :: "int \<Rightarrow> (int \<Rightarrow> bytes) quic_server" where
  "sample_server res =
     fst (server_datagram (\<lambda>_. []) (\<lambda>_. res) [1] [2] [3] (\<lambda>_. True) Success 9 [0]
       (quic_server_init \<lparr>qs_table = undefined, qs_sess = (\<lambda>_. (\<lambda>_. [], QuicSession)), qs_ep = (\<lambda>_. 0),
          qs_handler = (\<lambda>_. False), qs_posted = []\<rparr>))"

lemma sample_server_reach: "quic_server_reach ng (sample_server res)"
  unfolding sample_server_def by (intro qsr_datagram qsr_init)

lemma sample_server_simps:
  "qs_table (sample_server res) = \<lparr>qt_sessions = [(9, 0)], qt_next = 1, qt_open = True\<rparr>"
  "qs_ep (sample_server res) 0 = 9" "qs_posted (sample_server res) = []"
  "\<not> q_notified (snd (qs_sess (sample_server res) 0))"
  "q_conn (snd (qs_sess (sample_server res) 0)) \<longleftrightarrow> res = 0"
  by (simp_all add: sample_server_def server_datagram_def server_udp_read_def quic_server_init_def
      new_quic_session_def quic_init_fresh) (simp add: quic_init_def QuicSession_def Let_def)


theorem failed_session_stays_witness:
  "quic_handle_packet sample_ng_ok 0 [7] (qs_sess (sample_server (- 1)) 0) = (qs_sess (sample_server (- 1)) 0, [])"
  using failed_session_stays [OF sample_server_reach [of sample_ng_ok, of "- 1"], of 0 0 "[7]"]
  by (simp add: sample_server_simps)

end
