(* ===== verification/Accept_Loops.thy ===== *)
theory Accept_Loops
  imports Vhost Work_Conn Acceptor Mgmt
begin

text \<open>
  The loops that accept connections and receive datagrams: \<open>Server::DoAccept\<close>,
  \<open>ProxyListener::DoAccept\<close>, \<open>Server::DoVhostAccept\<close>, \<open>UdpProxyListener::DoReceive\<close>,
  \<open>Server::DoUdpRead\<close> (\<open>src/server/server.cpp\<close>) and \<open>ManagementServer::DoAccept\<close>
  (\<open>src/server/mgmt/mgmt_server.cpp\<close>). Each decides in the completion of an operation whether to
  go on at once, after a timer, or not at all; the timer's handler of some of them looks whether the
  socket is still open (\<open>guarded\<close>), that of the others does not. What they share is stated and
  proved once, in locales.
\<close>

section \<open>The loops of the program\<close>

text \<open>Each as a function of the error code and of whether the socket is open.\<close>

definition server_again :: "error_code \<Rightarrow> bool \<Rightarrow> again" where
  "server_again ec is_open =
     (case snd (server_accept ec) of
        Next_accept \<Rightarrow> Accept_now | Next_accept_after_ms n \<Rightarrow> Accept_after_ms n | No_accept \<Rightarrow> Accept_never)"

definition proxy_again :: "error_code \<Rightarrow> bool \<Rightarrow> again" where
  "proxy_again ec is_open = snd (snd (snd (proxy_accept 0 0 0 False [] ec (listener_stats.make 0 0) (new_server [] [] []))))"

text \<open>\<open>vhost_accept\<close>: whether a connection is handled, and how the loop goes on.\<close>

definition vhost_accept :: "error_code \<Rightarrow> bool \<times> again" where
  "vhost_accept ec =
     (if ec = Success then (True, Accept_now)
      else (False, if ec \<noteq> Operation_aborted then Accept_after_ms 100 else Accept_never))"

definition vhost_again :: "error_code \<Rightarrow> bool \<Rightarrow> again" where
  "vhost_again ec is_open = snd (vhost_accept ec)"

definition mgmt_again :: "error_code \<Rightarrow> bool \<Rightarrow> again" where
  "mgmt_again ec is_open = snd (mgmt_accept ec is_open)"

definition udp_listener_again :: "error_code \<Rightarrow> bool \<Rightarrow> again" where
  "udp_listener_again ec is_open =
     (if ec = Success then Accept_now
      else if ec \<noteq> Operation_aborted \<and> is_open then Accept_after_ms 100 else Accept_never)"

definition server_udp_again :: "error_code \<Rightarrow> bool \<Rightarrow> again" where
  "server_udp_again ec is_open =
     (case udp_reread ec \<lparr>qt_sessions = [], qt_next = 0, qt_open = is_open\<rparr> of
        [Udp_read_again] \<Rightarrow> Accept_now
      | [Udp_read_after_ms n] \<Rightarrow> Accept_after_ms n
      | _ \<Rightarrow> Accept_never)"

text \<open>All of them, each with whether the handler of its timer looks at the socket.\<close>

definition all_loops :: "((error_code \<Rightarrow> bool \<Rightarrow> again) \<times> bool) list" where
  "all_loops =
     [(server_again, False), (proxy_again, False), (vhost_again, False),
      (mgmt_again, True), (udp_listener_again, True), (server_udp_again, True)]"

section \<open>A loop over time\<close>

text \<open>
  The pending operation, started while the socket was open or when it was closed already; or the
  timer; or nothing. An operation on an open socket completes with anything but
  \<open>operation_aborted\<close>; when the socket is closed meanwhile it is aborted, unless it has completed
  before; an operation started on a closed socket fails, with another error.
\<close>

datatype loop_op = Op_open | Op_closed | Op_timer | Op_none

definition issue :: "bool \<Rightarrow> loop_op" where
  "issue is_open = (if is_open then Op_open else Op_closed)"

definition go_on :: "bool \<Rightarrow> again \<Rightarrow> loop_op" where
  "go_on is_open d =
     (case d of Accept_now \<Rightarrow> issue is_open | Accept_after_ms n \<Rightarrow> Op_timer | Accept_never \<Rightarrow> Op_none)"

inductive loop_step ::
    "(error_code \<Rightarrow> bool \<Rightarrow> again) \<Rightarrow> bool \<Rightarrow> bool \<times> loop_op \<Rightarrow> bool \<times> loop_op \<Rightarrow> bool"
  for decide guarded where
  done_open: "ec \<noteq> Operation_aborted \<Longrightarrow>
    loop_step decide guarded (True, Op_open) (True, go_on True (decide ec True))"
| done_late: "loop_step decide guarded (False, Op_open) (False, go_on False (decide ec False))"
| done_closed: "\<lbrakk>ec \<noteq> Success; ec \<noteq> Operation_aborted\<rbrakk> \<Longrightarrow>
    loop_step decide guarded (False, Op_closed) (False, go_on False (decide ec False))"
| timer_fires: "loop_step decide guarded (is_open, Op_timer)
    (is_open, if guarded \<and> \<not> is_open then Op_none else issue is_open)"
| socket_closed: "loop_step decide guarded (True, op) (False, op)"

fun rank :: "loop_op \<Rightarrow> nat" where
  "rank Op_open = 2" | "rank Op_closed = 1" | "rank Op_timer = 1" | "rank Op_none = 0"

locale retry_loop =
  fixes decide :: "error_code \<Rightarrow> bool \<Rightarrow> again" and guarded :: bool
  assumes goes_on: "ec \<noteq> Operation_aborted \<Longrightarrow> decide ec True \<noteq> Accept_never"
begin

lemma alive:
  "(loop_step decide guarded)\<^sup>*\<^sup>* (True, Op_open) (is_open, op) \<Longrightarrow>
     is_open \<longrightarrow> op \<in> {Op_open, Op_timer}"
proof (induction "(is_open, op)" arbitrary: is_open op rule: rtranclp_induct)
  case (step u)
  obtain b o' where u: "u = (b, o')" by force
  from step(2) [unfolded u] show ?case
    using step(3) [OF u] goes_on
    by (cases rule: loop_step.cases) (auto simp: go_on_def issue_def split: again.splits)
qed simp

end

locale guarded_loop = retry_loop +
  assumes guard: "guarded"
    and failure_ends: "ec \<noteq> Success \<Longrightarrow> decide ec False = Accept_never"
begin

lemma ranked:
  assumes "loop_step decide guarded (False, op) t"
  shows "\<not> fst t \<and> rank (snd t) < rank op"
  using assms guard failure_ends
  by (cases rule: loop_step.cases) (auto simp: go_on_def issue_def split: again.splits)

lemma ends: "(loop_step decide guarded ^^ n) (False, op) t \<Longrightarrow> \<not> fst t \<and> n + rank (snd t) \<le> rank op"
proof (induction n arbitrary: t)
  case (Suc n)
  then obtain u where u: "(loop_step decide guarded ^^ n) (False, op) u" "loop_step decide guarded u t" by auto
  from Suc.IH [OF u(1)] ranked [of "snd u" t] u(2) show ?case by (cases u) auto
qed simp

end

locale unguarded_loop = retry_loop +
  assumes no_guard: "\<not> guarded"
    and retries: "\<lbrakk>ec \<noteq> Success; ec \<noteq> Operation_aborted\<rbrakk> \<Longrightarrow> \<exists>n. decide ec b = Accept_after_ms n"
begin

lemma goes_round:
  "(loop_step decide guarded)\<^sup>*\<^sup>* (False, Op_timer) t \<Longrightarrow> \<not> fst t \<and> snd t \<in> {Op_timer, Op_closed}"
proof (induction rule: rtranclp_induct)
  case (step u t)
  then obtain op where u: "u = (False, op)" "op \<in> {Op_timer, Op_closed}" by (cases u) auto
  from step(2) [unfolded u(1)] show ?case
    using retries [of _ False] u(2) no_guard
    by (cases rule: loop_step.cases) (auto simp: go_on_def issue_def split: again.splits, force)
qed simp

end

section \<open>The loops are of one kind or the other\<close>

lemmas again_defs = server_again_def server_accept_def proxy_again_def proxy_accept_def vhost_again_def
  vhost_accept_def mgmt_again_def mgmt_accept_def udp_listener_again_def server_udp_again_def udp_reread_def
  Let_def

interpretation server_loop: unguarded_loop server_again False
  by unfold_locales (auto simp: again_defs)

interpretation proxy_loop: unguarded_loop proxy_again False
  by unfold_locales (auto simp: again_defs)

interpretation vhost_loop: unguarded_loop vhost_again False
  by unfold_locales (auto simp: again_defs)

interpretation mgmt_loop: guarded_loop mgmt_again True
  by unfold_locales (auto simp: again_defs)

interpretation udp_listener_loop: guarded_loop udp_listener_again True
  by unfold_locales (auto simp: again_defs)

interpretation server_udp_loop: guarded_loop server_udp_again True
  by unfold_locales (auto simp: again_defs)

text \<open>
  No listener goes deaf: as long as its socket is open, each of the loops has an operation or
  its retry timer pending, whatever errors its operations have had.
\<close>

theorem listeners_stay_alive:
  assumes "(decide, guarded) \<in> set all_loops"
    and "(loop_step decide guarded)\<^sup>*\<^sup>* (True, Op_open) (True, op)"
  shows "op = Op_open \<or> op = Op_timer"
  using assms server_loop.alive [of True op] proxy_loop.alive [of True op] vhost_loop.alive [of True op]
    mgmt_loop.alive [of True op] udp_listener_loop.alive [of True op] server_udp_loop.alive [of True op]
  unfolding all_loops_def by auto

theorem listeners_stay_alive_witness:
  "go_on True (mgmt_again No_buffer_space True) = Op_timer"
proof -
  have "(loop_step mgmt_again True)\<^sup>*\<^sup>* (True, Op_open) (True, go_on True (mgmt_again No_buffer_space True))"
    by (intro r_into_rtranclp done_open) simp
  from listeners_stay_alive [OF _ this] show ?thesis
    by (auto simp: all_loops_def again_defs go_on_def issue_def)
qed

text \<open>
  The loops whose timer looks at the socket end: after the socket is closed, at most two more
  completions happen, and then nothing is pending.
\<close>

theorem guarded_listeners_end:
  assumes "(decide, True) \<in> set all_loops" and "(loop_step decide True ^^ n) (False, op) (b, op')"
  shows "n \<le> 2 \<and> ((\<forall>t. \<not> loop_step decide True (b, op') t) \<longrightarrow> op' = Op_none)"
proof -
  have "n + rank op' \<le> rank op"
    using assms mgmt_loop.ends [of n op "(b, op')"] udp_listener_loop.ends [of n op "(b, op')"]
      server_udp_loop.ends [of n op "(b, op')"]
    unfolding all_loops_def by auto
  moreover have "rank op \<le> 2" by (cases op) auto
  moreover have "\<not> b"
    using assms mgmt_loop.ends [of n op "(b, op')"] udp_listener_loop.ends [of n op "(b, op')"]
      server_udp_loop.ends [of n op "(b, op')"]
    unfolding all_loops_def by auto
  moreover have "\<exists>t. loop_step decide True (False, op') t" if "op' \<noteq> Op_none"
    using that done_late [of decide True] done_closed [of Eof decide True] timer_fires [of decide True False]
    by (cases op') auto
  ultimately show ?thesis by auto
qed

theorem guarded_listeners_end_witness:
  "(loop_step mgmt_again True ^^ 1) (False, Op_timer) (False, Op_none) \<and> (1::nat) \<le> 2"
proof -
  have *: "(loop_step mgmt_again True ^^ 1) (False, Op_timer) (False, Op_none)"
    using timer_fires [of mgmt_again True False] by (simp add: eq_OO)
  from guarded_listeners_end [OF _ this] * show ?thesis by (simp add: all_loops_def)
qed

text \<open>
  The others do not: a listener that is closed while its retry timer runs starts an accept on
  the closed socket, which fails, and starts the timer again, forever.
\<close>

theorem unguarded_listeners_never_end:
  assumes "(decide, False) \<in> set all_loops" and "(loop_step decide False)\<^sup>*\<^sup>* (False, Op_timer) t"
  shows "\<exists>u. loop_step decide False t u"
proof -
  have "\<not> fst t \<and> snd t \<in> {Op_timer, Op_closed}"
    using assms server_loop.goes_round [of t] proxy_loop.goes_round [of t] vhost_loop.goes_round [of t]
    unfolding all_loops_def by auto
  then show ?thesis
    using done_closed [of Eof decide False] timer_fires [of decide False False] by (cases t) auto
qed

theorem unguarded_listeners_never_end_witness:
  "\<exists>u. loop_step vhost_again False (False, Op_timer) u"
  by (rule unguarded_listeners_never_end) (simp_all add: all_loops_def)

section \<open>A connection of a virtual-host listener\<close>

text \<open>
  Its only read is bounded by a timer of ten seconds, which closes the socket; that completes the
  read with an error, and the connection is dropped.
\<close>

record vhost_conn =
  vc_socket_open :: bool
  vc_timer_s :: "nat option"
  vc_reading :: bool

definition vhost_conn_start :: vhost_conn where
  "vhost_conn_start = \<lparr>vc_socket_open = True, vc_timer_s = Some 10, vc_reading = True\<rparr>"

definition vhost_timeout :: "error_code \<Rightarrow> vhost_conn \<Rightarrow> vhost_conn" where
  "vhost_timeout ec c = (if ec = Success then c\<lparr>vc_socket_open := False, vc_timer_s := None\<rparr> else c)"

definition vhost_read_done :: "vhost_conn \<Rightarrow> vhost_conn" where
  "vhost_read_done c = c\<lparr>vc_timer_s := None, vc_reading := False\<rparr>"

inductive vhost_conn_reach :: "vhost_conn \<Rightarrow> bool" where
  vcr_start: "vhost_conn_reach vhost_conn_start"
| vcr_timeout: "\<lbrakk>vhost_conn_reach c; vc_timer_s c \<noteq> None\<rbrakk> \<Longrightarrow> vhost_conn_reach (vhost_timeout ec c)"
| vcr_read: "\<lbrakk>vhost_conn_reach c; vc_reading c\<rbrakk> \<Longrightarrow> vhost_conn_reach (vhost_read_done c)"

lemma vhost_read_bounded:
  "vhost_conn_reach c \<Longrightarrow> vc_reading c \<longrightarrow> vc_timer_s c = Some 10 \<or> \<not> vc_socket_open c"
  by (induction rule: vhost_conn_reach.induct)
    (auto simp: vhost_conn_start_def vhost_timeout_def vhost_read_done_def)

end
