(* ===== verification/Layers.thy ===== *)
theory Layers
  imports Acceptor
begin

text \<open>
  The stream objects of \<open>src/common/stream.h\<close> and what wraps them (\<open>websocket_stream.cpp\<close>,
  \<open>mux.cpp\<close>, \<open>quic_ngtcp2.cpp\<close>): \<open>TcpStream\<close> and \<open>SslStream\<close> hold a socket, \<open>BufferedStream\<close> and
  \<open>WebsocketStream\<close> another stream, a \<open>MuxStream\<close> finds one through its session, a \<open>QuicStream\<close>
  its session. Reading and writing are in the theories of these components; here are the
  operations that pass from layer to layer. Also the buffers of \<open>zstd_utils.h\<close>.
\<close>

section \<open>Stacks of streams\<close>

text \<open>
  Sockets are numbers. The flag of \<open>WebsocketStream\<close> is \<open>perform_underlying_handshake_\<close>; the
  session of a \<open>MuxStream\<close> or \<open>QuicStream\<close> may be gone (\<open>None\<close>); of a QUIC session the remote
  endpoint is kept.
\<close>

datatype stack =
    TcpStream nat
  | SslStream nat
  | BufferedStream_on stack
  | WebsocketStream_on bool stack
  | MuxStream_on "stack option"
  | QuicStream_on "string option"

fun protocol_name :: "stack \<Rightarrow> string" where
  "protocol_name (TcpStream s) = ''TCP''"
| "protocol_name (SslStream s) = ''SSL''"
| "protocol_name (BufferedStream_on u) = protocol_name u"
| "protocol_name (WebsocketStream_on p u) = ''WebSocket''"
| "protocol_name (MuxStream_on None) = ''unknown''"
| "protocol_name (MuxStream_on (Some u)) = protocol_name u"
| "protocol_name (QuicStream_on s) = ''QUIC''"

text \<open>\<open>peer\<close>: the remote endpoint of a socket, if it is connected.\<close>

fun remote_endpoint_string :: "(nat \<Rightarrow> string option) \<Rightarrow> stack \<Rightarrow> string" where
  "remote_endpoint_string peer (TcpStream s) = (case peer s of None \<Rightarrow> ''unknown'' | Some ep \<Rightarrow> ep)"
| "remote_endpoint_string peer (SslStream s) = (case peer s of None \<Rightarrow> ''unknown'' | Some ep \<Rightarrow> ep)"
| "remote_endpoint_string peer (BufferedStream_on u) = remote_endpoint_string peer u"
| "remote_endpoint_string peer (WebsocketStream_on p u) = remote_endpoint_string peer u"
| "remote_endpoint_string peer (MuxStream_on None) = ''unknown''"
| "remote_endpoint_string peer (MuxStream_on (Some u)) = remote_endpoint_string peer u"
| "remote_endpoint_string peer (QuicStream_on s) = (case s of None \<Rightarrow> ''unknown'' | Some ep \<Rightarrow> ep)"

text \<open>
  The sockets that \<open>close\<close> closes. Closing a \<open>MuxStream\<close> or a \<open>QuicStream\<close> sends a frame or shuts
  the stream down and closes no socket.
\<close>

fun stack_close :: "stack \<Rightarrow> nat list" where
  "stack_close (TcpStream s) = [s]"
| "stack_close (SslStream s) = [s]"
| "stack_close (BufferedStream_on u) = stack_close u"
| "stack_close (WebsocketStream_on p u) = stack_close u"
| "stack_close (MuxStream_on u) = []"
| "stack_close (QuicStream_on s) = []"

text \<open>
  \<open>get_native_handle\<close> (the TLS object of a socket, or null) and \<open>set_host_name\<close> (the TLS objects
  that are told the name). \<open>WebsocketStream\<close> overrides the second only.
\<close>

fun get_native_handle :: "stack \<Rightarrow> nat option" where
  "get_native_handle (SslStream s) = Some s"
| "get_native_handle (BufferedStream_on u) = get_native_handle u"
| "get_native_handle _ = None"

fun set_host_name :: "stack \<Rightarrow> nat list" where
  "set_host_name (SslStream s) = [s]"
| "set_host_name (BufferedStream_on u) = set_host_name u"
| "set_host_name (WebsocketStream_on p u) = set_host_name u"
| "set_host_name _ = []"

text \<open>
  \<open>async_handshake\<close>: the handshakes that are run, from the bottom to the top; a handshake
  starts when the one below has succeeded. \<open>TcpStream\<close>, \<open>MuxStream\<close> and \<open>QuicStream\<close> succeed at once.
\<close>

datatype handshake_run = Tls_handshake nat | Ws_handshake

fun async_handshake :: "stack \<Rightarrow> handshake_run list" where
  "async_handshake (TcpStream s) = []"
| "async_handshake (SslStream s) = [Tls_handshake s]"
| "async_handshake (BufferedStream_on u) = async_handshake u"
| "async_handshake (WebsocketStream_on p u) = (if p then async_handshake u else []) @ [Ws_handshake]"
| "async_handshake (MuxStream_on u) = []"
| "async_handshake (QuicStream_on s) = []"

section \<open>What an accepted connection is made of\<close>

text \<open>The stream objects of the acceptor, on the socket \<open>s\<close> of the connection.\<close>

fun layer_stack :: "nat \<Rightarrow> layer \<Rightarrow> stack" where
  "layer_stack s Tcp_stream = TcpStream s"
| "layer_stack s Ssl_stream = SslStream s"
| "layer_stack s (Websocket_stream p l) = WebsocketStream_on p (layer_stack s l)"
| "layer_stack s (Buffered b l) = BufferedStream_on (layer_stack s l)"

lemma layer_socket:
  "stack_close (layer_stack s l) = [s]"
  "remote_endpoint_string peer (layer_stack s l) = (case peer s of None \<Rightarrow> ''unknown'' | Some ep \<Rightarrow> ep)"
  "set_host_name (layer_stack s l) = (if has_ssl l then [s] else [])"
  by (induction l) auto

text \<open>The shapes of the streams that the acceptor builds.\<close>

inductive built :: "layer \<Rightarrow> bool" where
  built_tcp: "built Tcp_stream"
| built_ssl: "built Ssl_stream"
| built_ws: "l \<in> {Tcp_stream, Ssl_stream} \<Longrightarrow> built (Websocket_stream True l)"
| built_buffered: "built l \<Longrightarrow> built (Buffered b l)"
| built_detected: "\<lbrakk>built l; l \<in> {Tcp_stream, Ssl_stream}\<rbrakk> \<Longrightarrow> built (Websocket_stream False (Buffered b l))"

definition phase_built :: "listen_config \<Rightarrow> accept_phase \<Rightarrow> bool" where
  "phase_built c p \<longleftrightarrow>
     (case p of
        Handshaking l \<Rightarrow> (if lc_protocol c = ''websocket'' then \<exists>u \<in> {Tcp_stream, Ssl_stream}. l = Websocket_stream True u
                          else l \<in> {Tcp_stream, Ssl_stream})
      | Detecting l \<Rightarrow> lc_protocol c = ''auto'' \<and> l \<in> {Tcp_stream, Ssl_stream}
      | Ws_handshaking l \<Rightarrow> (\<exists>b. \<exists>u \<in> {Tcp_stream, Ssl_stream}. l = Websocket_stream False (Buffered b u))
      | Muxing l \<Rightarrow> built l
      | _ \<Rightarrow> True)"

lemma phase_built_step:
  assumes "phase_built c (ac_phase a)"
  shows "phase_built c (ac_phase (fst (accept_step c ev a)))"
proof (cases ev)
  case Timed_out
  have "ac_phase (fst (on_accept_timeout a)) = ac_phase a"
    by (simp add: on_accept_timeout_def state_Close_def split: accept_phase.splits)
  with assms Timed_out show ?thesis by simp
next
  case (Completed ec got)
  with assms show ?thesis
    by (cases "ac_phase a")
      (auto simp: phase_built_def accept_defs intro: built.intros split: if_splits prod.splits)
qed

lemma phase_built_run: "phase_built c (ac_phase a) \<Longrightarrow> phase_built c (ac_phase (fst (accept_run c evs a)))"
proof (induction evs arbitrary: a)
  case (Cons ev evs)
  show ?case using Cons.IH [OF phase_built_step [OF Cons.prems]] by (simp add: case_prod_beta)
qed simp

lemma phase_built_start: "phase_built c (ac_phase (on_accept c))"
  by (simp add: phase_built_def on_accept_def start_handshake_def Let_def)

lemma built_protocol:
  "built l \<Longrightarrow> protocol_name (layer_stack s l) \<in> {''TCP'', ''SSL'', ''WebSocket''} \<and>
    (\<not> has_ssl l \<longrightarrow> protocol_name (layer_stack s l) \<noteq> ''SSL'') \<and>
    (protocol_name (layer_stack s l) = ''TCP'' \<longrightarrow> \<not> has_ssl l)"
  by (induction rule: built.induct) auto

text \<open>
  Whatever happens during the handshake, the stream that a multiplexer gets stands on the socket
  of its connection: closing it closes this socket and no other, the endpoint it reports is the peer
  of this socket, and the protocol it reports is \<open>TCP\<close> only without TLS and \<open>SSL\<close> only with TLS
  (\<open>WebSocket\<close> says nothing about TLS).
\<close>

theorem accepted_stream_reports:
  assumes "accept_run c evs (on_accept c) = (a, os)" and "l \<in> set (muxed os)"
  shows "stack_close (layer_stack s l) = [s] \<and>
    remote_endpoint_string peer (MuxStream_on (Some (layer_stack s l))) =
      (case peer s of None \<Rightarrow> ''unknown'' | Some ep \<Rightarrow> ep) \<and>
    (protocol_name (MuxStream_on (Some (layer_stack s l))) = ''TCP'' \<longrightarrow> \<not> has_ssl l) \<and>
    (protocol_name (MuxStream_on (Some (layer_stack s l))) = ''SSL'' \<longrightarrow> has_ssl l)"
proof -
  have "ac_phase a = Muxing l"
    using accept_run_muxed [of c evs "on_accept c"] assms
    by (cases "accept_waiting (ac_phase (on_accept c))"; cases "ac_phase a") simp_all
  then have "built l"
    using phase_built_run [OF phase_built_start, of c evs] assms(1) by (simp add: phase_built_def)
  from built_protocol [OF this, of s] show ?thesis by (auto simp: layer_socket)
qed

theorem accepted_stream_reports_witness:
  "protocol_name (MuxStream_on (Some (layer_stack 3 (Buffered 0 Ssl_stream)))) = ''SSL'' \<and>
   stack_close (layer_stack 3 (Buffered 0 Ssl_stream)) = [3]"
proof -
  let ?c = "\<lparr>lc_protocol = ''auto'', lc_ssl = True, lc_vhost_http = 0, lc_vhost_https = 0\<rparr>"
  let ?evs = "[Completed Success [0x16], Completed Success [], Completed Success [0]]"
  have "accept_run ?c ?evs (on_accept ?c) = (fst (accept_run ?c ?evs (on_accept ?c)), [Start_mux (Buffered 0 Ssl_stream)])"
    by (simp add: on_accept_def accept_defs byte_of_char_def Let_def)
  from accepted_stream_reports [OF this, of "Buffered 0 Ssl_stream" 3] show ?thesis by simp
qed

section \<open>Buffers of the compressor and the decompressor\<close>

text \<open>
  \<open>get_compress_buf\<close> and \<open>get_decompress_buf\<close>: the buffer grows to the size asked for and never
  shrinks. \<open>coder_use\<close> is what the bridges do with it: they ask for a capacity and let the library
  write at most that many bytes to the front.
\<close>

definition get_coder_buf :: "nat \<Rightarrow> bytes \<Rightarrow> bytes" where
  "get_coder_buf n buf = (if length buf < n then buf @ replicate (n - length buf) 0 else buf)"

definition coder_use :: "nat \<Rightarrow> bytes \<Rightarrow> bytes \<Rightarrow> bytes option" where
  "coder_use capacity written buf =
     (let b = get_coder_buf capacity buf
      in if length written \<le> capacity
         then (if length written \<le> length b then Some (written @ drop (length written) b) else None)
         else Some b)"

lemma coder_use_in_bounds:
  "\<exists>b. coder_use capacity written buf = Some b \<and> length b = max capacity (length buf) \<and>
    (length written \<le> capacity \<longrightarrow> take (length written) b = written)"
  by (auto simp: coder_use_def get_coder_buf_def Let_def)

end
