(* ===== verification/Concurrency.thy ===== *)
theory Concurrency
  imports Prelude
begin

text \<open>
  Threads that take mutexes. The handlers of the program run on several threads of one
  \<open>io_context\<close>; a handler takes a mutex for a block (\<open>std::lock_guard\<close>, \<open>std::unique_lock\<close>,
  \<open>std::shared_lock\<close>) and reads and writes members that other handlers use too. A \<open>sync\<close> is what
  of a handler matters for this: its blocks under locks and its accesses, with choices and loops
  undetermined. A thread is a stack of pending work; the locks it holds are the releases on the
  stack. Here are the steps of such threads and two contracts, each with what follows from it for
  any number of threads: \<open>ordered_locks\<close> (no deadlock, and all work can be finished) and
  \<open>guarded_data\<close> (no data race on what a lock protects).
\<close>

section \<open>Handlers and threads\<close>

datatype mode = Exclusive | Shared

datatype access = Reads | Writes

datatype ('l, 'v) sync =
    Done
  | Touch access 'v
  | Locked mode 'l "('l, 'v) sync"
  | Then "('l, 'v) sync" "('l, 'v) sync"
  | Either "('l, 'v) sync" "('l, 'v) sync"
  | Repeat "('l, 'v) sync"

datatype ('l, 'v) work = Todo "('l, 'v) sync" | Release mode 'l

type_synonym ('l, 'v) thread = "('l, 'v) work list"

type_synonym ('l, 'v) threads = "('l, 'v) thread list"

fun block :: "('l, 'v) sync list \<Rightarrow> ('l, 'v) sync" where
  "block [] = Done"
| "block [p] = p"
| "block (p # ps) = Then p (block ps)"

fun one_of :: "('l, 'v) sync list \<Rightarrow> ('l, 'v) sync" where
  "one_of [] = Done"
| "one_of [p] = p"
| "one_of (p # ps) = Either p (one_of ps)"

definition maybe :: "('l, 'v) sync \<Rightarrow> ('l, 'v) sync" where
  "maybe p = Either p Done"

section \<open>Steps\<close>

text \<open>What a piece of work can become.\<close>

fun unfold_work :: "('l, 'v) work \<Rightarrow> ('l, 'v) thread list" where
  "unfold_work (Todo (Locked m l p)) = [[Todo p, Release m l]]"
| "unfold_work (Todo (Then p q)) = [[Todo p, Todo q]]"
| "unfold_work (Todo (Either p q)) = [[Todo p], [Todo q]]"
| "unfold_work (Todo (Repeat p)) = [[], [Todo p, Todo (Repeat p)]]"
| "unfold_work _ = [[]]"

fun waits_for :: "mode \<Rightarrow> 'l \<Rightarrow> ('l, 'v) thread \<Rightarrow> bool" where
  "waits_for m l (Todo (Locked m' l' p) # k) \<longleftrightarrow> m' = m \<and> l' = l"
| "waits_for m l k \<longleftrightarrow> False"

text \<open>
  \<open>again l\<close>: \<open>l\<close> is a recursive mutex; any other mutex that the thread holds itself is never
  free for it. \<open>writers_first\<close>: readers of a \<open>shared_mutex\<close> stand back behind a waiting writer
  (the standard leaves this open).
\<close>

definition may_lock :: "('l \<Rightarrow> bool) \<Rightarrow> bool \<Rightarrow> ('l, 'v) threads \<Rightarrow> nat \<Rightarrow> mode \<Rightarrow> 'l \<Rightarrow> bool" where
  "may_lock again writers_first ts i m l \<longleftrightarrow>
     (again l \<or> Release Exclusive l \<notin> set (ts ! i) \<and> Release Shared l \<notin> set (ts ! i)) \<and>
     (\<forall>j<length ts. j \<noteq> i \<longrightarrow>
        Release Exclusive l \<notin> set (ts ! j) \<and>
        (m = Exclusive \<longrightarrow> Release Shared l \<notin> set (ts ! j)) \<and>
        (m = Shared \<and> writers_first \<longrightarrow> \<not> waits_for Exclusive l (ts ! j)))"

fun blocked :: "('l \<Rightarrow> bool) \<Rightarrow> bool \<Rightarrow> ('l, 'v) threads \<Rightarrow> nat \<Rightarrow> ('l, 'v) thread \<Rightarrow> bool" where
  "blocked again wr ts i (Todo (Locked m l p) # k) \<longleftrightarrow> \<not> may_lock again wr ts i m l"
| "blocked again wr ts i k \<longleftrightarrow> False"

definition can_move :: "('l \<Rightarrow> bool) \<Rightarrow> bool \<Rightarrow> ('l, 'v) threads \<Rightarrow> nat \<Rightarrow> bool" where
  "can_move again wr ts i \<longleftrightarrow> i < length ts \<and> ts ! i \<noteq> [] \<and> \<not> blocked again wr ts i (ts ! i)"

inductive work_step :: "('l \<Rightarrow> bool) \<Rightarrow> bool \<Rightarrow> ('l, 'v) threads \<Rightarrow> ('l, 'v) threads \<Rightarrow> bool"
  for again writers_first where
  work: "\<lbrakk>can_move again writers_first ts i; ts ! i = w # k; k' \<in> set (unfold_work w)\<rbrakk>
    \<Longrightarrow> work_step again writers_first ts (ts[i := k' @ k])"

text \<open>An idle thread takes any handler.\<close>

inductive reachable_threads ::
    "('l \<Rightarrow> bool) \<Rightarrow> bool \<Rightarrow> ('l, 'v) sync set \<Rightarrow> nat \<Rightarrow> ('l, 'v) threads \<Rightarrow> bool"
  for again writers_first progs n where
  idle: "reachable_threads again writers_first progs n (replicate n [])"
| take_handler: "\<lbrakk>reachable_threads again writers_first progs n ts; i < length ts; ts ! i = []; p \<in> progs\<rbrakk>
    \<Longrightarrow> reachable_threads again writers_first progs n (ts[i := [Todo p]])"
| go: "\<lbrakk>reachable_threads again writers_first progs n ts; work_step again writers_first ts ts'\<rbrakk>
    \<Longrightarrow> reachable_threads again writers_first progs n ts'"

text \<open>Two threads are about to access the same member, one of them to write it.\<close>

fun about_to :: "access \<Rightarrow> 'v \<Rightarrow> ('l, 'v) thread \<Rightarrow> bool" where
  "about_to a v (Todo (Touch b u) # k) \<longleftrightarrow> b = a \<and> u = v"
| "about_to a v k \<longleftrightarrow> False"

definition race :: "'v \<Rightarrow> ('l, 'v) threads \<Rightarrow> bool" where
  "race v ts \<longleftrightarrow>
     (\<exists>i<length ts. \<exists>j<length ts. i \<noteq> j \<and> about_to Writes v (ts ! i) \<and>
        (about_to Reads v (ts ! j) \<or> about_to Writes v (ts ! j)))"

text \<open>A schedule: which thread goes on, and with which of its alternatives.\<close>

fun follow :: "('l \<Rightarrow> bool) \<Rightarrow> bool \<Rightarrow> (nat \<times> nat) list \<Rightarrow> ('l, 'v) threads \<Rightarrow> ('l, 'v) threads option" where
  "follow again wr [] ts = Some ts"
| "follow again wr ((i, a) # sched) ts =
     (if can_move again wr ts i \<and> a < length (unfold_work (hd (ts ! i)))
      then follow again wr sched (ts[i := (unfold_work (hd (ts ! i)) ! a) @ tl (ts ! i)])
      else None)"

lemma follow_reachable:
  "\<lbrakk>follow again wr sched ts = Some ts'; reachable_threads again wr progs n ts\<rbrakk>
    \<Longrightarrow> reachable_threads again wr progs n ts'"
proof (induction again wr sched ts rule: follow.induct)
  case (2 again wr i a sched ts)
  then have m: "can_move again wr ts i" and a: "a < length (unfold_work (hd (ts ! i)))"
    by (auto split: if_splits)
  from m have "ts ! i = hd (ts ! i) # tl (ts ! i)" by (simp add: can_move_def)
  from work_step.work [OF m this nth_mem [OF a]] have
    "reachable_threads again wr progs n (ts[i := (unfold_work (hd (ts ! i)) ! a) @ tl (ts ! i)])"
    by (rule reachable_threads.go [OF "2.prems"(2)])
  with 2 m a show ?case by simp
qed simp

lemma two_threads:
  assumes "p \<in> progs" and "q \<in> progs"
  shows "reachable_threads again wr progs 2 [[Todo p], [Todo q]]"
proof -
  have "reachable_threads again wr progs 2 ((replicate 2 [])[0 := [Todo p], 1 := [Todo q]])"
    by (intro reachable_threads.take_handler reachable_threads.idle assms) simp_all
  then show ?thesis by (simp add: numeral_2_eq_2)
qed

text \<open>Two threads, for concrete schedules.\<close>

lemma may_lock_two:
  "may_lock again wr [a, b] 0 m l \<longleftrightarrow>
     (again l \<or> Release Exclusive l \<notin> set a \<and> Release Shared l \<notin> set a) \<and>
     Release Exclusive l \<notin> set b \<and> (m = Exclusive \<longrightarrow> Release Shared l \<notin> set b) \<and>
     (m = Shared \<and> wr \<longrightarrow> \<not> waits_for Exclusive l b)"
  "may_lock again wr [a, b] (Suc 0) m l \<longleftrightarrow>
     (again l \<or> Release Exclusive l \<notin> set b \<and> Release Shared l \<notin> set b) \<and>
     Release Exclusive l \<notin> set a \<and> (m = Exclusive \<longrightarrow> Release Shared l \<notin> set a) \<and>
     (m = Shared \<and> wr \<longrightarrow> \<not> waits_for Exclusive l a)"
  by (simp_all add: may_lock_def All_less_Suc)

lemma can_move_two:
  "can_move again wr [a, b] 0 \<longleftrightarrow> a \<noteq> [] \<and> \<not> blocked again wr [a, b] 0 a"
  "can_move again wr [a, b] (Suc 0) \<longleftrightarrow> b \<noteq> [] \<and> \<not> blocked again wr [a, b] (Suc 0) b"
  by (simp_all add: can_move_def)

lemma race_two:
  "race v [a, b] \<longleftrightarrow>
     about_to Writes v a \<and> (about_to Reads v b \<or> about_to Writes v b) \<or>
     about_to Writes v b \<and> (about_to Reads v a \<or> about_to Writes v a)"
  unfolding race_def by (simp add: Ex_less_Suc) blast

lemmas schedule_simps = may_lock_two can_move_two race_two

section \<open>Disciplines\<close>

text \<open>
  Locks are taken in the order of their ranks, except that a recursive mutex may be taken again;
  a member is accessed only under the lock that protects it, and written only under the exclusive
  one. \<open>hs\<close> is what is held where the code stands.
\<close>

fun ordered :: "('l \<Rightarrow> nat) \<Rightarrow> ('l \<Rightarrow> bool) \<Rightarrow> (mode \<times> 'l) list \<Rightarrow> ('l, 'v) sync \<Rightarrow> bool" where
  "ordered rank again hs (Locked m l p) \<longleftrightarrow>
     (again l \<longrightarrow> m = Exclusive) \<and>
     (again l \<and> (Exclusive, l) \<in> set hs \<or> (\<forall>h \<in> set hs. rank (snd h) < rank l)) \<and>
     ordered rank again ((m, l) # hs) p"
| "ordered rank again hs (Then p q) \<longleftrightarrow> ordered rank again hs p \<and> ordered rank again hs q"
| "ordered rank again hs (Either p q) \<longleftrightarrow> ordered rank again hs p \<and> ordered rank again hs q"
| "ordered rank again hs (Repeat p) \<longleftrightarrow> ordered rank again hs p"
| "ordered rank again hs _ \<longleftrightarrow> True"

fun guarded :: "('v \<Rightarrow> 'l option) \<Rightarrow> (mode \<times> 'l) list \<Rightarrow> ('l, 'v) sync \<Rightarrow> bool" where
  "guarded protects hs (Touch a v) \<longleftrightarrow>
     (case protects v of
        None \<Rightarrow> True
      | Some l \<Rightarrow> (Exclusive, l) \<in> set hs \<or> a = Reads \<and> (Shared, l) \<in> set hs)"
| "guarded protects hs (Locked m l p) \<longleftrightarrow> guarded protects ((m, l) # hs) p"
| "guarded protects hs (Then p q) \<longleftrightarrow> guarded protects hs p \<and> guarded protects hs q"
| "guarded protects hs (Either p q) \<longleftrightarrow> guarded protects hs p \<and> guarded protects hs q"
| "guarded protects hs (Repeat p) \<longleftrightarrow> guarded protects hs p"
| "guarded protects hs Done \<longleftrightarrow> True"

lemma ordered_block [simp]: "ordered rank again hs (block ps) \<longleftrightarrow> (\<forall>p \<in> set ps. ordered rank again hs p)"
  by (induction ps rule: block.induct) auto

lemma ordered_one_of [simp]: "ordered rank again hs (one_of ps) \<longleftrightarrow> (\<forall>p \<in> set ps. ordered rank again hs p)"
  by (induction ps rule: one_of.induct) auto

lemma ordered_maybe [simp]: "ordered rank again hs (maybe p) \<longleftrightarrow> ordered rank again hs p"
  by (simp add: maybe_def)

lemma guarded_block [simp]: "guarded pr hs (block ps) \<longleftrightarrow> (\<forall>p \<in> set ps. guarded pr hs p)"
  by (induction ps rule: block.induct) auto

lemma guarded_one_of [simp]: "guarded pr hs (one_of ps) \<longleftrightarrow> (\<forall>p \<in> set ps. guarded pr hs p)"
  by (induction ps rule: one_of.induct) auto

lemma guarded_maybe [simp]: "guarded pr hs (maybe p) \<longleftrightarrow> guarded pr hs p"
  by (simp add: maybe_def)

text \<open>What a thread holds, innermost first; a property of each piece of work and what is held around it.\<close>

fun held :: "('l, 'v) thread \<Rightarrow> (mode \<times> 'l) list" where
  "held [] = []"
| "held (Todo p # k) = held k"
| "held (Release m l # k) = (m, l) # held k"

lemma held_iff: "(m, l) \<in> set (held k) \<longleftrightarrow> Release m l \<in> set k"
  by (induction k rule: held.induct) auto

fun thread_all :: "((mode \<times> 'l) list \<Rightarrow> ('l, 'v) sync \<Rightarrow> bool) \<Rightarrow> ('l, 'v) thread \<Rightarrow> bool" where
  "thread_all P [] \<longleftrightarrow> True"
| "thread_all P (Todo p # k) \<longleftrightarrow> P (held k) p \<and> thread_all P k"
| "thread_all P (Release m l # k) \<longleftrightarrow> thread_all P k"

lemma thread_all_guarded_step:
  "\<lbrakk>thread_all (guarded pr) (w # k); k' \<in> set (unfold_work w)\<rbrakk> \<Longrightarrow> thread_all (guarded pr) (k' @ k)"
  by (induction w rule: unfold_work.induct) auto

lemma thread_all_ordered_step:
  "\<lbrakk>thread_all (ordered rank again) (w # k); k' \<in> set (unfold_work w)\<rbrakk>
    \<Longrightarrow> thread_all (ordered rank again) (k' @ k)"
  by (induction w rule: unfold_work.induct) auto

section \<open>Mutual exclusion\<close>

definition excluded :: "('l, 'v) threads \<Rightarrow> bool" where
  "excluded ts \<longleftrightarrow>
     (\<forall>i<length ts. \<forall>j<length ts. \<forall>l m. i \<noteq> j \<and> Release Exclusive l \<in> set (ts ! i)
        \<longrightarrow> Release m l \<notin> set (ts ! j))"

lemma new_releases:
  "\<lbrakk>k' \<in> set (unfold_work w); Release m l \<in> set k'\<rbrakk> \<Longrightarrow> \<exists>p. w = Todo (Locked m l p)"
  by (induction w rule: unfold_work.induct) auto

lemma excludedD:
  "\<lbrakk>excluded ts; i < length ts; j < length ts; i \<noteq> j; Release Exclusive l \<in> set (ts ! i)\<rbrakk>
    \<Longrightarrow> Release m l \<notin> set (ts ! j)"
  unfolding excluded_def by blast

lemma excluded_update:
  assumes ex: "excluded ts" and i: "i < length ts"
    and new: "\<And>m l j. \<lbrakk>Release m l \<in> set k; Release m l \<notin> set (ts ! i); j < length ts; j \<noteq> i\<rbrakk>
      \<Longrightarrow> Release Exclusive l \<notin> set (ts ! j) \<and> (m = Exclusive \<longrightarrow> Release Shared l \<notin> set (ts ! j))"
  shows "excluded (ts[i := k])"
  unfolding excluded_def
proof (intro allI impI notI)
  fix a b l m
  assume a: "a < length (ts[i := k])" and b: "b < length (ts[i := k])"
    and h: "a \<noteq> b \<and> Release Exclusive l \<in> set (ts[i := k] ! a)" and m: "Release m l \<in> set (ts[i := k] ! b)"
  consider (first) "a = i" | (second) "b = i" | (none) "a \<noteq> i" "b \<noteq> i" by blast
  then show False
  proof cases
    case first
    with h m b i have k: "Release Exclusive l \<in> set k" and m': "Release m l \<in> set (ts ! b)"
      and b': "b < length ts" "b \<noteq> i" by auto
    show False
    proof (cases "Release Exclusive l \<in> set (ts ! i)")
      case True
      with excludedD [OF ex i b'(1), of l m] b'(2) m' show False by simp
    next
      case False
      with new [OF k False b'] m' show False by (cases m) simp_all
    qed
  next
    case second
    with h m a i have k: "Release m l \<in> set k" and e: "Release Exclusive l \<in> set (ts ! a)"
      and a': "a < length ts" "a \<noteq> i" by auto
    show False
    proof (cases "Release m l \<in> set (ts ! i)")
      case True
      with excludedD [OF ex a'(1) i a'(2) e, of m] show False by simp
    next
      case False
      with new [OF k False a'] e show False by simp
    qed
  next
    case none
    with h m have "Release Exclusive l \<in> set (ts ! a)" "Release m l \<in> set (ts ! b)" by simp_all
    with excludedD [OF ex, of a b l m] a b h show False by simp
  qed
qed

lemma excluded_step:
  assumes "work_step again wr ts ts'" and "excluded ts"
  shows "excluded ts'"
  using assms(1)
proof cases
  case (work i w k k')
  have i: "i < length ts" using work(2) by (simp add: can_move_def)
  show ?thesis
    unfolding work(1)
  proof (rule excluded_update [OF assms(2) i])
    fix m l j
    assume "Release m l \<in> set (k' @ k)" and "Release m l \<notin> set (ts ! i)" and j: "j < length ts" "j \<noteq> i"
    with work(3) have "Release m l \<in> set k'" by simp
    with new_releases [OF work(4)] obtain p where "w = Todo (Locked m l p)" by blast
    with work(2,3) have "may_lock again wr ts i m l" by (simp add: can_move_def)
    with j show "Release Exclusive l \<notin> set (ts ! j) \<and> (m = Exclusive \<longrightarrow> Release Shared l \<notin> set (ts ! j))"
      by (simp add: may_lock_def)
  qed
qed

lemma reachable_excluded: "reachable_threads again wr progs n ts \<Longrightarrow> excluded ts"
proof (induction rule: reachable_threads.induct)
  case idle
  show ?case by (simp add: excluded_def)
next
  case (take_handler ts i p)
  show ?case by (rule excluded_update [OF take_handler.IH take_handler.hyps(2)]) simp
next
  case (go ts ts')
  then show ?case by (blast intro: excluded_step)
qed

lemma reachable_all:
  assumes "reachable_threads again wr progs n ts"
    and "\<And>p. p \<in> progs \<Longrightarrow> P [] p"
    and "\<And>w k k'. \<lbrakk>thread_all P (w # k); k' \<in> set (unfold_work w)\<rbrakk> \<Longrightarrow> thread_all P (k' @ k)"
  shows "list_all (thread_all P) ts"
  using assms(1)
proof (induction rule: reachable_threads.induct)
  case idle
  show ?case by (simp add: list_all_length)
next
  case (take_handler ts i p)
  then show ?case using assms(2) by (auto simp: list_all_length nth_list_update)
next
  case (go ts ts')
  from go.hyps(2) show ?case
  proof cases
    case (work i w k k')
    then have "thread_all P (w # k)"
      using go.IH by (metis can_move_def list_all_length)
    from assms(3) [OF this work(4)] have "thread_all P (k' @ k)" .
    moreover have "i < length ts" using work(2) by (simp add: can_move_def)
    ultimately show ?thesis
      using go.IH work(1) by (auto simp: list_all_length nth_list_update)
  qed
qed

section \<open>No deadlock\<close>

text \<open>The rank of the lock that a blocked thread waits for.\<close>

fun wanted :: "('l \<Rightarrow> nat) \<Rightarrow> ('l, 'v) thread \<Rightarrow> nat" where
  "wanted rank (Todo (Locked m l p) # k) = rank l"
| "wanted rank k = 0"

lemma blockedE:
  assumes "blocked again wr ts i k"
  obtains m l p k' where "k = Todo (Locked m l p) # k'" "\<not> may_lock again wr ts i m l"
  using assms by (cases "(again, wr, ts, i, k)" rule: blocked.cases) auto

text \<open>
  A blocked thread waits for a lock of a higher rank than all it holds, or for the recursive mutex
  it holds already. Of the blocked threads that want the highest rank, one waits for a thread that
  wants a still higher rank.
\<close>

lemma ordered_step_possible:
  assumes ex: "excluded ts" and ord: "list_all (thread_all (ordered rank again)) ts"
    and busy: "i < length ts" "ts ! i \<noteq> []"
  shows "\<exists>i. can_move again wr ts i"
proof (rule ccontr)
  assume none: "\<nexists>i. can_move again wr ts i"
  let ?W = "{i. i < length ts \<and> ts ! i \<noteq> []}"
  have W: "finite ?W" "?W \<noteq> {}" using busy by auto
  let ?r = "\<lambda>i. wanted rank (ts ! i)"
  have "Max (?r ` ?W) \<in> ?r ` ?W" using W by (intro Max_in) auto
  then obtain t where t: "t < length ts" "ts ! t \<noteq> []" and max: "?r t = Max (?r ` ?W)" by auto
  have highest: "?r j \<le> ?r t" if "j < length ts" "ts ! j \<noteq> []" for j
    unfolding max using W(1) that by (intro Max_ge) auto
  have waiting: "\<exists>m l p k. ts ! j = Todo (Locked m l p) # k \<and> \<not> may_lock again wr ts j m l \<and>
      ordered rank again (held k) (Locked m l p)"
    if j: "j < length ts" "ts ! j \<noteq> []" for j
  proof -
    have "blocked again wr ts j (ts ! j)" using none j by (auto simp: can_move_def)
    then obtain m l p k where k: "ts ! j = Todo (Locked m l p) # k" "\<not> may_lock again wr ts j m l"
      by (rule blockedE)
    have "thread_all (ordered rank again) (ts ! j)" using ord j(1) by (simp add: list_all_length)
    then have "ordered rank again (held k) (Locked m l p)" unfolding k(1) by (simp only: thread_all.simps)
    with k show ?thesis by blast
  qed
  have top: False
    if j: "j < length ts" "ts ! j = Todo (Locked m l p) # k" and rl: "rank l = wanted rank (ts ! t)"
      and h: "h < length ts" "h \<noteq> j" "Release m' l \<in> set (ts ! h)" for j m l p k h m'
  proof -
    have "ts ! h \<noteq> []" using h(3) by auto
    from waiting [OF h(1) this] obtain m2 l2 p2 k2 where h2: "ts ! h = Todo (Locked m2 l2 p2) # k2"
      "\<not> may_lock again wr ts h m2 l2" "ordered rank again (held k2) (Locked m2 l2 p2)" by blast
    have hl: "(m', l) \<in> set (held k2)" using h(3) h2(1) by (simp add: held_iff)
    show False
    proof (cases "again l2 \<and> (Exclusive, l2) \<in> set (held k2)")
      case True
      then have "m2 = Exclusive" using h2(3) by simp
      moreover have "Release Exclusive l2 \<in> set (ts ! h)" using True h2(1) by (simp add: held_iff)
      ultimately have "may_lock again wr ts h m2 l2"
        using True excludedD [OF ex h(1)] by (auto simp: may_lock_def)
      with h2(2) show False by simp
    next
      case False
      then have "rank l < rank l2" using h2(3) hl by auto
      moreover have "rank l2 \<le> wanted rank (ts ! t)" using highest [OF h(1)] h2(1) by simp
      ultimately show False using rl by simp
    qed
  qed
  have free: "again l \<or> Release Exclusive l \<notin> set (ts ! j) \<and> Release Shared l \<notin> set (ts ! j)"
    if "ts ! j = Todo (Locked m l p) # k" "ordered rank again (held k) (Locked m l p)" for j m l p k
    using that by (auto simp flip: held_iff)
  from waiting [OF t] obtain m l p k where k: "ts ! t = Todo (Locked m l p) # k"
    "\<not> may_lock again wr ts t m l" "ordered rank again (held k) (Locked m l p)" by blast
  have rl: "rank l = wanted rank (ts ! t)" using k(1) by simp
  from k(2) free [OF k(1,3)] top [OF t(1) k(1) rl]
  obtain j where j: "j < length ts" "j \<noteq> t" "waits_for Exclusive l (ts ! j)"
    by (auto simp: may_lock_def)
  then have "ts ! j \<noteq> []" by auto
  from waiting [OF j(1) this] obtain m2 l2 p2 k2 where j2: "ts ! j = Todo (Locked m2 l2 p2) # k2"
    "\<not> may_lock again wr ts j m2 l2" "ordered rank again (held k2) (Locked m2 l2 p2)" by blast
  with j(3) have eq: "m2 = Exclusive" "l2 = l" by auto
  from j2(2) free [OF j2(1,3)] top [OF j(1) j2(1)] rl eq show False
    by (auto simp: may_lock_def)
qed

text \<open>The work that is left, when every loop ends at once; each step can lessen it.\<close>

fun sync_work :: "('l, 'v) sync \<Rightarrow> nat" where
  "sync_work (Locked m l p) = sync_work p + 2"
| "sync_work (Then p q) = sync_work p + sync_work q + 1"
| "sync_work (Either p q) = sync_work p + sync_work q + 1"
| "sync_work _ = 1"

fun work_left :: "('l, 'v) work \<Rightarrow> nat" where
  "work_left (Todo p) = sync_work p"
| "work_left (Release m l) = 1"

definition threads_left :: "('l, 'v) threads \<Rightarrow> nat" where
  "threads_left ts = sum_list (map (\<lambda>k. sum_list (map work_left k)) ts)"

lemma sync_work_pos [simp]: "0 < sync_work p"
  by (cases p) auto

lemma lessening: "\<exists>k' \<in> set (unfold_work w). sum_list (map work_left k') < work_left w"
  by (induction w rule: unfold_work.induct) auto

lemma sum_list_update_less:
  fixes xs :: "nat list"
  assumes "i < length xs" and "x < xs ! i"
  shows "sum_list (xs[i := x]) < sum_list xs"
  using assms by (induction xs arbitrary: i) (auto split: nat.splits)

lemma can_move_lessens:
  assumes "can_move again wr ts i"
  shows "\<exists>ts'. work_step again wr ts ts' \<and> threads_left ts' < threads_left ts"
proof -
  from assms obtain w k where k: "ts ! i = w # k" and i: "i < length ts"
    by (cases "ts ! i") (auto simp: can_move_def)
  from lessening [of w] obtain k' where k': "k' \<in> set (unfold_work w)"
    "sum_list (map work_left k') < work_left w" by blast
  have "threads_left (ts[i := k' @ k]) < threads_left ts"
    unfolding threads_left_def map_update
    by (rule sum_list_update_less) (use i k k' in auto)
  with work_step.work [OF assms k k'(1)] show ?thesis by blast
qed

locale ordered_locks =
  fixes rank :: "'l \<Rightarrow> nat" and again :: "'l \<Rightarrow> bool" and progs :: "('l, 'v) sync set"
  assumes ordered_progs: "p \<in> progs \<Longrightarrow> ordered rank again [] p"
begin

lemma reachable_ordered:
  "reachable_threads again wr progs n ts \<Longrightarrow> list_all (thread_all (ordered rank again)) ts"
  by (rule reachable_all) (auto simp: ordered_progs elim: thread_all_ordered_step)

lemma never_deadlocks:
  assumes "reachable_threads again wr progs n ts" and "i < length ts" and "ts ! i \<noteq> []"
  shows "\<exists>i. can_move again wr ts i"
  by (rule ordered_step_possible [OF reachable_excluded [OF assms(1)] reachable_ordered [OF assms(1)] assms(2,3)])

lemma work_can_finish:
  assumes "reachable_threads again wr progs n ts"
  shows "(work_step again wr)\<^sup>*\<^sup>* ts (replicate (length ts) [])"
  using assms
proof (induction "threads_left ts" arbitrary: ts rule: less_induct)
  case less
  show ?case
  proof (cases "\<exists>i<length ts. ts ! i \<noteq> []")
    case True
    then obtain i where "can_move again wr ts i" using never_deadlocks [OF less.prems] by blast
    from can_move_lessens [OF this] obtain ts' where ts': "work_step again wr ts ts'"
      "threads_left ts' < threads_left ts" by blast
    have "length ts' = length ts" using ts'(1) by (auto elim: work_step.cases)
    with less.hyps [OF ts'(2) reachable_threads.go [OF less.prems ts'(1)]] ts'(1) show ?thesis
      by (simp add: converse_rtranclp_into_rtranclp)
  next
    case False
    then have eq: "replicate (length ts) [] = ts" by (intro nth_equalityI) auto
    show ?thesis unfolding eq by simp
  qed
qed

end

section \<open>No data races\<close>

locale guarded_data =
  fixes protects :: "'v \<Rightarrow> 'l option" and progs :: "('l, 'v) sync set"
  assumes guarded_progs: "p \<in> progs \<Longrightarrow> guarded protects [] p"
begin

lemma reachable_guarded:
  "reachable_threads again wr progs n ts \<Longrightarrow> list_all (thread_all (guarded protects)) ts"
  by (rule reachable_all) (auto simp: guarded_progs elim: thread_all_guarded_step)

lemma about_to_holds:
  assumes "thread_all (guarded protects) k" and "about_to a v k" and "protects v = Some l"
  shows "Release Exclusive l \<in> set k \<or> a = Reads \<and> Release Shared l \<in> set k"
  using assms by (cases "(a, v, k)" rule: about_to.cases) (auto simp: held_iff)

lemma never_races:
  assumes "reachable_threads again wr progs n ts" and "protects v \<noteq> None"
  shows "\<not> race v ts"
proof
  assume "race v ts"
  then obtain i j a where ij: "i < length ts" "j < length ts" "i \<noteq> j"
    "about_to Writes v (ts ! i)" "about_to a v (ts ! j)" by (auto simp: race_def)
  obtain l where l: "protects v = Some l" using assms(2) by auto
  have "thread_all (guarded protects) (ts ! i)" "thread_all (guarded protects) (ts ! j)"
    using reachable_guarded [OF assms(1)] ij by (auto simp: list_all_length)
  from about_to_holds [OF this(1) ij(4) l] about_to_holds [OF this(2) ij(5) l]
  have "Release Exclusive l \<in> set (ts ! i)" and "\<exists>m. Release m l \<in> set (ts ! j)"
    by (simp, blast)
  with excludedD [OF reachable_excluded [OF assms(1)] ij(1-3)] show False by blast
qed

end

end
