(* ===== verification/Handlers.thy ===== *)
theory Handlers
  imports Concurrency
begin

text \<open>
  The mutexes of the program and what its handlers do under them: \<open>server.cpp\<close>, \<open>mux.cpp\<close>,
  \<open>quic_ngtcp2.cpp\<close>, \<open>rate_limiter.h\<close>, \<open>buffer_pool.h\<close> and the logger of \<open>utils.h\<close>. Each
  definition lists the blocks under locks of one function, in their order, the members that several
  handlers share where it reads or writes them, and the functions it calls that take locks; its
  branches are alternatives, its loops repetitions. What is posted to another strand is a handler
  of its own. The threads of the \<open>io_context\<close> run any of these handlers at any time. Objects are
  numbered; the sizes of buffers are those of the profiles of the pool.

  A strand runs one handler at a time, so it is modelled as a lock around the handler; the
  receive handler of a UDP listener starts the next receive at its end and is serialised in the
  same way. Locks of asio, ngtcp2 and wolfSSL are taken and released inside these libraries.
\<close>

section \<open>Locks and shared members\<close>

datatype strand =
    Control_strand nat
  | Listener_strand nat
  | Udp_receive nat
  | Mux_strand nat
  | Quic_strand nat

datatype lock =
    Strand strand
  | Quic_mutex
  | Vhost_mutex
  | Rate_limit_mutex
  | Session_mutex
  | Pending_conn_mutex
  | Client_name_mutex
  | Connection_mutex nat
  | Ngtcp2_mutex nat
  | Mux_mutex nat
  | Limiter_mutex nat
  | Bucket_mutex nat
  | Log_mutex

text \<open>
  \<open>V_names\<close> are \<open>active_client_names_\<close>, \<open>sessions_\<close> and \<open>mux_to_control_\<close>; \<open>V_pending\<close> the pending
  connections and sessions and the expiration queue; \<open>V_mux_table\<close> are \<open>streams_\<close>,
  \<open>next_stream_id_\<close> and \<open>stopped_\<close>; \<open>V_mux_queue\<close> is the write queue; \<open>V_limiter\<close> the tokens and the
  waiting handlers and \<open>V_rate\<close> is \<open>bytes_per_sec_\<close>; \<open>V_quic\<close> are \<open>streams_\<close> and \<open>write_queue_\<close> of
  a QUIC session, \<open>V_quic_closed\<close> is \<open>closed_notified_\<close>, \<open>V_on_closed\<close> its callback; \<open>V_proxies\<close> are
  \<open>proxies_\<close> and \<open>udp_proxies_\<close>, \<open>V_login\<close> are \<open>authenticated_\<close> and \<open>client_name_\<close> of a control
  session; \<open>V_tickets\<close> is \<open>endpoint_to_ticket_\<close> of a UDP listener.
\<close>

datatype member =
    V_quic_sessions
  | V_vhost_routes
  | V_rate_limiters
  | V_pending
  | V_names
  | V_connection nat
  | V_mux_table nat
  | V_mux_queue nat
  | V_limiter nat
  | V_rate nat
  | V_bucket nat
  | V_log
  | V_quic nat
  | V_quic_closed nat
  | V_on_closed nat
  | V_proxies nat
  | V_login nat
  | V_tickets nat

type_synonym handler = "(lock, member) sync"

abbreviation guard :: "lock \<Rightarrow> handler list \<Rightarrow> handler" where
  "guard l ps \<equiv> Locked Exclusive l (block ps)"

abbreviation shared_guard :: "lock \<Rightarrow> handler list \<Rightarrow> handler" where
  "shared_guard l ps \<equiv> Locked Shared l (block ps)"

abbreviation loop :: "handler list \<Rightarrow> handler" where
  "loop ps \<equiv> Repeat (block ps)"

named_theorems handler_defs "definitions of the handlers"

section \<open>Logger, buffer pool, rate limiter\<close>

definition Logger_sync :: handler where
  [handler_defs]: "Logger_sync = maybe (guard Log_mutex [Touch Writes V_log])"

definition pool_sizes :: "nat list" where
  [handler_defs]: "pool_sizes = [512, 1024, 4096, 16384, 65536]"

definition Get_sync :: handler where
  [handler_defs]: "Get_sync =
     maybe (one_of (map (\<lambda>b. Then (guard (Bucket_mutex b) [Touch Writes (V_bucket b)])
                                  (maybe (guard (Bucket_mutex b) [Touch Writes (V_bucket b)]))) pool_sizes))"

definition Return_sync :: handler where
  [handler_defs]: "Return_sync =
     maybe (one_of (map (\<lambda>b. guard (Bucket_mutex b) [Touch Writes (V_bucket b)]) pool_sizes))"

text \<open>Dropping the last reference to an object gives its buffers back.\<close>

definition drop_object :: handler where
  [handler_defs]: "drop_object = Repeat Return_sync"

definition set_rate_sync :: "nat \<Rightarrow> handler" where
  [handler_defs]: "set_rate_sync l = guard (Limiter_mutex l) [Touch Writes (V_rate l), Touch Writes (V_limiter l)]"

definition async_wait_sync :: "nat \<Rightarrow> handler" where
  [handler_defs]: "async_wait_sync l =
     block [Touch Reads (V_rate l),
            maybe (guard (Limiter_mutex l) [Touch Reads (V_rate l), Touch Writes (V_limiter l)])]"

definition limiter_timer_sync :: "nat \<Rightarrow> handler" where
  [handler_defs]: "limiter_timer_sync l =
     maybe (guard (Limiter_mutex l) [Touch Reads (V_rate l), Touch Writes (V_limiter l)])"

section \<open>The tables of the server\<close>

definition RemoveEndpoint_sync :: "nat \<Rightarrow> handler" where
  [handler_defs]: "RemoveEndpoint_sync u = Touch Writes (V_tickets u)"

text \<open>\<open>us\<close>: the UDP listeners of the pending sessions.\<close>

definition DoLazyCleanup_sync :: "nat list \<Rightarrow> handler" where
  [handler_defs]: "DoLazyCleanup_sync us =
     loop [Touch Reads V_pending, maybe (one_of (map RemoveEndpoint_sync us)), Touch Writes V_pending]"

definition RegisterUserConn_sync :: "nat list \<Rightarrow> handler" where
  [handler_defs]: "RegisterUserConn_sync us =
     guard Pending_conn_mutex
       [DoLazyCleanup_sync us, Touch Reads V_pending, one_of [Logger_sync, Touch Writes V_pending]]"

definition RegisterUdpSession_sync :: "nat list \<Rightarrow> handler" where
  [handler_defs]: "RegisterUdpSession_sync us =
     guard Pending_conn_mutex
       [DoLazyCleanup_sync us, Touch Reads V_pending, one_of [Logger_sync, Touch Writes V_pending]]"

definition AllocateClientName_sync :: handler where
  [handler_defs]: "AllocateClientName_sync =
     guard Client_name_mutex [Repeat (Touch Reads V_names), Touch Writes V_names]"

definition ReleaseClientName_sync :: handler where
  [handler_defs]: "ReleaseClientName_sync = guard Client_name_mutex [Touch Writes V_names, drop_object]"

definition RegisterSession_sync :: handler where
  [handler_defs]: "RegisterSession_sync = guard Session_mutex []"

definition GetInfo_sync :: "nat \<Rightarrow> handler" where
  [handler_defs]: "GetInfo_sync c = block [Touch Reads (V_login c), Repeat (Touch Reads (V_proxies c))]"

definition GetClientsInfo_sync :: "nat list \<Rightarrow> handler" where
  [handler_defs]: "GetClientsInfo_sync cs =
     guard Client_name_mutex [Touch Reads V_names, Repeat (one_of (map GetInfo_sync cs))]"

definition GetTotalStats_sync :: "nat list \<Rightarrow> handler" where
  [handler_defs]: "GetTotalStats_sync cs =
     guard Client_name_mutex [Touch Reads V_names, Repeat (one_of (map GetInfo_sync cs))]"

definition RemoveRateLimiter_sync :: handler where
  [handler_defs]: "RemoveRateLimiter_sync = guard Rate_limit_mutex [Touch Writes V_rate_limiters, drop_object]"

definition GetRateLimiter_sync :: handler where
  [handler_defs]: "GetRateLimiter_sync = shared_guard Rate_limit_mutex [Touch Reads V_rate_limiters]"

definition CreateRateLimiter_sync :: "nat \<Rightarrow> handler" where
  [handler_defs]: "CreateRateLimiter_sync l =
     guard Rate_limit_mutex [Touch Reads V_rate_limiters, one_of [Touch Writes V_rate_limiters, set_rate_sync l]]"

definition ClearPendingForProxy_sync :: handler where
  [handler_defs]: "ClearPendingForProxy_sync =
     guard Pending_conn_mutex [loop [Touch Reads V_pending, maybe (Touch Writes V_pending)],
                               loop [Touch Reads V_pending, maybe (Touch Writes V_pending)]]"

definition AddVhostRoute_sync :: handler where
  [handler_defs]: "AddVhostRoute_sync = guard Vhost_mutex [Touch Writes V_vhost_routes, Logger_sync]"

definition RemoveVhostRoute_sync :: handler where
  [handler_defs]: "RemoveVhostRoute_sync = guard Vhost_mutex [Touch Writes V_vhost_routes]"

definition RemoveMuxControl_sync :: handler where
  [handler_defs]: "RemoveMuxControl_sync = guard Client_name_mutex [Touch Writes V_names, drop_object]"

text \<open>\<open>ConnectionState\<close> of an accepted connection: \<open>Close\<close>, and the places that set its stream.\<close>

definition connection_Close_sync :: "nat \<Rightarrow> handler" where
  [handler_defs]: "connection_Close_sync n =
     guard (Connection_mutex n) [Touch Reads (V_connection n), maybe (Touch Writes (V_connection n))]"

definition start_handshake_sync :: "nat \<Rightarrow> handler" where
  [handler_defs]: "start_handshake_sync n =
     maybe (guard (Connection_mutex n) [Touch Writes (V_connection n)])"

definition on_first_peek_sync :: "nat \<Rightarrow> handler" where
  [handler_defs]: "on_first_peek_sync n =
     one_of [connection_Close_sync n,
             block [guard (Connection_mutex n) [Touch Reads (V_connection n), maybe (Touch Writes (V_connection n))],
                    start_handshake_sync n]]"

definition server_accepted_sync :: "nat \<Rightarrow> handler" where
  [handler_defs]: "server_accepted_sync n =
     one_of [Logger_sync,
             maybe (block [guard (Connection_mutex n) [Touch Writes (V_connection n)], start_handshake_sync n])]"

section \<open>QUIC sessions\<close>

text \<open>\<open>QuicStream::do_read\<close> hands out blocks, which gives their buffers back.\<close>

definition quic_read_sync :: handler where
  [handler_defs]: "quic_read_sync = Repeat drop_object"

definition close_session_sync :: "nat \<Rightarrow> handler" where
  [handler_defs]: "close_session_sync q =
     guard (Ngtcp2_mutex q)
       [Touch Reads (V_quic_closed q),
        maybe (block [Touch Writes (V_quic_closed q), Touch Writes (V_quic q), Repeat quic_read_sync,
                      Touch Reads (V_on_closed q)])]"

definition check_closed_sync :: "nat \<Rightarrow> handler" where
  [handler_defs]: "check_closed_sync q =
     guard (Ngtcp2_mutex q)
       [Touch Reads (V_quic_closed q),
        maybe (block [Touch Writes (V_quic_closed q), Touch Writes (V_quic q), Repeat quic_read_sync,
                      Touch Reads (V_on_closed q)])]"

definition quic_do_write_sync :: "nat \<Rightarrow> handler" where
  [handler_defs]: "quic_do_write_sync q =
     guard (Ngtcp2_mutex q)
       [Touch Reads (V_quic_closed q),
        loop [Touch Reads (V_quic q), one_of [Touch Writes (V_quic q), block [Logger_sync, close_session_sync q]],
              drop_object],
        Touch Reads (V_quic q)]"

definition send_packets_sync :: "nat \<Rightarrow> handler" where
  [handler_defs]: "send_packets_sync q =
     guard (Ngtcp2_mutex q)
       [Touch Reads (V_quic_closed q),
        maybe (block [Repeat (maybe (block [Logger_sync, close_session_sync q])),
                      quic_do_write_sync q, Touch Reads (V_quic_closed q), check_closed_sync q])]"

definition on_stream_data_sync :: "nat \<Rightarrow> handler" where
  [handler_defs]: "on_stream_data_sync q =
     block [guard (Ngtcp2_mutex q) [Touch Reads (V_quic q)],
            maybe (block [guard (Ngtcp2_mutex q) [Touch Writes (V_quic q)], Logger_sync]),
            Get_sync, quic_read_sync]"

definition on_stream_close_sync :: "nat \<Rightarrow> handler" where
  [handler_defs]: "on_stream_close_sync q =
     block [guard (Ngtcp2_mutex q) [Touch Reads (V_quic q), maybe (Touch Writes (V_quic q))],
            maybe (block [quic_read_sync, drop_object])]"

definition quic_open_stream_sync :: "nat \<Rightarrow> handler" where
  [handler_defs]: "quic_open_stream_sync q =
     guard (Ngtcp2_mutex q)
       [Touch Reads (V_quic_closed q), maybe (block [Touch Writes (V_quic q), Logger_sync])]"

text \<open>
  The client's \<open>on_connected\<close> runs inside the callback of ngtcp2, under the mutex of the session:
  it opens the QUIC stream and, in \<open>OnConnect\<close>, the control stream of the new multiplexer \<open>m\<close>.
\<close>

definition mux_open_stream_sync :: "nat \<Rightarrow> handler" where
  [handler_defs]: "mux_open_stream_sync m =
     block [guard (Mux_mutex m) [Touch Writes (V_mux_table m)], guard (Mux_mutex m) [Touch Writes (V_mux_table m)]]"

definition client_connected_sync :: "nat \<Rightarrow> nat \<Rightarrow> handler" where
  [handler_defs]: "client_connected_sync q m =
     maybe (block [Logger_sync, quic_open_stream_sync q,
                   one_of [block [Logger_sync, Logger_sync, mux_open_stream_sync m, Logger_sync],
                           block [Logger_sync, close_session_sync q]]])"

definition handle_packet_sync :: "nat \<Rightarrow> nat \<Rightarrow> handler" where
  [handler_defs]: "handle_packet_sync q m =
     guard (Ngtcp2_mutex q)
       [Touch Reads (V_quic_closed q),
        maybe (block [
          Repeat (one_of [on_stream_data_sync q, on_stream_close_sync q,
                          block [Logger_sync, client_connected_sync q m]]),
          one_of [block [Logger_sync, close_session_sync q],
                  block [send_packets_sync q, check_closed_sync q]]])]"

definition close_stream_sync :: "nat \<Rightarrow> handler" where
  [handler_defs]: "close_stream_sync q =
     block [guard (Ngtcp2_mutex q) [Touch Reads (V_quic_closed q)], maybe (send_packets_sync q)]"

text \<open>\<open>write_stream\<close> looks at \<open>closed_notified_\<close> before it takes the mutex.\<close>

definition write_stream_sync :: "nat \<Rightarrow> handler" where
  [handler_defs]: "write_stream_sync q =
     block [Touch Reads (V_quic_closed q),
            maybe (block [guard (Ngtcp2_mutex q) [Touch Reads (V_quic q), maybe (Touch Writes (V_quic q))],
                          quic_do_write_sync q])]"

definition quic_timer_sync :: "nat \<Rightarrow> handler" where
  [handler_defs]: "quic_timer_sync q =
     maybe (guard (Ngtcp2_mutex q)
       [Touch Reads (V_quic_closed q), maybe (one_of [close_session_sync q, send_packets_sync q])])"

definition server_udp_read_sync :: handler where
  [handler_defs]: "server_udp_read_sync =
     block [one_of [block [shared_guard Quic_mutex [Touch Reads V_quic_sessions],
                           maybe (block [Logger_sync,
                             guard Quic_mutex [Touch Reads V_quic_sessions, maybe (Touch Writes V_quic_sessions)]])],
                    Logger_sync],
            Get_sync]"

definition server_on_closed_sync :: handler where
  [handler_defs]: "server_on_closed_sync = block [Logger_sync, guard Quic_mutex [Touch Writes V_quic_sessions]]"

definition Server_Stop_sync :: "nat list \<Rightarrow> handler" where
  [handler_defs]: "Server_Stop_sync qs =
     block [Logger_sync,
            shared_guard Quic_mutex [Repeat (Touch Reads V_quic_sessions)],
            Repeat (one_of (map (\<lambda>q. block [Touch Writes (V_on_closed q), close_session_sync q]) qs)),
            guard Quic_mutex [Touch Writes V_quic_sessions, drop_object]]"

end
