(* ===== verification/Locking.thy ===== *)
theory Locking
  imports Handlers
begin

text \<open>
  The handlers of the multiplexer, of the control sessions and of the listeners, the set of all
  handlers, and what follows for the whole program: the order in which locks are taken excludes
  deadlock, the members that a lock protects are free of data races, and some are not protected.
\<close>

section \<open>Multiplexer\<close>

text \<open>
  What the transport under a session does: a WebSocket or TCP stream takes no lock, a QUIC stream
  goes to its session \<open>q\<close>.
\<close>

definition transport_write_sync :: "nat \<Rightarrow> handler" where
  [handler_defs]: "transport_write_sync q = maybe (block [Get_sync, write_stream_sync q])"

definition transport_close_sync :: "nat \<Rightarrow> handler" where
  [handler_defs]: "transport_close_sync q = maybe (close_stream_sync q)"

definition mux_do_write_sync :: "nat \<Rightarrow> nat \<Rightarrow> handler" where
  [handler_defs]: "mux_do_write_sync m q =
     block [Touch Reads (V_mux_queue m), one_of [Touch Writes (V_mux_queue m), transport_write_sync q]]"

text \<open>Off the strand of the session, \<open>async_send_frame\<close> posts itself to it.\<close>

definition async_send_frame_sync :: "nat \<Rightarrow> nat \<Rightarrow> handler" where
  [handler_defs]: "async_send_frame_sync m q =
     block [Touch Writes (V_mux_queue m), maybe (mux_do_write_sync m q)]"

definition remove_stream_sync :: "nat \<Rightarrow> handler" where
  [handler_defs]: "remove_stream_sync m =
     guard (Mux_mutex m) [Touch Writes (V_mux_table m), maybe (block [drop_object, Logger_sync])]"

text \<open>A stream that is told something: it gives blocks back, sends window updates and may leave the session.\<close>

definition mux_stream_sync :: "nat \<Rightarrow> nat \<Rightarrow> handler" where
  [handler_defs]: "mux_stream_sync m q =
     block [loop [drop_object, maybe (async_send_frame_sync m q)], maybe (remove_stream_sync m)]"

definition mux_stop_sync :: "nat \<Rightarrow> nat \<Rightarrow> handler" where
  [handler_defs]: "mux_stop_sync m q =
     block [guard (Mux_mutex m) [Touch Reads (V_mux_table m), maybe (Touch Writes (V_mux_table m))],
            maybe (block [transport_close_sync q, Repeat (mux_stream_sync m q), drop_object])]"

definition heartbeat_sync :: "nat \<Rightarrow> nat \<Rightarrow> handler" where
  [handler_defs]: "heartbeat_sync m q =
     maybe (one_of [block [Logger_sync, mux_stop_sync m q], async_send_frame_sync m q])"

text \<open>\<open>HandleNewMuxStream\<close>: a control session is entered in the table, or a ticket is awaited.\<close>

definition HandleNewMuxStream_sync :: handler where
  [handler_defs]: "HandleNewMuxStream_sync =
     maybe (block [Logger_sync, guard Client_name_mutex [Touch Writes V_names, drop_object], Logger_sync])"

definition mux_handle_frame_sync :: "nat \<Rightarrow> nat \<Rightarrow> handler" where
  [handler_defs]: "mux_handle_frame_sync m q =
     block [guard (Mux_mutex m) [Touch Reads (V_mux_table m)],
            one_of [
              block [maybe (block [guard (Mux_mutex m) [Touch Writes (V_mux_table m)],
                                   HandleNewMuxStream_sync, async_send_frame_sync m q]),
                     maybe (mux_stream_sync m q), maybe (mux_stream_sync m q)],
              mux_stream_sync m q,
              async_send_frame_sync m q,
              mux_stop_sync m q,
              block [Logger_sync, mux_stop_sync m q]]]"

definition mux_read_header_sync :: "nat \<Rightarrow> nat \<Rightarrow> handler" where
  [handler_defs]: "mux_read_header_sync m q =
     block [guard (Mux_mutex m) [Touch Reads (V_mux_table m)],
            maybe (one_of [block [Logger_sync, mux_stop_sync m q], Get_sync,
                           mux_handle_frame_sync m q, mux_stop_sync m q])]"

definition mux_read_body_sync :: "nat \<Rightarrow> nat \<Rightarrow> handler" where
  [handler_defs]: "mux_read_body_sync m q =
     block [guard (Mux_mutex m) [Touch Reads (V_mux_table m)],
            maybe (one_of [mux_handle_frame_sync m q, mux_stop_sync m q]), drop_object]"

definition mux_written_sync :: "nat \<Rightarrow> nat \<Rightarrow> handler" where
  [handler_defs]: "mux_written_sync m q =
     block [Touch Writes (V_mux_queue m), one_of [mux_do_write_sync m q, mux_stop_sync m q], drop_object]"

section \<open>Control sessions\<close>

definition control_Stop_sync :: "nat \<Rightarrow> handler" where
  [handler_defs]: "control_Stop_sync c =
     block [Touch Reads (V_login c),
            one_of [block [Logger_sync, ReleaseClientName_sync], Logger_sync],
            maybe RemoveMuxControl_sync,
            loop [Touch Reads (V_proxies c), Logger_sync, ClearPendingForProxy_sync, RemoveRateLimiter_sync, Logger_sync],
            Touch Writes (V_proxies c),
            loop [Touch Reads (V_proxies c), Logger_sync, ClearPendingForProxy_sync, RemoveRateLimiter_sync, Logger_sync],
            Touch Writes (V_proxies c),
            Repeat RemoveVhostRoute_sync]"

definition HandleLogin_sync :: "nat \<Rightarrow> handler" where
  [handler_defs]: "HandleLogin_sync c =
     one_of [block [Logger_sync, control_Stop_sync c],
             block [AllocateClientName_sync, Touch Writes (V_login c), Logger_sync, Logger_sync, Touch Writes (V_login c)]]"

definition HandleRegisterProxy_sync :: "nat \<Rightarrow> nat \<Rightarrow> handler" where
  [handler_defs]: "HandleRegisterProxy_sync c l =
     block [maybe (CreateRateLimiter_sync l),
            one_of [Logger_sync,
                    block [Logger_sync, Get_sync, Touch Writes (V_proxies c)],
                    Repeat AddVhostRoute_sync,
                    block [Logger_sync, Touch Writes (V_proxies c)]]]"

definition HandleUnregisterProxy_sync :: "nat \<Rightarrow> handler" where
  [handler_defs]: "HandleUnregisterProxy_sync c =
     block [Logger_sync, Touch Reads (V_proxies c),
            maybe (block [Logger_sync, Touch Writes (V_proxies c), drop_object])]"

definition HandleMessage_sync :: "nat \<Rightarrow> nat \<Rightarrow> handler" where
  [handler_defs]: "HandleMessage_sync c l =
     one_of [HandleLogin_sync c,
             block [Touch Reads (V_login c),
                    one_of [block [Logger_sync, control_Stop_sync c],
                            HandleRegisterProxy_sync c l, HandleUnregisterProxy_sync c]]]"

definition control_read_sync :: "nat \<Rightarrow> nat \<Rightarrow> handler" where
  [handler_defs]: "control_read_sync c l =
     one_of [Done, HandleMessage_sync c l, block [Logger_sync, control_Stop_sync c],
             block [HandleMessage_sync c l, Logger_sync, control_Stop_sync c]]"

text \<open>The authentication timer is bound to no strand.\<close>

definition auth_timeout_sync :: "nat \<Rightarrow> handler" where
  [handler_defs]: "auth_timeout_sync c =
     block [Touch Reads (V_login c), maybe (block [GetInfo_sync c, Logger_sync])]"

text \<open>A work connection presents its ticket: \<open>FindProxy\<close> looks through the listeners of the session.\<close>

definition on_ticket_sync :: "nat \<Rightarrow> nat list \<Rightarrow> handler" where
  [handler_defs]: "on_ticket_sync c us =
     block [guard Pending_conn_mutex
              [Touch Reads V_pending,
               maybe (block [maybe (one_of (map RemoveEndpoint_sync us)), Touch Writes V_pending])],
            one_of [Logger_sync,
                    block [guard Client_name_mutex [Touch Reads V_names],
                           maybe (Repeat (Touch Reads (V_proxies c))),
                           shared_guard Rate_limit_mutex [Touch Reads V_rate_limiters],
                           Logger_sync, Get_sync, Get_sync]]]"

section \<open>Listeners\<close>

definition proxy_accept_sync :: "nat list \<Rightarrow> handler" where
  [handler_defs]: "proxy_accept_sync us = block [Logger_sync, maybe (RegisterUserConn_sync us)]"

definition udp_receive_sync :: "nat \<Rightarrow> nat list \<Rightarrow> handler" where
  [handler_defs]: "udp_receive_sync u us =
     block [Touch Reads (V_tickets u),
            maybe (block [Touch Writes (V_tickets u), Logger_sync, RegisterUdpSession_sync us]),
            Get_sync, Logger_sync]"

definition vhost_read_sync :: "nat list \<Rightarrow> handler" where
  [handler_defs]: "vhost_read_sync us =
     block [shared_guard Vhost_mutex [Touch Reads V_vhost_routes], maybe (RegisterUserConn_sync us)]"

section \<open>All handlers\<close>

inductive_set handlers :: "handler set" where
  "Logger_sync \<in> handlers"
| "drop_object \<in> handlers"
| "async_wait_sync l \<in> handlers"
| "limiter_timer_sync l \<in> handlers"
| "server_accepted_sync n \<in> handlers"
| "on_first_peek_sync n \<in> handlers"
| "block [Logger_sync, connection_Close_sync n] \<in> handlers"
| "GetClientsInfo_sync cs \<in> handlers"
| "GetTotalStats_sync cs \<in> handlers"
| "RegisterSession_sync \<in> handlers"
| "GetRateLimiter_sync \<in> handlers"
| "server_udp_read_sync \<in> handlers"
| "Server_Stop_sync qs \<in> handlers"
| "guard (Strand (Quic_strand q)) [handle_packet_sync q m] \<in> handlers"
| "guard (Strand (Quic_strand q)) [send_packets_sync q] \<in> handlers"
| "guard (Strand (Quic_strand q)) [quic_timer_sync q] \<in> handlers"
| "guard (Strand (Quic_strand q)) [quic_do_write_sync q] \<in> handlers"
| "guard (Strand (Quic_strand q)) [close_stream_sync q] \<in> handlers"
| "guard (Strand (Quic_strand q)) [write_stream_sync q] \<in> handlers"
| "guard (Strand (Quic_strand q)) [quic_read_sync] \<in> handlers"
| "guard (Strand (Quic_strand q)) [server_on_closed_sync] \<in> handlers"
| "guard (Strand (Mux_strand m)) [mux_read_header_sync m q] \<in> handlers"
| "guard (Strand (Mux_strand m)) [mux_read_body_sync m q] \<in> handlers"
| "guard (Strand (Mux_strand m)) [mux_written_sync m q] \<in> handlers"
| "guard (Strand (Mux_strand m)) [async_send_frame_sync m q] \<in> handlers"
| "guard (Strand (Mux_strand m)) [mux_stream_sync m q] \<in> handlers"
| "guard (Strand (Mux_strand m)) [mux_stop_sync m q] \<in> handlers"
| "guard (Strand (Mux_strand m)) [heartbeat_sync m q] \<in> handlers"
| "guard (Strand (Mux_strand m)) [on_ticket_sync c us] \<in> handlers"
| "mux_open_stream_sync m \<in> handlers"
| "guard (Strand (Control_strand c)) [control_read_sync c l] \<in> handlers"
| "guard (Strand (Control_strand c)) [control_Stop_sync c] \<in> handlers"
| "auth_timeout_sync c \<in> handlers"
| "guard (Strand (Listener_strand n)) [proxy_accept_sync us] \<in> handlers"
| "guard (Strand (Udp_receive u)) [udp_receive_sync u us] \<in> handlers"
| "vhost_read_sync us \<in> handlers"

text \<open>
  The order of the locks: the strand of the handler; a table of the server; the mutex of a QUIC
  session; that of a multiplexer; of a rate limiter; of a bucket of the pool; of the logger.
\<close>

fun lock_rank :: "lock \<Rightarrow> nat" where
  "lock_rank (Strand s) = 0"
| "lock_rank (Ngtcp2_mutex q) = 2"
| "lock_rank (Mux_mutex m) = 3"
| "lock_rank (Limiter_mutex l) = 4"
| "lock_rank (Bucket_mutex b) = 5"
| "lock_rank Log_mutex = 6"
| "lock_rank _ = 1"

text \<open>\<open>ngtcp2_mutex_\<close> is the only recursive mutex.\<close>

fun is_recursive :: "lock \<Rightarrow> bool" where
  "is_recursive (Ngtcp2_mutex q) = True"
| "is_recursive _ = False"

fun protected_by :: "member \<Rightarrow> lock option" where
  "protected_by V_quic_sessions = Some Quic_mutex"
| "protected_by V_vhost_routes = Some Vhost_mutex"
| "protected_by V_rate_limiters = Some Rate_limit_mutex"
| "protected_by V_pending = Some Pending_conn_mutex"
| "protected_by V_names = Some Client_name_mutex"
| "protected_by (V_connection n) = Some (Connection_mutex n)"
| "protected_by (V_mux_table m) = Some (Mux_mutex m)"
| "protected_by (V_mux_queue m) = Some (Strand (Mux_strand m))"
| "protected_by (V_limiter l) = Some (Limiter_mutex l)"
| "protected_by (V_bucket b) = Some (Bucket_mutex b)"
| "protected_by V_log = Some Log_mutex"
| "protected_by (V_quic q) = Some (Ngtcp2_mutex q)"
| "protected_by _ = None"

section \<open>Discipline\<close>

lemma handlers_ordered: "p \<in> handlers \<Longrightarrow> ordered lock_rank is_recursive [] p"
  by (induction rule: handlers.induct) (simp_all add: handler_defs)

lemma handlers_guarded: "p \<in> handlers \<Longrightarrow> guarded protected_by [] p"
  by (induction rule: handlers.induct) (simp_all add: handler_defs)

interpretation program_locks: ordered_locks lock_rank is_recursive handlers
  by unfold_locales (rule handlers_ordered)

interpretation program_data: guarded_data protected_by handlers
  by unfold_locales (rule handlers_guarded)

abbreviation program_threads :: "bool \<Rightarrow> nat \<Rightarrow> (lock, member) threads \<Rightarrow> bool" where
  "program_threads writers_first n \<equiv> reachable_threads is_recursive writers_first handlers n"

section \<open>No deadlock\<close>

lemma program_threads_length: "program_threads wr n ts \<Longrightarrow> length ts = n"
  by (induction rule: reachable_threads.induct) (auto elim: work_step.cases)

text \<open>
  C8: The program cannot deadlock on its mutexes: with any number of threads, in every reachable
  state in which a handler is unfinished, one can go on, and the handlers that have been taken can
  all be finished, whether or not waiting writers of a shared mutex hold readers back.
\<close>

theorem program_never_deadlocks:
  assumes "program_threads wr n ts"
  shows "((\<exists>i<n. ts ! i \<noteq> []) \<longrightarrow> (\<exists>i. can_move is_recursive wr ts i)) \<and>
    (work_step is_recursive wr)\<^sup>*\<^sup>* ts (replicate n [])"
  using program_locks.never_deadlocks [OF assms] program_locks.work_can_finish [OF assms]
    program_threads_length [OF assms] by auto

text \<open>
  The management server is in \<open>GetClientsInfo\<close> with the mutex of the names, and a login waits for
  this mutex.
\<close>

definition waiting_login :: "(lock, member) threads" where
  "waiting_login =
     [[Todo (block [Touch Reads V_names, Repeat (one_of (map GetInfo_sync [0]))]), Release Exclusive Client_name_mutex],
      [Todo (Then AllocateClientName_sync
               (block [Touch Writes (V_login 0), Logger_sync, Logger_sync, Touch Writes (V_login 0)])),
       Release Exclusive (Strand (Control_strand 0))]]"

lemma waiting_login_reachable: "program_threads wr 2 waiting_login"
proof -
  have "follow is_recursive wr [(0, 0), (1, 0), (1, 1), (1, 0), (1, 0), (1, 1)]
      [[Todo (GetClientsInfo_sync [0])], [Todo (guard (Strand (Control_strand 0)) [control_read_sync 0 0])]] =
    Some waiting_login"
    by (simp add: schedule_simps GetClientsInfo_sync_def waiting_login_def control_read_sync_def HandleMessage_sync_def
        HandleLogin_sync_def AllocateClientName_sync_def)
  then show ?thesis by (rule follow_reachable [OF _ two_threads]) (rule handlers.intros)+
qed

theorem program_never_deadlocks_witness:
  "(\<exists>i. can_move is_recursive True waiting_login i) \<and>
   (work_step is_recursive True)\<^sup>*\<^sup>* waiting_login (replicate 2 [])"
proof -
  have "\<exists>i<2. waiting_login ! i \<noteq> []" by (rule exI [of _ 0]) (simp add: waiting_login_def)
  with program_never_deadlocks [OF waiting_login_reachable, of True] show ?thesis by blast
qed

section \<open>Data races\<close>



lemma race_by_schedule:
  assumes "p \<in> handlers" and "q \<in> handlers"
    and "\<forall>wr. case follow is_recursive wr sched [[Todo p], [Todo q]] of None \<Rightarrow> False | Some ts \<Rightarrow> race v ts"
  shows "\<forall>wr. \<exists>ts. program_threads wr 2 ts \<and> race v ts"
proof
  fix wr
  from assms(3) obtain ts where ts: "follow is_recursive wr sched [[Todo p], [Todo q]] = Some ts" "race v ts"
    by (auto split: option.splits dest: spec [of _ wr])
  from follow_reachable [OF ts(1) two_threads [OF assms(1,2)]] ts(2)
  show "\<exists>ts. program_threads wr 2 ts \<and> race v ts" by blast
qed

text \<open>
  Not so the rest. The list of listeners of a control session is read by the management server,
  by work connections and by the authentication timer without the strand on which the session
  changes it.
\<close>

theorem proxies_race: "\<forall>wr. \<exists>ts. program_threads wr 2 ts \<and> race (V_proxies 0) ts"
proof (rule race_by_schedule)
  let ?p = "guard (Strand (Control_strand 0)) [control_read_sync 0 0]"
  let ?q = "GetClientsInfo_sync [0]"
  let ?s = "map (Pair 0) [0, 1, 0, 1, 0, 0, 1, 0, 0, 1, 0, 1, 1, 1, 0, 1, 0] @
    map (Pair 1) [0, 0, 0, 1, 0, 0, 1]"
  show "?p \<in> handlers" "?q \<in> handlers" by (rule handlers.intros)+
  have "case follow is_recursive wr ?s [[Todo ?p], [Todo ?q]] of None \<Rightarrow> False | Some ts \<Rightarrow> race (V_proxies 0) ts" for wr
    by (simp add: schedule_simps control_read_sync_def HandleMessage_sync_def HandleRegisterProxy_sync_def Logger_sync_def maybe_def
        GetClientsInfo_sync_def GetInfo_sync_def)
  then show "\<forall>wr. case follow is_recursive wr ?s [[Todo ?p], [Todo ?q]] of None \<Rightarrow> False | Some ts \<Rightarrow> race (V_proxies 0) ts"
    by blast
qed

text \<open>
  The endpoints of a UDP listener are changed by its receive handler and, under the mutex of the
  pending connections, by work connections and by the clean-up: two different protections.
\<close>

theorem tickets_race: "\<forall>wr. \<exists>ts. program_threads wr 2 ts \<and> race (V_tickets 0) ts"
proof (rule race_by_schedule)
  let ?p = "guard (Strand (Udp_receive 0)) [udp_receive_sync 0 []]"
  let ?q = "guard (Strand (Mux_strand 0)) [on_ticket_sync 0 [0]]"
  let ?s = "map (Pair 0) [0, 0, 0, 0, 0, 0] @ map (Pair 1) [0, 0, 0, 0, 0, 0, 0, 0]"
  show "?p \<in> handlers" "?q \<in> handlers" by (rule handlers.intros)+
  have "case follow is_recursive wr ?s [[Todo ?p], [Todo ?q]] of None \<Rightarrow> False | Some ts \<Rightarrow> race (V_tickets 0) ts" for wr
    by (simp add: schedule_simps udp_receive_sync_def on_ticket_sync_def maybe_def RemoveEndpoint_sync_def)
  then show "\<forall>wr. case follow is_recursive wr ?s [[Todo ?p], [Todo ?q]] of None \<Rightarrow> False | Some ts \<Rightarrow> race (V_tickets 0) ts"
    by blast
qed

text \<open>\<open>async_wait\<close> looks at the rate before it takes the mutex under which \<open>set_rate\<close> changes it.\<close>

theorem rate_race: "\<forall>wr. \<exists>ts. program_threads wr 2 ts \<and> race (V_rate 0) ts"
proof (rule race_by_schedule)
  let ?p = "guard (Strand (Control_strand 0)) [control_read_sync 0 0]"
  let ?q = "async_wait_sync 0"
  let ?s = "map (Pair 0) [0, 1, 0, 1, 0, 0, 1, 0, 0, 0, 0, 0, 0, 1, 0, 0] @ map (Pair 1) [0]"
  show "?p \<in> handlers" "?q \<in> handlers" by (rule handlers.intros)+
  have "case follow is_recursive wr ?s [[Todo ?p], [Todo ?q]] of None \<Rightarrow> False | Some ts \<Rightarrow> race (V_rate 0) ts" for wr
    by (simp add: schedule_simps control_read_sync_def HandleMessage_sync_def HandleRegisterProxy_sync_def maybe_def
        CreateRateLimiter_sync_def set_rate_sync_def async_wait_sync_def)
  then show "\<forall>wr. case follow is_recursive wr ?s [[Todo ?p], [Todo ?q]] of None \<Rightarrow> False | Some ts \<Rightarrow> race (V_rate 0) ts"
    by blast
qed

text \<open>
  When the server stops, \<open>close_session\<close> runs outside the strand of the session, and
  \<open>write_stream\<close> looks at \<open>closed_notified_\<close> outside the mutex.
\<close>

theorem quic_closed_race: "\<forall>wr. \<exists>ts. program_threads wr 2 ts \<and> race (V_quic_closed 0) ts"
proof (rule race_by_schedule)
  let ?p = "Server_Stop_sync [0]"
  let ?q = "guard (Strand (Quic_strand 0)) [write_stream_sync 0]"
  let ?s = "map (Pair 0) [0, 1, 0, 0, 0, 0, 0, 0, 1, 0, 0, 0, 0, 0, 0, 0] @ map (Pair 1) [0, 0]"
  show "?p \<in> handlers" "?q \<in> handlers" by (rule handlers.intros)+
  have "case follow is_recursive wr ?s [[Todo ?p], [Todo ?q]] of None \<Rightarrow> False | Some ts \<Rightarrow> race (V_quic_closed 0) ts" for wr
    by (simp add: schedule_simps Server_Stop_sync_def Logger_sync_def maybe_def close_session_sync_def write_stream_sync_def)
  then show "\<forall>wr. case follow is_recursive wr ?s [[Todo ?p], [Todo ?q]] of None \<Rightarrow> False | Some ts \<Rightarrow> race (V_quic_closed 0) ts"
    by blast
qed

end
