(* ===== verification/Ownership.thy ===== *)
theory Ownership
  imports Accept_Loops
begin

text \<open>
  Who keeps a listener alive, and who uses it. A \<open>ProxyListener\<close> or a \<open>UdpProxyListener\<close>
  (\<open>src/server/server.cpp\<close>) is owned by shared pointers: the list of its control session, the
  handler of its pending operation or of its retry timer (\<open>self\<close>), and the places named below. A
  bridge keeps plain pointers to the counters of the listener (\<open>SetStatsCounters\<close>), a UDP bridge
  also a plain reference to its socket; only the stop callback of a bridge holds a weak pointer.
\<close>

section \<open>Use of a shared object\<close>

datatype object_use = Not_used | Used | Dangling

text \<open>
  An object with an owner that gives it up in certain events only: it is used safely until then,
  and once it is destroyed it stays so.
\<close>

fun uses :: "('e \<Rightarrow> 's \<Rightarrow> 's \<times> object_use) \<Rightarrow> 'e list \<Rightarrow> 's \<Rightarrow> object_use list" where
  "uses step [] s = []"
| "uses step (e # es) s = snd (step e s) # uses step es (fst (step e s))"

fun after_events :: "('e \<Rightarrow> 's \<Rightarrow> 's \<times> object_use) \<Rightarrow> 'e list \<Rightarrow> 's \<Rightarrow> 's" where
  "after_events step [] s = s"
| "after_events step (e # es) s = after_events step es (fst (step e s))"

locale shared_object =
  fixes alive :: "'s \<Rightarrow> bool"
    and owned :: "'s \<Rightarrow> bool"
    and releases :: "'e \<Rightarrow> bool"
    and step :: "'e \<Rightarrow> 's \<Rightarrow> 's \<times> object_use"
  assumes owned_alive: "owned s \<Longrightarrow> alive s"
    and owned_step: "\<lbrakk>owned s; \<not> releases e\<rbrakk> \<Longrightarrow> owned (fst (step e s))"
    and alive_use: "alive s \<Longrightarrow> snd (step e s) \<noteq> Dangling"
    and dead_step: "\<not> alive s \<Longrightarrow> \<not> alive (fst (step e s))"
begin

lemma no_dangling_while_owned:
  "\<lbrakk>owned s; list_all (\<lambda>e. \<not> releases e) es\<rbrakk> \<Longrightarrow> Dangling \<notin> set (uses step es s)"
proof (induction es arbitrary: s)
  case (Cons e es)
  then have "owned (fst (step e s))" by (simp add: owned_step)
  with Cons alive_use [OF owned_alive [OF Cons.prems(1)], of e] show ?case by auto
qed simp

lemma dangling_after_release:
  "\<lbrakk>owned s; Dangling \<in> set (uses step es s)\<rbrakk> \<Longrightarrow> \<exists>e \<in> set es. releases e"
  using no_dangling_while_owned [of s es] by (auto simp: list_all_iff)

lemma dead_stays: "\<not> alive s \<Longrightarrow> \<not> alive (after_events step es s)"
  by (induction es arbitrary: s) (auto simp: dead_step)

lemma no_dangling_while_alive:
  "alive (after_events step es s) \<Longrightarrow> Dangling \<notin> set (uses step es s)"
proof (induction es arbitrary: s)
  case (Cons e es)
  then have "alive s" using dead_stays [of s "e # es"] by auto
  with Cons alive_use [of s e] show ?case by auto
qed simp

end

section \<open>TCP listeners\<close>

text \<open>
  \<open>tl_listed\<close>: in \<open>proxies_\<close> of the session; \<open>tl_handler\<close>: the accept operation or its timer
  holds \<open>self\<close>; \<open>tl_writes\<close>: bridges whose initial data are being written, the handler of that write
  holds the listener; \<open>tl_counted\<close>: bridges with pointers to the counters; \<open>tl_stopped\<close>: bridges
  that have called their stop callback.
\<close>

record tcp_listener =
  tl_listed :: bool
  tl_handler :: bool
  tl_open :: bool
  tl_writes :: "nat list"
  tl_counted :: "nat list"
  tl_stopped :: "nat list"

datatype tcp_listener_event =
    Accept_completed error_code
  | Accept_retried
  | Ticket_presented nat bool
  | Initial_data_written nat error_code
  | Block_transferred nat
  | Bridge_stops nat
  | Proxy_unregistered
  | Session_stopped

definition tcp_alive :: "tcp_listener \<Rightarrow> bool" where
  "tcp_alive s \<longleftrightarrow> tl_listed s \<or> tl_handler s \<or> tl_writes s \<noteq> []"

text \<open>\<open>RegisterProxy\<close>: the listener is started and put into the list.\<close>

definition registered_listener :: tcp_listener where
  "registered_listener =
     \<lparr>tl_listed = True, tl_handler = True, tl_open = True, tl_writes = [], tl_counted = [], tl_stopped = []\<rparr>"

text \<open>The completion of an accept: \<open>self\<close> goes on with the next operation or with the timer, or is dropped.\<close>

definition listener_accepted :: "error_code \<Rightarrow> tcp_listener \<Rightarrow> tcp_listener \<times> object_use" where
  "listener_accepted ec s =
     (if tl_handler s then (s\<lparr>tl_handler := proxy_again ec (tl_open s) \<noteq> Accept_never\<rparr>, Used)
      else (s, Not_used))"

definition listener_retried :: "tcp_listener \<Rightarrow> tcp_listener \<times> object_use" where
  "listener_retried s = (s, if tl_handler s then Used else Not_used)"

text \<open>
  A work connection is spliced: \<open>FindProxy\<close> finds the listener if it is in the list; then the
  bridge \<open>b\<close> gets the pointers, and the handler of the initial write a shared pointer.
\<close>

definition splice_counters :: "nat \<Rightarrow> bool \<Rightarrow> tcp_listener \<Rightarrow> tcp_listener \<times> object_use" where
  "splice_counters b has_initial_data s =
     (if tl_listed s
      then (s\<lparr>tl_counted := b # tl_counted s,
              tl_writes := (if has_initial_data then b # tl_writes s else tl_writes s)\<rparr>, Used)
      else (s, Not_used))"

definition initial_data_written :: "nat \<Rightarrow> error_code \<Rightarrow> tcp_listener \<Rightarrow> tcp_listener \<times> object_use" where
  "initial_data_written b ec s =
     (if b \<in> set (tl_writes s)
      then if ec = Success then (s\<lparr>tl_writes := removeAll b (tl_writes s)\<rparr>, Not_used)
           else (s\<lparr>tl_writes := removeAll b (tl_writes s), tl_counted := removeAll b (tl_counted s)\<rparr>, Used)
      else (s, Not_used))"

text \<open>
  \<open>Bridge::DoRead\<close> adds the length of a block to a counter, through the plain pointer. A bridge whose
  initial data are still being written has not been started, and one whose write failed never is.
\<close>

definition count_block :: "nat \<Rightarrow> tcp_listener \<Rightarrow> tcp_listener \<times> object_use" where
  "count_block b s =
     (s, if b \<in> set (tl_counted s) \<and> b \<notin> set (tl_writes s) then (if tcp_alive s then Used else Dangling) else Not_used)"

text \<open>\<open>HandleStop\<close> calls the callback once; it locks the weak pointer.\<close>

definition bridge_stops :: "nat \<Rightarrow> tcp_listener \<Rightarrow> tcp_listener \<times> object_use" where
  "bridge_stops b s =
     (if b \<in> set (tl_counted s) \<and> b \<notin> set (tl_stopped s)
      then (s\<lparr>tl_stopped := b # tl_stopped s\<rparr>, if tcp_alive s then Used else Not_used)
      else (s, Not_used))"

text \<open>\<open>UnregisterProxy\<close> and the stop of the session close the acceptor and drop the list's pointer.\<close>

definition delist_listener :: "tcp_listener \<Rightarrow> tcp_listener \<times> object_use" where
  "delist_listener s =
     (if tl_listed s then (s\<lparr>tl_listed := False, tl_open := False\<rparr>, Used) else (s, Not_used))"

fun tcp_listener_step :: "tcp_listener_event \<Rightarrow> tcp_listener \<Rightarrow> tcp_listener \<times> object_use" where
  "tcp_listener_step (Accept_completed ec) s = listener_accepted ec s"
| "tcp_listener_step Accept_retried s = listener_retried s"
| "tcp_listener_step (Ticket_presented b i) s = splice_counters b i s"
| "tcp_listener_step (Initial_data_written b ec) s = initial_data_written b ec s"
| "tcp_listener_step (Block_transferred b) s = count_block b s"
| "tcp_listener_step (Bridge_stops b) s = bridge_stops b s"
| "tcp_listener_step Proxy_unregistered s = delist_listener s"
| "tcp_listener_step Session_stopped s = delist_listener s"

fun delists :: "tcp_listener_event \<Rightarrow> bool" where
  "delists Proxy_unregistered = True"
| "delists Session_stopped = True"
| "delists _ = False"

lemmas tcp_listener_defs =
  listener_accepted_def listener_retried_def splice_counters_def initial_data_written_def count_block_def
  bridge_stops_def delist_listener_def tcp_alive_def

interpretation tcp_owned: shared_object tcp_alive tl_listed delists tcp_listener_step
proof
  fix s :: tcp_listener and e
  show "tl_listed s \<Longrightarrow> tcp_alive s" by (simp add: tcp_alive_def)
  show "\<lbrakk>tl_listed s; \<not> delists e\<rbrakk> \<Longrightarrow> tl_listed (fst (tcp_listener_step e s))"
    by (cases e) (simp_all add: tcp_listener_defs)
  show "tcp_alive s \<Longrightarrow> snd (tcp_listener_step e s) \<noteq> Dangling"
    by (cases e) (simp_all add: tcp_listener_defs)
  show "\<not> tcp_alive s \<Longrightarrow> \<not> tcp_alive (fst (tcp_listener_step e s))"
    by (cases e) (simp_all add: tcp_listener_defs)
qed

section \<open>UDP listeners\<close>

text \<open>
  \<open>ul_pending\<close>: tickets of the pending sessions, each of which holds the listener; \<open>ul_bridges\<close>: the
  bridges with a reference to its socket (\<open>udp::socket& socket_\<close>).
\<close>

record udp_listener =
  ul_listed :: bool
  ul_handler :: bool
  ul_open :: bool
  ul_pending :: "nat list"
  ul_bridges :: "nat list"

datatype udp_listener_event =
    Receive_completed error_code
  | Receive_retried
  | Session_pending nat
  | Udp_ticket_presented nat nat
  | Udp_ticket_dropped nat
  | Datagram_sent nat
  | Udp_proxy_unregistered
  | Udp_session_stopped

definition udp_alive :: "udp_listener \<Rightarrow> bool" where
  "udp_alive s \<longleftrightarrow> ul_listed s \<or> ul_handler s \<or> ul_pending s \<noteq> []"

definition registered_udp_listener :: udp_listener where
  "registered_udp_listener =
     \<lparr>ul_listed = True, ul_handler = True, ul_open = True, ul_pending = [], ul_bridges = []\<rparr>"

definition udp_received :: "error_code \<Rightarrow> udp_listener \<Rightarrow> udp_listener \<times> object_use" where
  "udp_received ec s =
     (if ul_handler s then (s\<lparr>ul_handler := udp_listener_again ec (ul_open s) \<noteq> Accept_never\<rparr>, Used)
      else (s, Not_used))"

text \<open>The handler of the retry timer looks whether the socket is still open.\<close>

definition udp_retried :: "udp_listener \<Rightarrow> udp_listener \<times> object_use" where
  "udp_retried s =
     (if ul_handler s then (s\<lparr>ul_handler := ul_open s\<rparr>, Used) else (s, Not_used))"

definition udp_session_pending :: "nat \<Rightarrow> udp_listener \<Rightarrow> udp_listener \<times> object_use" where
  "udp_session_pending t s =
     (if ul_handler s then (s\<lparr>ul_pending := t # ul_pending s\<rparr>, Used) else (s, Not_used))"

text \<open>A work connection takes the pending session over: the shared pointer goes, the reference stays.\<close>

definition splice_udp :: "nat \<Rightarrow> nat \<Rightarrow> udp_listener \<Rightarrow> udp_listener \<times> object_use" where
  "splice_udp t b s =
     (if t \<in> set (ul_pending s)
      then (s\<lparr>ul_pending := removeAll t (ul_pending s), ul_bridges := b # ul_bridges s\<rparr>, Used)
      else (s, Not_used))"

text \<open>A pending session expires, or is removed with its proxy.\<close>

definition drop_udp_ticket :: "nat \<Rightarrow> udp_listener \<Rightarrow> udp_listener \<times> object_use" where
  "drop_udp_ticket t s =
     (if t \<in> set (ul_pending s) then (s\<lparr>ul_pending := removeAll t (ul_pending s)\<rparr>, Used) else (s, Not_used))"

definition send_datagram :: "nat \<Rightarrow> udp_listener \<Rightarrow> udp_listener \<times> object_use" where
  "send_datagram b s =
     (s, if b \<in> set (ul_bridges s) then (if udp_alive s then Used else Dangling) else Not_used)"

definition delist_udp_listener :: "udp_listener \<Rightarrow> udp_listener \<times> object_use" where
  "delist_udp_listener s =
     (if ul_listed s then (s\<lparr>ul_listed := False, ul_open := False\<rparr>, Used) else (s, Not_used))"

fun udp_listener_step :: "udp_listener_event \<Rightarrow> udp_listener \<Rightarrow> udp_listener \<times> object_use" where
  "udp_listener_step (Receive_completed ec) s = udp_received ec s"
| "udp_listener_step Receive_retried s = udp_retried s"
| "udp_listener_step (Session_pending t) s = udp_session_pending t s"
| "udp_listener_step (Udp_ticket_presented t b) s = splice_udp t b s"
| "udp_listener_step (Udp_ticket_dropped t) s = drop_udp_ticket t s"
| "udp_listener_step (Datagram_sent b) s = send_datagram b s"
| "udp_listener_step Udp_proxy_unregistered s = delist_udp_listener s"
| "udp_listener_step Udp_session_stopped s = delist_udp_listener s"

fun delists_udp :: "udp_listener_event \<Rightarrow> bool" where
  "delists_udp Udp_proxy_unregistered = True"
| "delists_udp Udp_session_stopped = True"
| "delists_udp _ = False"

lemmas udp_listener_defs =
  udp_received_def udp_retried_def udp_session_pending_def splice_udp_def drop_udp_ticket_def
  send_datagram_def delist_udp_listener_def udp_alive_def

interpretation udp_owned: shared_object udp_alive ul_listed delists_udp udp_listener_step
proof
  fix s :: udp_listener and e
  show "ul_listed s \<Longrightarrow> udp_alive s" by (simp add: udp_alive_def)
  show "\<lbrakk>ul_listed s; \<not> delists_udp e\<rbrakk> \<Longrightarrow> ul_listed (fst (udp_listener_step e s))"
    by (cases e) (simp_all add: udp_listener_defs)
  show "udp_alive s \<Longrightarrow> snd (udp_listener_step e s) \<noteq> Dangling"
    by (cases e) (simp_all add: udp_listener_defs)
  show "\<not> udp_alive s \<Longrightarrow> \<not> udp_alive (fst (udp_listener_step e s))"
    by (cases e) (auto simp: udp_listener_defs)
qed

section \<open>What bridges use\<close>

text \<open>
  C25: A bridge reaches a destroyed listener only after its proxy has been unregistered or its session
  has stopped, and never while anything owns the listener; its stop callback never does.
\<close>

theorem listener_outlives_use:
  assumes "Dangling \<in> set (uses tcp_listener_step es registered_listener)"
  shows "(\<exists>e \<in> set es. delists e) \<and>
    \<not> tcp_alive (after_events tcp_listener_step es registered_listener) \<and>
    (\<forall>b t. snd (tcp_listener_step (Bridge_stops b) t) \<noteq> Dangling)"
proof -
  have "tl_listed registered_listener" by (simp add: registered_listener_def)
  from tcp_owned.dangling_after_release [OF this assms]
    tcp_owned.no_dangling_while_alive [of es registered_listener] assms
  show ?thesis by (auto simp: bridge_stops_def)
qed

text \<open>But then it does, when the bridge has not ended yet: closing the acceptor stops no bridge.\<close>

definition unregistered_in_use :: "tcp_listener_event list" where
  "unregistered_in_use =
     [Accept_completed Success, Ticket_presented 1 False, Block_transferred 1, Proxy_unregistered,
      Accept_completed Operation_aborted, Block_transferred 1]"

lemma proxy_again_cases:
  "proxy_again Success p = Accept_now" "proxy_again Operation_aborted p = Accept_never"
  by (simp_all add: proxy_again_def proxy_accept_def)

theorem unregistered_listener_dangles:
  "uses tcp_listener_step unregistered_in_use registered_listener = [Used, Used, Used, Used, Used, Dangling]"
  by (simp add: unregistered_in_use_def registered_listener_def tcp_listener_defs proxy_again_cases)

theorem listener_outlives_use_witness:
  "\<not> tcp_alive (after_events tcp_listener_step unregistered_in_use registered_listener)"
  using listener_outlives_use [of unregistered_in_use]
  by (simp add: unregistered_listener_dangles)

theorem udp_listener_outlives_use:
  assumes "Dangling \<in> set (uses udp_listener_step es registered_udp_listener)"
  shows "(\<exists>e \<in> set es. delists_udp e) \<and> \<not> udp_alive (after_events udp_listener_step es registered_udp_listener)"
proof -
  have "ul_listed registered_udp_listener" by (simp add: registered_udp_listener_def)
  from udp_owned.dangling_after_release [OF this assms]
    udp_owned.no_dangling_while_alive [of es registered_udp_listener] assms
  show ?thesis by blast
qed

theorem unregistered_udp_listener_dangles:
  "uses udp_listener_step
     [Session_pending 7, Receive_completed Success, Udp_ticket_presented 7 1, Datagram_sent 1,
      Udp_session_stopped, Receive_completed Operation_aborted, Datagram_sent 1] registered_udp_listener =
   [Used, Used, Used, Used, Used, Used, Dangling]"
  by (simp add: registered_udp_listener_def udp_listener_defs udp_listener_again_def)

end
