(* ===== verification/Counters.thy ===== *)
theory Counters
  imports Work_Conn
begin

text \<open>
  The number of active connections of a \<open>ProxyListener\<close> under several threads. The counter is an
  atomic, but \<open>dec_active_conns\<close> (\<open>src/server/server.h\<close>) reads it, compares, and decrements it in
  another atomic operation; between the two other bridges and the accept handler may run.
\<close>

section \<open>Threads on the counter\<close>

text \<open>
  Where a call of \<open>dec_active_conns\<close> stands. A call is \<open>owed\<close> when its connection was counted by the
  accept handler, and \<open>stray\<close> when it was not: a connection of a virtual host is not counted, but
  its bridge decrements the counter of a TCP listener with the same proxy name.
\<close>

datatype dec_point = Not_called | Compared | Returned

record dec_call =
  call_owed :: bool
  call_at :: dec_point

record counting =
  counter :: listener_stats
  calls :: "dec_call list"

definition move_call :: "nat \<Rightarrow> dec_point \<Rightarrow> counting \<Rightarrow> counting" where
  "move_call i p s = s\<lparr>calls := (calls s)[i := (calls s ! i)\<lparr>call_at := p\<rparr>]\<rparr>"

inductive count_step :: "counting \<Rightarrow> counting \<Rightarrow> bool" where
  accepted: "count_step s
    (s\<lparr>counter := (counter s)\<lparr>total_conns := total_conns (counter s) + 1, active_conns := active_conns (counter s) + 1\<rparr>,
       calls := calls s @ [\<lparr>call_owed = True, call_at = Not_called\<rparr>]\<rparr>)"
| spliced_vhost: "count_step s (s\<lparr>calls := calls s @ [\<lparr>call_owed = False, call_at = Not_called\<rparr>]\<rparr>)"
| compare: "\<lbrakk>i < length (calls s); call_at (calls s ! i) = Not_called\<rbrakk>
    \<Longrightarrow> count_step s (move_call i (if 0 < active_conns (counter s) then Compared else Returned) s)"
| decrement: "\<lbrakk>i < length (calls s); call_at (calls s ! i) = Compared\<rbrakk>
    \<Longrightarrow> count_step s ((move_call i Returned s)
          \<lparr>counter := (counter s)\<lparr>active_conns := active_conns (counter s) - 1\<rparr>\<rparr>)"

inductive counting_reachable :: "counting \<Rightarrow> bool" where
  start: "counting_reachable \<lparr>counter = listener_stats.make 0 0, calls = []\<rparr>"
| go: "\<lbrakk>counting_reachable s; count_step s t\<rbrakk> \<Longrightarrow> counting_reachable t"

definition open_calls :: "counting \<Rightarrow> nat" where
  "open_calls s = length (filter (\<lambda>c. call_at c \<noteq> Returned) (calls s))"

text \<open>Without another thread in between, the two operations are \<open>dec_active_conns\<close>.\<close>

lemma compare_then_decrement:
  assumes "i < length (calls s)" and "call_at (calls s ! i) = Not_called"
  shows "\<exists>t. count_step\<^sup>*\<^sup>* s t \<and> counter t = dec_active_conns (counter s) \<and> call_at (calls t ! i) = Returned"
proof (cases "0 < active_conns (counter s)")
  case True
  have a: "count_step s (move_call i Compared s)" using count_step.compare [OF assms] True by simp
  let ?s = "move_call i Compared s"
  have "i < length (calls ?s)" "call_at (calls ?s ! i) = Compared" using assms by (simp_all add: move_call_def)
  from count_step.decrement [OF this] a have "count_step\<^sup>*\<^sup>* s ((move_call i Returned ?s)
      \<lparr>counter := (counter ?s)\<lparr>active_conns := active_conns (counter ?s) - 1\<rparr>\<rparr>)"
    by (meson converse_rtranclp_into_rtranclp rtranclp.rtrancl_refl)
  then show ?thesis
    by (rule_tac exI, rule_tac conjI, assumption) (use True assms in \<open>simp add: move_call_def dec_active_conns_def\<close>)
next
  case False
  have "count_step s (move_call i Returned s)" using count_step.compare [OF assms] False by simp
  with False assms show ?thesis
    by (intro exI [of _ "move_call i Returned s"] conjI r_into_rtranclp)
      (simp_all add: move_call_def dec_active_conns_def)
qed

section \<open>Counted connections\<close>

definition calls_owed :: "counting \<Rightarrow> bool" where
  "calls_owed s \<longleftrightarrow> list_all call_owed (calls s)"

lemma filter_update:
  "i < length xs \<Longrightarrow> P (xs ! i) \<Longrightarrow>
     length (filter P (xs[i := x])) = (if P x then length (filter P xs) else length (filter P xs) - 1)"
proof (induction xs arbitrary: i)
  case (Cons y ys)
  show ?case
  proof (cases i)
    case (Suc j)
    with Cons.prems have j: "j < length ys" "P (ys ! j)" by simp_all
    then have "filter P ys \<noteq> []" by (auto simp: filter_empty_conv)
    then have "0 < length (filter P ys)" by simp
    with Suc Cons.IH [OF j] show ?thesis by auto
  qed (use Cons.prems in auto)
qed simp

lemma open_call_pos: "\<lbrakk>i < length (calls s); call_at (calls s ! i) \<noteq> Returned\<rbrakk> \<Longrightarrow> 0 < open_calls s"
  by (auto simp: open_calls_def filter_empty_conv dest: nth_mem)

lemma open_calls_move:
  assumes "i < length (calls s)" and "call_at (calls s ! i) \<noteq> Returned"
  shows "open_calls (move_call i p s) = (if p = Returned then open_calls s - 1 else open_calls s)"
  using filter_update [of i "calls s" "\<lambda>c. call_at c \<noteq> Returned"] assms
  by (simp add: open_calls_def move_call_def)

lemma calls_owed_move: "calls_owed (move_call i p s) = calls_owed s"
proof -
  have "map call_owed ((calls s)[i := (calls s ! i)\<lparr>call_at := p\<rparr>]) = map call_owed (calls s)"
    by (cases "i < length (calls s)") (simp_all add: list_eq_iff_nth_eq nth_list_update)
  then have "list_all id (map call_owed (calls (move_call i p s))) = list_all id (map call_owed (calls s))"
    by (simp add: move_call_def)
  then show ?thesis by (simp only: calls_owed_def list.pred_map id_comp)
qed

lemma owed_before: "\<lbrakk>count_step s t; calls_owed t\<rbrakk> \<Longrightarrow> calls_owed s"
proof (induction rule: count_step.induct)
  case (decrement i s)
  then show ?case using calls_owed_move [of i Returned s] by (simp add: calls_owed_def)
qed (simp_all add: calls_owed_move, simp_all add: calls_owed_def)

text \<open>
  If every connection that is closed was counted when it was accepted, the counter is the number of
  connections whose end is still outstanding, whatever the interleaving of the comparisons and the
  decrements: the comparison is then always true, and the counter never wraps below 0.
\<close>

theorem active_conns_exact:
  assumes "counting_reachable s" and "calls_owed s" and "length (calls s) < 2 ^ 32"
  shows "unat (active_conns (counter s)) = open_calls s"
  using assms
proof (induction rule: counting_reachable.induct)
  case start
  show ?case by (simp add: open_calls_def listener_stats.make_def)
next
  case (go s t)
  have "length (calls s) \<le> length (calls t)"
    using go.hyps(2) by (induction rule: count_step.induct) (simp_all add: move_call_def)
  with go have IH: "unat (active_conns (counter s)) = open_calls s" using owed_before by simp
  from go.hyps(2) show ?case
  proof cases
    case accepted
    then have "open_calls t = Suc (open_calls s)" by (simp add: open_calls_def)
    moreover have "open_calls s < 2 ^ 32 - 1"
      using le_less_trans [OF length_filter_le [of "\<lambda>c. call_at c \<noteq> Returned" "calls s"], of "2 ^ 32 - 1"]
        go.prems(2) accepted by (simp add: open_calls_def)
    ultimately show ?thesis using IH accepted by (simp add: unat_word_ariths(1))
  next
    case spliced_vhost
    with go.prems(1) show ?thesis by (simp add: calls_owed_def)
  next
    case (compare i)
    with open_call_pos [of i s] have "0 < active_conns (counter s)"
      using IH by (metis dec_point.distinct(3) unat_0 word_neq_0_conv less_irrefl)
    with compare IH open_calls_move [of i s Compared] show ?thesis by (simp add: move_call_def open_calls_def)
  next
    case (decrement i)
    with open_call_pos [of i s] IH have "1 \<le> unat (active_conns (counter s))" by simp
    then have "unat (active_conns (counter s) - 1) = unat (active_conns (counter s)) - 1"
      by (simp add: unat_sub word_le_nat_alt)
    with decrement IH open_calls_move [of i s Returned] show ?thesis by (simp add: move_call_def open_calls_def)
  qed
qed

text \<open>
  A schedule of the four steps: an accepted connection, a virtual host's connection, a comparison
  and a decrement.
\<close>

datatype count_event = Accepts | Splices_vhost | Compares nat | Decrements nat

fun count_by :: "count_event \<Rightarrow> counting \<Rightarrow> counting" where
  "count_by Accepts s =
     s\<lparr>counter := (counter s)\<lparr>total_conns := total_conns (counter s) + 1, active_conns := active_conns (counter s) + 1\<rparr>,
       calls := calls s @ [\<lparr>call_owed = True, call_at = Not_called\<rparr>]\<rparr>"
| "count_by Splices_vhost s = s\<lparr>calls := calls s @ [\<lparr>call_owed = False, call_at = Not_called\<rparr>]\<rparr>"
| "count_by (Compares i) s =
     (if i < length (calls s) \<and> call_at (calls s ! i) = Not_called
      then move_call i (if 0 < active_conns (counter s) then Compared else Returned) s else s)"
| "count_by (Decrements i) s =
     (if i < length (calls s) \<and> call_at (calls s ! i) = Compared
      then (move_call i Returned s)\<lparr>counter := (counter s)\<lparr>active_conns := active_conns (counter s) - 1\<rparr>\<rparr> else s)"

lemma count_by_reachable: "counting_reachable s \<Longrightarrow> counting_reachable (fold count_by es s)"
proof (induction es arbitrary: s)
  case (Cons e es)
  have "count_by e s = s \<or> count_step s (count_by e s)"
    by (cases e) (simp_all add: count_step.accepted count_step.spliced_vhost
      count_step.compare [of _ s] count_step.decrement)
  with Cons show ?case by (auto intro: counting_reachable.go)
qed simp

abbreviation new_counting :: counting where
  "new_counting \<equiv> \<lparr>counter = listener_stats.make 0 0, calls = []\<rparr>"

lemmas count_by_simps = move_call_def listener_stats.make_def

theorem active_conns_exact_witness:
  "unat (active_conns (counter (fold count_by [Accepts, Accepts, Compares 0, Compares 1, Decrements 1] new_counting))) = 1"
  using active_conns_exact [OF count_by_reachable [OF counting_reachable.start],
      of "[Accepts, Accepts, Compares 0, Compares 1, Decrements 1]"]
  by (simp add: count_by_simps calls_owed_def open_calls_def)

text \<open>
  With a connection that was not counted, two comparisons may both succeed on a counter of 1, and
  the second decrement takes it to \<open>2 ^ 32 - 1\<close>, which the statistics report as \<open>-1\<close> (an
  \<open>int32_t\<close>).
\<close>

theorem active_conns_wraps:
  "active_conns (counter (fold count_by
     [Accepts, Splices_vhost, Compares 0, Compares 1, Decrements 0, Decrements 1] new_counting)) = - 1"
  by (simp add: count_by_simps)

end
