(* ===== verification/Sockets.thy ===== *)
theory Sockets
  imports Streams
begin

text \<open>
  Reading and writing through the stream objects of \<open>src/common/stream.h\<close>: \<open>TcpStream\<close> and
  \<open>SslStream\<close> hand each operation to asio, a \<open>BufferedStream\<close> serves its bytes first and then
  hands on to the stream below; buffers may be stacked. What asio does on the socket and on the TLS
  stream is a parameter: one read operation, one exact read and one write for each, on a state \<open>'w\<close>
  of the connection. Also \<open>Server::DoAccept\<close>'s inspection of the first byte.
\<close>

section \<open>Operations of the layers\<close>

datatype io_stack = Tcp_layer | Ssl_layer | Buffer_layer bytes nat io_stack

text \<open>The operations of asio; an exact read is \<open>None\<close> while it waits for more.\<close>

record 'w asio_stream =
  a_read_some :: "'w \<Rightarrow> nat \<Rightarrow> bytes \<times> 'w"
  a_read :: "'w \<Rightarrow> nat \<Rightarrow> (bytes \<times> 'w) option"
  a_write :: "'w \<Rightarrow> bytes \<Rightarrow> 'w"

record 'w asio =
  asio_tcp :: "'w asio_stream"
  asio_tls :: "'w asio_stream"

fun Tcp_read_some where
  "Tcp_read_some io w n = (case a_read_some (asio_tcp io) w n of (d, w') \<Rightarrow> (d, Tcp_layer, w'))"

fun Tcp_read where
  "Tcp_read io w n = map_option (\<lambda>(d, w'). (d, Tcp_layer, w')) (a_read (asio_tcp io) w n)"

fun Tcp_write where
  "Tcp_write io w d = a_write (asio_tcp io) w d"

fun Ssl_read_some where
  "Ssl_read_some io w n = (case a_read_some (asio_tls io) w n of (d, w') \<Rightarrow> (d, Ssl_layer, w'))"

fun Ssl_read where
  "Ssl_read io w n = map_option (\<lambda>(d, w'). (d, Ssl_layer, w')) (a_read (asio_tls io) w n)"

fun Ssl_write where
  "Ssl_write io w d = a_write (asio_tls io) w d"

text \<open>The copy out of the buffer; a buffer that is used up is cleared.\<close>

fun take_layer :: "nat \<Rightarrow> bytes \<Rightarrow> nat \<Rightarrow> io_stack \<Rightarrow> bytes \<times> io_stack" where
  "take_layer n b off u =
     (let to_copy = min (length b - off) n
      in (take to_copy (drop off b),
          if off + to_copy = length b then Buffer_layer [] 0 u else Buffer_layer b (off + to_copy) u))"

fun layer_read_some :: "'w asio \<Rightarrow> io_stack \<Rightarrow> 'w \<Rightarrow> nat \<Rightarrow> bytes \<times> io_stack \<times> 'w" where
  "layer_read_some io Tcp_layer w n = Tcp_read_some io w n"
| "layer_read_some io Ssl_layer w n = Ssl_read_some io w n"
| "layer_read_some io (Buffer_layer b off u) w n =
     (if off < length b then (case take_layer n b off u of (d, l) \<Rightarrow> (d, l, w))
      else (case layer_read_some io u w n of (d, u', w') \<Rightarrow> (d, Buffer_layer b off u', w')))"

fun layer_below :: "io_stack \<Rightarrow> io_stack \<Rightarrow> io_stack" where
  "layer_below u' (Buffer_layer b off u) = Buffer_layer b off u'"
| "layer_below u' l = l"

fun layer_read :: "'w asio \<Rightarrow> io_stack \<Rightarrow> 'w \<Rightarrow> nat \<Rightarrow> (bytes \<times> io_stack \<times> 'w) option" where
  "layer_read io Tcp_layer w n = Tcp_read io w n"
| "layer_read io Ssl_layer w n = Ssl_read io w n"
| "layer_read io (Buffer_layer b off u) w n =
     (if off < length b
      then (case take_layer n b off u of (d, l) \<Rightarrow>
              if length d < n
              then map_option (\<lambda>(e, u', w'). (d @ e, layer_below u' l, w')) (layer_read io u w (n - length d))
              else Some (d, l, w))
      else map_option (\<lambda>(d, u', w'). (d, Buffer_layer b off u', w')) (layer_read io u w n))"

fun layer_write :: "'w asio \<Rightarrow> io_stack \<Rightarrow> 'w \<Rightarrow> bytes \<Rightarrow> 'w" where
  "layer_write io Tcp_layer w d = Tcp_write io w d"
| "layer_write io Ssl_layer w d = Ssl_write io w d"
| "layer_write io (Buffer_layer b off u) w d = layer_write io u w d"

text \<open>The write with a list of buffers.\<close>

definition layer_write_buffers :: "'w asio \<Rightarrow> io_stack \<Rightarrow> 'w \<Rightarrow> bytes list \<Rightarrow> 'w" where
  "layer_write_buffers io l w bs = layer_write io l w (concat bs)"

section \<open>Stacks are byte sources\<close>

text \<open>Which of the two a stack stands on, and what its buffers hold.\<close>

fun over_tls :: "io_stack \<Rightarrow> bool" where
  "over_tls Tcp_layer = False"
| "over_tls Ssl_layer = True"
| "over_tls (Buffer_layer b off u) = over_tls u"

fun buffered_bytes :: "io_stack \<Rightarrow> bytes" where
  "buffered_bytes (Buffer_layer b off u) = drop off b @ buffered_bytes u"
| "buffered_bytes l = []"

text \<open>
  What asio promises: a read hands out the next bytes, at least one if there are any, and an exact
  read as many as asked for. \<open>pend t w\<close> are the bytes that have arrived and are unread, as the TLS
  stream (\<open>t\<close>) or the socket hands them out.
\<close>

definition asio_contract :: "'w asio \<Rightarrow> (bool \<Rightarrow> 'w \<Rightarrow> bytes) \<Rightarrow> ('w \<Rightarrow> bool) \<Rightarrow> bool" where
  "asio_contract io pend ready \<longleftrightarrow>
     byte_source (pend False) ready (a_read_some (asio_tcp io)) \<and>
     byte_source (pend True) ready (a_read_some (asio_tls io)) \<and>
     exact_reader (pend False) ready (a_read (asio_tcp io)) \<and>
     exact_reader (pend True) ready (a_read (asio_tls io))"

definition stack_bytes :: "(bool \<Rightarrow> 'w \<Rightarrow> bytes) \<Rightarrow> io_stack \<times> 'w \<Rightarrow> bytes" where
  "stack_bytes pend lw = buffered_bytes (fst lw) @ pend (over_tls (fst lw)) (snd lw)"

definition stack_rd :: "'w asio \<Rightarrow> io_stack \<times> 'w \<Rightarrow> nat \<Rightarrow> bytes \<times> io_stack \<times> 'w" where
  "stack_rd io lw n = layer_read_some io (fst lw) (snd lw) n"

definition stack_rdx :: "'w asio \<Rightarrow> io_stack \<times> 'w \<Rightarrow> nat \<Rightarrow> (bytes \<times> io_stack \<times> 'w) option" where
  "stack_rdx io lw n = layer_read io (fst lw) (snd lw) n"

lemma take_layer_spec:
  assumes "off < length b"
  shows "fst (take_layer n b off u) = take n (drop off b)"
    and "buffered_bytes (snd (take_layer n b off u)) = drop n (drop off b) @ buffered_bytes u"
    and "over_tls (snd (take_layer n b off u)) = over_tls u"
    and "layer_below u' (snd (take_layer n b off u)) =
      (case snd (take_layer n b off u) of Buffer_layer b' off' _ \<Rightarrow> Buffer_layer b' off' u' | l \<Rightarrow> l)"
  using assms by (auto simp: Let_def min_def add.commute split: io_stack.splits)

lemma asio_parts:
  assumes "asio_contract io pend ready"
  shows "byte_source (pend False) ready (a_read_some (asio_tcp io))"
    and "byte_source (pend True) ready (a_read_some (asio_tls io))"
    and "exact_reader (pend False) ready (a_read (asio_tcp io))"
    and "exact_reader (pend True) ready (a_read (asio_tls io))"
  using assms by (simp_all add: asio_contract_def)

lemma layer_read_some_laws:
  assumes io: "asio_contract io pend ready" and "ready w"
  shows "ready (snd (snd (layer_read_some io l w n))) \<and>
    stack_bytes pend (l, w) = fst (layer_read_some io l w n) @ stack_bytes pend (snd (layer_read_some io l w n)) \<and>
    length (fst (layer_read_some io l w n)) \<le> n \<and>
    (0 < n \<longrightarrow> stack_bytes pend (l, w) \<noteq> [] \<longrightarrow> fst (layer_read_some io l w n) \<noteq> [])"
proof (induction l)
  case Tcp_layer
  show ?case
    using byte_source.rd_inv [OF asio_parts(1) [OF io] assms(2), of n] byte_source.rd_split [OF asio_parts(1) [OF io] assms(2), of n]
      byte_source.rd_length [OF asio_parts(1) [OF io] assms(2), of n] byte_source.rd_progress [OF asio_parts(1) [OF io] assms(2), of n]
    by (auto simp: stack_bytes_def split: prod.splits)
next
  case Ssl_layer
  show ?case
    using byte_source.rd_inv [OF asio_parts(2) [OF io] assms(2), of n] byte_source.rd_split [OF asio_parts(2) [OF io] assms(2), of n]
      byte_source.rd_length [OF asio_parts(2) [OF io] assms(2), of n] byte_source.rd_progress [OF asio_parts(2) [OF io] assms(2), of n]
    by (auto simp: stack_bytes_def split: prod.splits)
next
  case (Buffer_layer b off u)
  show ?case
  proof (cases "off < length b")
    case True
    then show ?thesis
      using take_layer_spec [OF True, where n = n and u = u] assms(2) append_take_drop_id [of n "drop off b"]
      by (auto simp: stack_bytes_def case_prod_beta simp del: take_layer.simps append_take_drop_id)
  next
    case False
    then show ?thesis using Buffer_layer by (auto simp: stack_bytes_def case_prod_beta)
  qed
qed

lemma stack_source:
  assumes "asio_contract io pend ready"
  shows "byte_source (stack_bytes pend) (\<lambda>lw. ready (snd lw)) (stack_rd io)"
  using layer_read_some_laws [OF assms] by unfold_locales (auto simp: stack_rd_def)

lemma layer_read_laws:
  assumes io: "asio_contract io pend ready" and "ready w" and "0 < n"
  shows "(n \<le> length (stack_bytes pend (l, w)) \<longrightarrow>
      (\<exists>l' w'. layer_read io l w n = Some (take n (stack_bytes pend (l, w)), l', w') \<and> ready w' \<and>
        over_tls l' = over_tls l \<and> stack_bytes pend (l', w') = drop n (stack_bytes pend (l, w)))) \<and>
    (length (stack_bytes pend (l, w)) < n \<longrightarrow> layer_read io l w n = None)"
  using assms(3)
proof (induction l arbitrary: n)
  case Tcp_layer
  then show ?case
    using exact_reader.rdx_enough [OF asio_parts(3) [OF io] assms(2), of n] exact_reader.rdx_short [OF asio_parts(3) [OF io] assms(2), of n]
    by (auto simp: stack_bytes_def)
next
  case Ssl_layer
  then show ?case
    using exact_reader.rdx_enough [OF asio_parts(4) [OF io] assms(2), of n] exact_reader.rdx_short [OF asio_parts(4) [OF io] assms(2), of n]
    by (auto simp: stack_bytes_def)
next
  case (Buffer_layer b off u)
  show ?case
  proof (cases "off < length b")
    case False
    then show ?thesis using Buffer_layer.IH [OF Buffer_layer.prems] by (auto simp: stack_bytes_def)
  next
    case True
    show ?thesis
    proof (cases "n \<le> length b - off")
      case short: True
      then show ?thesis using True assms(2) by (auto simp: stack_bytes_def Let_def min_def add.commute)
    next
      case long: False
      then have n: "0 < n - (length b - off)" "min (length b - off) n = length b - off" by simp_all
      from Buffer_layer.IH [OF n(1)] long True n(2) show ?thesis
        by (auto simp: stack_bytes_def Let_def)
    qed
  qed
qed

lemma stack_exact:
  assumes "asio_contract io pend ready"
  shows "exact_reader (stack_bytes pend) (\<lambda>lw. ready (snd lw)) (stack_rdx io)"
proof
  fix lw :: "io_stack \<times> 'a" and n
  assume r: "ready (snd lw)"
  show "\<exists>t. stack_rdx io lw n = Some (take n (stack_bytes pend lw), t) \<and> ready (snd t) \<and>
      stack_bytes pend t = drop n (stack_bytes pend lw)"
    if "0 < n" "n \<le> length (stack_bytes pend lw)"
    using layer_read_laws [OF assms r that(1), of "fst lw"] that(2) by (auto simp: stack_rdx_def)
  show "stack_rdx io lw n = None" if "length (stack_bytes pend lw) < n"
    using layer_read_laws [OF assms r, of n "fst lw"] that by (simp add: stack_rdx_def)
qed

section \<open>The layers lose nothing\<close>

text \<open>
  The other direction: a write appends to what has been sent (\<open>sent t w\<close>) and leaves the input
  alone, a read leaves the output alone.
\<close>

definition asio_writes :: "'w asio \<Rightarrow> (bool \<Rightarrow> 'w \<Rightarrow> bytes) \<Rightarrow> ('w \<Rightarrow> bool) \<Rightarrow> (bool \<Rightarrow> 'w \<Rightarrow> bytes) \<Rightarrow> bool" where
  "asio_writes io pend ready sent \<longleftrightarrow>
     (\<forall>t w d. let s = if t then asio_tls io else asio_tcp io in
        sent t (a_write s w d) = sent t w @ d \<and> pend t (a_write s w d) = pend t w \<and>
        (ready w \<longrightarrow> ready (a_write s w d)) \<and>
        (\<forall>n. sent t (snd (a_read_some s w n)) = sent t w) \<and>
        (\<forall>n r. a_read s w n = Some r \<longrightarrow> sent t (snd r) = sent t w))"

text \<open>
  What the users of a stream do with it. \<open>Inspect\<close> is the detection of the protocol in
  \<open>Server::DoAccept\<close>: one byte is read and put back in a \<open>BufferedStream\<close>.
\<close>

datatype stack_op = Read_some nat | Read_exact nat | Write_all "bytes list" | Inspect

fun stack_do :: "'w asio \<Rightarrow> stack_op \<Rightarrow> io_stack \<times> 'w \<Rightarrow> bytes \<times> io_stack \<times> 'w" where
  "stack_do io (Read_some n) (l, w) = layer_read_some io l w n"
| "stack_do io (Read_exact n) (l, w) = (case layer_read io l w n of None \<Rightarrow> ([], l, w) | Some r \<Rightarrow> r)"
| "stack_do io (Write_all bs) (l, w) = ([], l, layer_write_buffers io l w bs)"
| "stack_do io Inspect (l, w) =
     (case layer_read io l w 1 of None \<Rightarrow> ([], l, w) | Some (d, l', w') \<Rightarrow> ([], Buffer_layer d 0 l', w'))"

fun stack_run :: "'w asio \<Rightarrow> stack_op list \<Rightarrow> io_stack \<times> 'w \<Rightarrow> bytes \<times> io_stack \<times> 'w" where
  "stack_run io [] lw = ([], lw)"
| "stack_run io (p # ps) lw =
     (case stack_do io p lw of (d, lw') \<Rightarrow> case stack_run io ps lw' of (e, lw'') \<Rightarrow> (d @ e, lw''))"

fun op_written :: "stack_op \<Rightarrow> bytes" where
  "op_written (Write_all bs) = concat bs"
| "op_written _ = []"

text \<open>Reads and writes stay on the transport of the stack.\<close>

lemma layer_write_laws:
  assumes "asio_writes io pend ready sent"
  shows "sent (over_tls l) (layer_write io l w d) = sent (over_tls l) w @ d \<and>
    pend (over_tls l) (layer_write io l w d) = pend (over_tls l) w \<and> (ready w \<longrightarrow> ready (layer_write io l w d))"
  using assms by (induction l) (auto simp: asio_writes_def Let_def dest: spec [of _ True] spec [of _ False])

lemma take_layer_tls: "over_tls (snd (take_layer n b off u)) = over_tls u"
  by (simp add: Let_def)

lemma over_tls_below: "over_tls (layer_below u' (snd (take_layer n b off u))) = over_tls u'"
  by (simp add: Let_def)

lemma layer_read_some_keeps:
  assumes "asio_writes io pend ready sent"
  shows "over_tls (fst (snd (layer_read_some io l w n))) = over_tls l \<and>
    sent (over_tls l) (snd (snd (layer_read_some io l w n))) = sent (over_tls l) w"
proof (induction l)
  case (Buffer_layer b off u)
  then show ?case
    by (simp add: case_prod_beta take_layer_tls del: take_layer.simps)
next
  case Tcp_layer
  show ?case using assms by (auto simp: asio_writes_def Let_def case_prod_beta dest: spec [of _ False])
next
  case Ssl_layer
  show ?case using assms by (auto simp: asio_writes_def Let_def case_prod_beta dest: spec [of _ True])
qed

lemma layer_read_keeps:
  assumes "asio_writes io pend ready sent"
  shows "layer_read io l w n = Some (d, l', w') \<Longrightarrow>
    over_tls l' = over_tls l \<and> sent (over_tls l) w' = sent (over_tls l) w"
proof (induction l arbitrary: n d l')
  case (Buffer_layer b off u)
  then show ?case
    by (auto simp: case_prod_beta take_layer_tls over_tls_below simp del: take_layer.simps split: if_splits)
next
  case Tcp_layer
  then show ?case using assms
    by (fastforce simp: asio_writes_def Let_def case_prod_beta dest: spec [of _ False])
next
  case Ssl_layer
  then show ?case using assms
    by (fastforce simp: asio_writes_def Let_def case_prod_beta dest: spec [of _ True])
qed

text \<open>An exact read asks for at least one byte.\<close>

fun op_ok :: "stack_op \<Rightarrow> bool" where
  "op_ok (Read_exact n) \<longleftrightarrow> 0 < n"
| "op_ok _ \<longleftrightarrow> True"

lemma layer_read_splits:
  assumes "asio_contract io pend ready" and "ready w" and "0 < n" and "layer_read io l w n = Some (d, l', w')"
  shows "ready w' \<and> d @ stack_bytes pend (l', w') = stack_bytes pend (l, w)"
proof -
  have "n \<le> length (stack_bytes pend (l, w))"
    using layer_read_laws [OF assms(1-3), of l] assms(4) by (cases "n \<le> length (stack_bytes pend (l, w))") auto
  with layer_read_laws [OF assms(1-3), of l] assms(4) show ?thesis by auto
qed

lemma stack_do_step:
  assumes io: "asio_contract io pend ready" "asio_writes io pend ready sent"
    and "ready w" and "op_ok p" and "stack_do io p (l, w) = (d, l', w')"
  shows "ready w' \<and> d @ stack_bytes pend (l', w') = stack_bytes pend (l, w) \<and> over_tls l' = over_tls l \<and>
    sent (over_tls l) w' = sent (over_tls l) w @ op_written p"
proof (cases p)
  case (Read_some n)
  then show ?thesis
    using layer_read_some_laws [OF io(1) assms(3), of l n] layer_read_some_keeps [OF io(2), of l w n] assms(5) by simp
next
  case (Read_exact n)
  then show ?thesis
    using layer_read_splits [OF io(1) assms(3), of n l] layer_read_keeps [OF io(2), of l w n] assms(3-5)
    by (auto split: option.splits)
next
  case (Write_all bs)
  then show ?thesis
    using layer_write_laws [OF io(2), of l w "concat bs"] assms(3,5)
    by (auto simp: stack_bytes_def layer_write_buffers_def)
next
  case Inspect
  show ?thesis
  proof (cases "layer_read io l w 1")
    case None
    with Inspect assms(3,5) show ?thesis by simp
  next
    case (Some r)
    obtain e u v where r: "r = (e, u, v)" by (cases r)
    with Some Inspect assms(5) have "d = []" "l' = Buffer_layer e 0 u" "w' = v" by simp_all
    with layer_read_splits [OF io(1) assms(3) _ Some [unfolded r]] layer_read_keeps [OF io(2) Some [unfolded r]] Inspect
    show ?thesis by (simp add: stack_bytes_def)
  qed
qed

text \<open>
  C36: The stream objects on a socket are transparent in both directions: whatever stack of buffers
  stands on a TCP or TLS connection, whatever is read, written and inspected in whatever portions,
  what has been delivered and what is still held or pending are together the bytes that were
  there, in order, and what has been sent is what was written, in order. Inspecting the first byte
  of a connection changes nothing that its readers see.
\<close>

theorem layers_transparent:
  assumes "asio_contract io pend ready" and "asio_writes io pend ready sent"
    and "ready w" and "list_all op_ok ps" and "stack_run io ps (l, w) = (d, l', w')"
  shows "d @ stack_bytes pend (l', w') = stack_bytes pend (l, w) \<and>
    sent (over_tls l) w' = sent (over_tls l) w @ concat (map op_written ps)"
  using assms(3-5)
proof (induction ps arbitrary: l w d)
  case (Cons p ps)
  obtain d1 l1 w1 where 1: "stack_do io p (l, w) = (d1, l1, w1)" by (cases "stack_do io p (l, w)") auto
  obtain d2 where 2: "stack_run io ps (l1, w1) = (d2, l', w')" and d: "d = d1 @ d2"
    using Cons.prems(3) 1 by (auto split: prod.splits)
  have "op_ok p" "list_all op_ok ps" using Cons.prems(2) by simp_all
  from stack_do_step [OF assms(1,2) Cons.prems(1) this(1) 1] Cons.IH [OF _ this(2) 2] d
  show ?case by auto
qed simp

text \<open>
  A connection that satisfies the contract: the bytes that have arrived, of which a read hands out
  at most \<open>k\<close>, and the bytes sent.
\<close>

definition segment_stream :: "nat \<Rightarrow> (bytes \<times> bytes) asio_stream" where
  "segment_stream k =
     \<lparr>a_read_some = (\<lambda>(i, out) n. (take (min n k) i, drop (min n k) i, out)),
      a_read = (\<lambda>(i, out) n. if n \<le> length i then Some (take n i, drop n i, out) else None),
      a_write = (\<lambda>(i, out) d. (i, out @ d))\<rparr>"

definition segment_asio :: "nat \<Rightarrow> (bytes \<times> bytes) asio" where
  "segment_asio k = \<lparr>asio_tcp = segment_stream k, asio_tls = segment_stream k\<rparr>"

lemma segment_asio_contract:
  "0 < k \<Longrightarrow> asio_contract (segment_asio k) (\<lambda>t. fst) (\<lambda>w. True)"
  "asio_writes (segment_asio k) (\<lambda>t. fst) (\<lambda>w. True) (\<lambda>t. snd)"
  by (auto simp: asio_contract_def asio_writes_def segment_asio_def segment_stream_def
      byte_source_def exact_reader_def Let_def case_prod_beta split: if_splits)

theorem layers_transparent_witness:
  "stack_run (segment_asio 2) [Inspect, Read_some 8, Write_all [[9], [8]], Read_exact 2]
     (Ssl_layer, ([1, 2, 3, 4], [])) = ([1, 2, 3], Buffer_layer [] 0 Ssl_layer, ([4], [9, 8])) \<and>
   [1, 2, 3] @ stack_bytes (\<lambda>t. fst) (Buffer_layer [] 0 Ssl_layer, ([4], [9, 8])) = [1, 2, 3, 4 :: byte]"
proof
  show run: "stack_run (segment_asio 2) [Inspect, Read_some 8, Write_all [[9], [8]], Read_exact 2]
     (Ssl_layer, ([1, 2, 3, 4], [])) = ([1, 2, 3], Buffer_layer [] 0 Ssl_layer, ([4], [9, 8]))"
    by (simp add: segment_asio_def segment_stream_def layer_write_buffers_def)
  show "[1, 2, 3] @ stack_bytes (\<lambda>t. fst) (Buffer_layer [] 0 Ssl_layer, ([4], [9, 8])) = [1, 2, 3, 4 :: byte]"
    using layers_transparent [OF segment_asio_contract(1) segment_asio_contract(2) _ _ run]
    by (simp add: stack_bytes_def)
qed

end
