(* ===== verification/Host.thy ===== *)
theory Host
  imports Tickets Config
begin

text \<open>
  What the program gets from its host, and small wrappers around libraries: time stamps of the log,
  paths, keep-alive of sockets (\<open>src/common/utils.h\<close>), the hash table keyed by UDP endpoints
  (\<open>src/common/hash_utils.h\<close>), the contexts of zstd (\<open>src/common/zstd_utils.h\<close>) and the random
  bytes that ngtcp2 asks for (\<open>src/common/quic_ngtcp2.cpp\<close>). The operating system, the hash of
  strings, zstd and wolfSSL are parameters.
\<close>

section \<open>Time stamps\<close>

text \<open>Broken-down local time; the year counts from 1900, the month from 0.\<close>

record tm =
  tm_year :: nat
  tm_mon :: nat
  tm_mday :: nat
  tm_hour :: nat
  tm_min :: nat
  tm_sec :: nat

definition tm_ok :: "tm \<Rightarrow> bool" where
  "tm_ok t \<longleftrightarrow> tm_year t < 8100 \<and> tm_mon t < 12 \<and> tm_mday t < 32 \<and> tm_hour t < 24 \<and> tm_min t < 60 \<and> tm_sec t < 61"

definition pad0 :: "nat \<Rightarrow> string \<Rightarrow> string" where
  "pad0 w s = replicate (w - length s) CHR ''0'' @ s"

text \<open>\<open>now_ms\<close>: milliseconds since the epoch; \<open>localtime\<close>: \<open>localtime_r\<close> on seconds.\<close>

definition GetTimestamp :: "(nat \<Rightarrow> tm) \<Rightarrow> nat \<Rightarrow> string" where
  "GetTimestamp localtime now_ms =
     (let t = localtime (now_ms div 1000)
      in ''['' @ pad0 4 (to_string (1900 + tm_year t)) @ ''-'' @ pad0 2 (to_string (tm_mon t + 1)) @ ''-'' @
         pad0 2 (to_string (tm_mday t)) @ '' '' @ pad0 2 (to_string (tm_hour t)) @ '':'' @
         pad0 2 (to_string (tm_min t)) @ '':'' @ pad0 2 (to_string (tm_sec t)) @
         ''.'' @ pad0 3 (to_string (now_ms mod 1000)) @ ''] '')"

lemma length_pad0: "0 < w \<Longrightarrow> n < 10 ^ w \<Longrightarrow> length (pad0 w (to_string n)) = w"
  using length_to_string [of w n] by (simp add: pad0_def)

lemma of_decimal_zeros: "of_decimal (replicate k CHR ''0'' @ s) = of_decimal s"
proof -
  have "foldl (\<lambda>n c. 10 * n + (of_char c - 48)) (0::nat) (replicate k CHR ''0'') = 0"
    by (induction k) simp_all
  then show ?thesis by simp
qed

lemma of_decimal_pad0: "of_decimal (pad0 w (to_string n)) = n"
  by (simp only: pad0_def of_decimal_zeros of_decimal_to_string)

lemma pad0_inject:
  assumes "pad0 w (to_string m) @ r = pad0 w (to_string n) @ s" and "0 < w" and "m < 10 ^ w" and "n < 10 ^ w"
  shows "m = n \<and> r = s"
proof -
  have "pad0 w (to_string m) = pad0 w (to_string n)" "r = s"
    using assms(1) length_pad0 [OF assms(2,3)] length_pad0 [OF assms(2,4)] by (simp_all add: append_eq_append_conv)
  then show ?thesis by (metis of_decimal_pad0)
qed

text \<open>A stamp is a sequence of separators and numbers of fixed widths.\<close>

definition fields :: "(string \<times> nat \<times> nat) list \<Rightarrow> string" where
  "fields fs = concat (map (\<lambda>(sep, w, n). sep @ pad0 w (to_string n)) fs)"

definition same_layout :: "(string \<times> nat \<times> nat) list \<Rightarrow> (string \<times> nat \<times> nat) list \<Rightarrow> bool" where
  "same_layout = list_all2 (\<lambda>(s, w, n) (s', w', m). s = s' \<and> w = w' \<and> 0 < w \<and> n < 10 ^ w \<and> m < 10 ^ w)"

lemma fields_inject: "same_layout fs gs \<Longrightarrow> fields fs @ r = fields gs @ r' \<Longrightarrow> fs = gs"
  unfolding same_layout_def
proof (induction rule: list_all2_induct)
  case (Cons f fs g gs)
  then show ?case by (auto simp: fields_def dest!: pad0_inject)
qed simp

definition stamp_fields :: "tm \<Rightarrow> nat \<Rightarrow> (string \<times> nat \<times> nat) list" where
  "stamp_fields t ms =
     [(''['', 4, 1900 + tm_year t), (''-'', 2, tm_mon t + 1), (''-'', 2, tm_mday t), ('' '', 2, tm_hour t),
      ('':'', 2, tm_min t), ('':'', 2, tm_sec t), (''.'', 3, ms)]"

lemma timestamp_fields:
  "GetTimestamp localtime n = fields (stamp_fields (localtime (n div 1000)) (n mod 1000)) @ ''] ''"
  by (simp add: GetTimestamp_def fields_def stamp_fields_def Let_def)

text \<open>
  A stamp is 26 characters long until the year 9999, so that the messages of a log are aligned, and
  determines the local time and the milliseconds.
\<close>

theorem timestamp_determines_time:
  assumes "tm_ok (localtime (n div 1000))" and "tm_ok (localtime (m div 1000))"
  shows "length (GetTimestamp localtime n) = 26 \<and>
    (GetTimestamp localtime n = GetTimestamp localtime m \<longleftrightarrow>
      localtime (n div 1000) = localtime (m div 1000) \<and> n mod 1000 = m mod 1000)"
proof -
  let ?f = "stamp_fields (localtime (n div 1000)) (n mod 1000)"
  let ?g = "stamp_fields (localtime (m div 1000)) (m mod 1000)"
  have "same_layout ?f ?g" using assms by (simp add: same_layout_def stamp_fields_def tm_ok_def)
  from fields_inject [OF this] have "GetTimestamp localtime n = GetTimestamp localtime m \<longleftrightarrow> ?f = ?g"
    by (auto simp: timestamp_fields)
  also have "\<dots> \<longleftrightarrow> localtime (n div 1000) = localtime (m div 1000) \<and> n mod 1000 = m mod 1000"
    by (cases "localtime (n div 1000)"; cases "localtime (m div 1000)") (auto simp: stamp_fields_def)
  finally show ?thesis
    using assms(1) by (simp add: GetTimestamp_def Let_def length_pad0 tm_ok_def)
qed

definition demo_time :: "nat \<Rightarrow> tm" where
  "demo_time s = \<lparr>tm_year = 126, tm_mon = 0, tm_mday = 2, tm_hour = 3, tm_min = 4, tm_sec = s mod 60\<rparr>"

theorem timestamp_determines_time_witness:
  "GetTimestamp demo_time 5678 = ''[2026-01-02 03:04:05.678] '' \<and>
   GetTimestamp demo_time 5678 \<noteq> GetTimestamp demo_time 5679"
  using timestamp_determines_time [of demo_time 5678 5679]
  by (simp add: demo_time_def tm_ok_def GetTimestamp_def Let_def pad0_def to_string.simps digit_char_def char_of_def bit_0)

section \<open>Paths\<close>

text \<open>
  The answers of the operating system: \<open>GetModuleFileName\<close> (cut to 260 characters),
  \<open>_NSGetExecutablePath\<close> (none if the path does not fit into 1024 characters), \<open>canonical\<close>,
  \<open>read_symlink("/proc/self/exe")\<close>, and the environment. A path is empty when the call fails.
\<close>

datatype platform = Windows | Mac | Linux

record host =
  module_file_name :: string
  ns_executable_path :: "string option"
  canonical :: "string \<Rightarrow> string option"
  proc_self_exe :: "string option"
  getenv :: "string \<Rightarrow> string option"

definition GetExecutablePath :: "platform \<Rightarrow> host \<Rightarrow> string" where
  "GetExecutablePath p h =
     (case p of
        Windows \<Rightarrow> module_file_name h
      | Mac \<Rightarrow> (case ns_executable_path h of
                 None \<Rightarrow> ''''
               | Some b \<Rightarrow> (case canonical h b of None \<Rightarrow> '''' | Some c \<Rightarrow> c))
      | Linux \<Rightarrow> (case proc_self_exe h of None \<Rightarrow> '''' | Some l \<Rightarrow> l))"

definition GetHomeDirectory :: "platform \<Rightarrow> host \<Rightarrow> string" where
  "GetHomeDirectory p h =
     (case getenv h (if p = Windows then ''USERPROFILE'' else ''HOME'') of None \<Rightarrow> '''' | Some d \<Rightarrow> d)"

text \<open>
  The files beside the executable (\<open>main.cpp\<close>); \<open>parent\<close> and \<open>slash\<close> are \<open>parent_path\<close> and \<open>/\<close> of
  \<open>std::filesystem\<close>.
\<close>

record program_files =
  pid_path :: string
  log_path :: string
  status_path :: string

definition program_paths :: "(string \<Rightarrow> string) \<Rightarrow> (string \<Rightarrow> string \<Rightarrow> string) \<Rightarrow> string \<Rightarrow> program_files" where
  "program_paths parent slash exe =
     (let dir = (if exe = '''' then ''.'' else parent exe)
      in \<lparr>pid_path = slash dir ''cfrp.pid'', log_path = slash dir ''cfrp.log'', status_path = slash dir ''cfrp.status''\<rparr>)"

text \<open>
  The directory does not depend on where the program is called from, unless its own path cannot be
  found; then it is the working directory, and a second start from elsewhere uses another PID file.
\<close>

lemma unknown_executable_uses_working_directory:
  "proc_self_exe h = None \<Longrightarrow>
     pid_path (program_paths parent slash (GetExecutablePath Linux h)) = slash ''.'' ''cfrp.pid''"
  by (simp add: program_paths_def GetExecutablePath_def Let_def)

section \<open>Keep-alive\<close>

datatype socket_option =
    No_delay | Keep_alive
  | Keepalive_idle_s nat | Keepalive_interval_s nat | Keepalive_count nat
  | Keepalive_vals_ms nat nat

definition SetTcpKeepalive :: "platform \<Rightarrow> socket_option list" where
  "SetTcpKeepalive p =
     [No_delay, Keep_alive] @
     (case p of
        Windows \<Rightarrow> [Keepalive_vals_ms 10000 5000]
      | _ \<Rightarrow> [Keepalive_idle_s 10, Keepalive_interval_s 5, Keepalive_count 3])"

text \<open>After how many seconds a silent peer is dropped; \<open>probes\<close> is the number a system uses by itself.\<close>

fun drop_after_s :: "nat \<Rightarrow> socket_option list \<Rightarrow> nat" where
  "drop_after_s probes (Keepalive_idle_s i # Keepalive_interval_s v # Keepalive_count c # opts) = i + v * c"
| "drop_after_s probes (Keepalive_vals_ms i v # opts) = i div 1000 + (v div 1000) * probes"
| "drop_after_s probes (_ # opts) = drop_after_s probes opts"
| "drop_after_s probes [] = 0"

text \<open>The 25 seconds of the comment hold on Linux and macOS; the ten probes of Windows take a minute.\<close>

lemma keepalive_drops:
  "drop_after_s 10 (SetTcpKeepalive Linux) = 25 \<and> drop_after_s 10 (SetTcpKeepalive Windows) = 60"
  by (simp add: SetTcpKeepalive_def)

section \<open>Hash tables of endpoints\<close>

text \<open>
  \<open>std::unordered_map\<close> with a hash and an equality of its own, as lists of entries in buckets. The
  law that its users owe: equal keys have equal hashes.
\<close>

type_synonym ('k, 'v) buckets = "('k \<times> 'v) list list"

definition bucket_index :: "('k \<Rightarrow> 64 word) \<Rightarrow> ('k, 'v) buckets \<Rightarrow> 'k \<Rightarrow> nat" where
  "bucket_index hash t k = unat (hash k) mod length t"

fun entry_find :: "('k \<Rightarrow> 'k \<Rightarrow> bool) \<Rightarrow> 'k \<Rightarrow> ('k \<times> 'v) list \<Rightarrow> 'v option" where
  "entry_find eq k [] = None"
| "entry_find eq k ((k', v) # es) = (if eq k' k then Some v else entry_find eq k es)"

definition table_find :: "('k \<Rightarrow> 'k \<Rightarrow> bool) \<Rightarrow> ('k \<Rightarrow> 64 word) \<Rightarrow> ('k, 'v) buckets \<Rightarrow> 'k \<Rightarrow> 'v option" where
  "table_find eq hash t k = entry_find eq k (t ! bucket_index hash t k)"

definition table_erase ::
    "('k \<Rightarrow> 'k \<Rightarrow> bool) \<Rightarrow> ('k \<Rightarrow> 64 word) \<Rightarrow> 'k \<Rightarrow> ('k, 'v) buckets \<Rightarrow> ('k, 'v) buckets" where
  "table_erase eq hash k t =
     t[bucket_index hash t k := filter (\<lambda>(k', v). \<not> eq k' k) (t ! bucket_index hash t k)]"

definition table_put ::
    "('k \<Rightarrow> 'k \<Rightarrow> bool) \<Rightarrow> ('k \<Rightarrow> 64 word) \<Rightarrow> 'k \<Rightarrow> 'v \<Rightarrow> ('k, 'v) buckets \<Rightarrow> ('k, 'v) buckets" where
  "table_put eq hash k v t =
     (let t' = table_erase eq hash k t; i = bucket_index hash t' k in t'[i := (k, v) # t' ! i])"

locale hash_key =
  fixes eq :: "'k \<Rightarrow> 'k \<Rightarrow> bool" and hash :: "'k \<Rightarrow> 64 word"
  assumes eq_equiv: "equivp eq" and eq_hash: "eq k k' \<Longrightarrow> hash k = hash k'"
begin

lemma entry_find_erase:
  "entry_find eq k (filter (\<lambda>(k', v). \<not> eq k' j) es) = (if eq j k then None else entry_find eq k es)"
proof (induction es)
  case (Cons e es)
  have "eq (fst e) j \<Longrightarrow> eq (fst e) k = eq j k" and "eq j k \<Longrightarrow> eq (fst e) k \<Longrightarrow> eq (fst e) j"
    by (meson eq_equiv equivp_symp equivp_transp)+
  with Cons show ?case by (cases e) auto
qed simp

lemma bucket_index_eq: "eq j k \<Longrightarrow> bucket_index hash t j = bucket_index hash t k"
  using eq_hash [of j k] by (simp add: bucket_index_def)

lemma find_erase:
  assumes "t \<noteq> []"
  shows "table_find eq hash (table_erase eq hash j t) k = (if eq j k then None else table_find eq hash t k)"
proof -
  have b: "bucket_index hash t j < length t" using assms by (simp add: bucket_index_def)
  have "bucket_index hash (table_erase eq hash j t) k = bucket_index hash t k"
    by (simp add: bucket_index_def table_erase_def)
  with b bucket_index_eq [of j k t] show ?thesis
    by (auto simp: table_find_def table_erase_def nth_list_update entry_find_erase)
qed

lemma find_put:
  assumes "t \<noteq> []"
  shows "table_find eq hash (table_put eq hash j v t) k = (if eq j k then Some v else table_find eq hash t k)"
proof -
  let ?t = "table_erase eq hash j t"
  have "?t \<noteq> []" using assms by (simp add: table_erase_def)
  then have b: "bucket_index hash ?t j < length ?t" by (simp add: bucket_index_def)
  have "bucket_index hash (table_put eq hash j v t) k = bucket_index hash ?t k"
    by (simp add: bucket_index_def table_put_def Let_def)
  with b bucket_index_eq [of j k ?t] find_erase [OF assms, of j k] show ?thesis
    by (auto simp: table_find_def table_put_def Let_def nth_list_update)
qed

end

text \<open>
  The key of \<open>quic_sessions_\<close> and \<open>endpoint_to_ticket_\<close>. \<open>show\<close> is \<open>address::to_string\<close>, the hashes of
  strings and of ports are those of the library.
\<close>

record 'a udp_endpoint =
  ep_address :: 'a
  ep_port :: "16 word"

definition UdpEndpointHash ::
    "('a \<Rightarrow> string) \<Rightarrow> (string \<Rightarrow> 64 word) \<Rightarrow> (16 word \<Rightarrow> 64 word) \<Rightarrow> 'a udp_endpoint \<Rightarrow> 64 word" where
  "UdpEndpointHash shown hash_string hash_port ep =
     (let h1 = hash_string (shown (ep_address ep)); h2 = hash_port (ep_port ep) in h1 XOR push_bit 1 h2)"

definition UdpEndpointEqual :: "'a udp_endpoint \<Rightarrow> 'a udp_endpoint \<Rightarrow> bool" where
  "UdpEndpointEqual lhs rhs \<longleftrightarrow> lhs = rhs"

interpretation endpoint_key: hash_key UdpEndpointEqual "UdpEndpointHash shown hash_string hash_port"
  for shown :: "'a \<Rightarrow> string" and hash_string hash_port
  by unfold_locales (auto simp: UdpEndpointEqual_def intro!: equivpI reflpI sympI transpI)

text \<open>
  So the two tables behave as maps from endpoints, whatever the hash functions do and however many
  endpoints share a bucket.
\<close>

theorem endpoint_table_is_map:
  assumes "t \<noteq> []"
  shows "table_find UdpEndpointEqual (UdpEndpointHash sh hs hp)
      (table_put UdpEndpointEqual (UdpEndpointHash sh hs hp) j v t) =
      (table_find UdpEndpointEqual (UdpEndpointHash sh hs hp) t)(j \<mapsto> v) \<and>
    table_find UdpEndpointEqual (UdpEndpointHash sh hs hp)
      (table_erase UdpEndpointEqual (UdpEndpointHash sh hs hp) j t) =
      (table_find UdpEndpointEqual (UdpEndpointHash sh hs hp) t)(j := None)"
  using endpoint_key.find_put [OF assms, of sh hs hp j v] endpoint_key.find_erase [OF assms, of sh hs hp j]
  by (auto simp: UdpEndpointEqual_def fun_eq_iff)

text \<open>With the identity as the hash of ports, the ports of one address have different hashes.\<close>

lemma ports_do_not_collide:
  assumes "UdpEndpointHash sh hs ucast ep = UdpEndpointHash sh hs ucast ep'"
    and "ep_address ep = ep_address ep'"
  shows "ep_port ep = ep_port ep'"
proof (rule bit_word_eqI)
  fix n
  assume n: "n < LENGTH(16)"
  have "bit (UdpEndpointHash sh hs ucast ep) (Suc n) = bit (UdpEndpointHash sh hs ucast ep') (Suc n)"
    using assms(1) by simp
  then have "bit (push_bit 1 (ucast (ep_port ep) :: 64 word)) (Suc n) = bit (push_bit 1 (ucast (ep_port ep') :: 64 word)) (Suc n)"
    unfolding UdpEndpointHash_def Let_def bit_xor_iff assms(2) by blast
  with n show "bit (ep_port ep) n = bit (ep_port ep') n"
    by (simp only: bit_push_bit_iff) (simp add: bit_simps)
qed

section \<open>Contexts of zstd\<close>

text \<open>
  A coder owns one context of the library, which \<open>create\<close> may refuse (\<open>None\<close>). The destructor frees
  it; copying is deleted, so no other object holds it. A call without a context is \<open>None\<close>: the
  library must not be given a null context, and the code does not look.
\<close>

definition new_coder :: "'c option \<Rightarrow> 'c option" where
  "new_coder created = created"

definition coder_freed :: "'c option \<Rightarrow> 'c list" where
  "coder_freed ctx = (case ctx of None \<Rightarrow> [] | Some c \<Rightarrow> [c])"

definition coder_call :: "('c \<Rightarrow> bytes \<Rightarrow> 'r) \<Rightarrow> 'c option \<Rightarrow> bytes \<Rightarrow> 'r option" where
  "coder_call lib ctx src = (case ctx of None \<Rightarrow> None | Some c \<Rightarrow> Some (lib c src))"

section \<open>Random bytes for ngtcp2\<close>

text \<open>
  The generator of wolfSSL: whether it can be initialised, and the blocks it returns, one after the
  other. \<open>get_new_connection_id\<close> reports a failed initialisation; \<open>rand_cb\<close> cannot, and leaves the
  memory as it is.
\<close>

record rng =
  rng_init_ok :: bool
  rng_block :: "nat \<Rightarrow> nat \<Rightarrow> bytes"

definition stateless_reset_tokenlen :: nat where
  "stateless_reset_tokenlen = 16"

definition get_new_connection_id :: "rng \<Rightarrow> nat \<Rightarrow> (bytes \<times> bytes) option" where
  "get_new_connection_id r cidlen =
     (if \<not> rng_init_ok r then None
      else Some (rng_block r 0 cidlen, rng_block r 1 stateless_reset_tokenlen))"

definition rand_cb :: "rng \<Rightarrow> bytes \<Rightarrow> bytes" where
  "rand_cb r dest = (if \<not> rng_init_ok r then dest else rng_block r 0 (length dest))"

lemma random_bytes_or_old_memory:
  assumes "\<And>i n. length (rng_block r i n) = n"
  shows "(case get_new_connection_id r n of
      None \<Rightarrow> \<not> rng_init_ok r
    | Some (cid, token) \<Rightarrow> length cid = n \<and> length token = 16) \<and>
    length (rand_cb r dest) = length dest \<and> (\<not> rng_init_ok r \<longrightarrow> rand_cb r dest = dest)"
  by (simp add: get_new_connection_id_def rand_cb_def stateless_reset_tokenlen_def assms)

end
