(* ===== verification/Udp_Tunnel.thy ===== *)
theory Udp_Tunnel
  imports Udp_Bridge Server_State "HOL-Library.Sublist"
begin

text \<open>
  A UDP session from end to end: the proxy listener and the bridge of the server
  (\<open>src/server/server.cpp\<close>), the work stream, and the bridge of the client with its socket to the
  local service (\<open>src/client/client.cpp\<close>). The completions of \<open>Udp_Bridge\<close> become the steps of two
  objects whose reads, sends and writes follow one another, and the two are put together.
\<close>

section \<open>The chain of reads from the work stream\<close>

text \<open>
  What \<open>DoReadFromStream\<close> waits for. Each completion starts the next operation, so one is
  outstanding at any time; \<open>Read_ended\<close>: none is, and none will be.
\<close>

datatype read_phase = Want_header | Want_body nat bool | Send_waits bytes | Sending | Read_ended

datatype read_event = Header error_code bytes | Body error_code bytes | Send_granted | Sent error_code

fun read_next :: "udp_action list \<Rightarrow> (nat \<times> bool) option \<Rightarrow> read_phase" where
  "read_next [U_read_exact n] (Some (len, compressed)) = Want_body len compressed"
| "read_next [U_read_exact n] None = Want_header"
| "read_next [U_wait_send n d] None = Send_waits d"
| "read_next [U_send d] None = Sending"
| "read_next _ _ = Read_ended"

fun read_step ::
    "zstd \<Rightarrow> bool \<Rightarrow> (error_code \<Rightarrow> udp_action list) \<Rightarrow> read_event \<Rightarrow> read_phase \<Rightarrow> read_phase \<times> udp_action list" where
  "read_step z limited sent (Header ec bs) Want_header =
     (case udp_on_header ec bs of (acts, body) \<Rightarrow> (read_next acts body, acts))"
| "read_step z limited sent (Body ec bs) (Want_body len compressed) =
     (let acts = udp_on_body z limited compressed ec bs in (read_next acts None, acts))"
| "read_step z limited sent Send_granted (Send_waits d) = (Sending, [U_send d])"
| "read_step z limited sent (Sent ec) Sending = (let acts = sent ec in (read_next acts None, acts))"
| "read_step z limited sent _ p = (p, [])"

section \<open>The bridge of the client\<close>

text \<open>\<open>DoReadFromLocal\<close>: a receive, the wait for the limiter, the write to the stream, and again.\<close>

datatype recv_phase = Receiving | Write_waits bytes | Writing | Recv_ended

fun recv_next :: "udp_action list \<Rightarrow> recv_phase" where
  "recv_next [U_receive] = Receiving"
| "recv_next [U_wait_write n b] = Write_waits b"
| "recv_next [U_write b] = Writing"
| "recv_next _ = Recv_ended"

text \<open>
  \<open>cu_local\<close>: \<open>local_endpoint_\<close>, at first the endpoint of the proxy's configuration. The receive
  operation is given this member as the place for the endpoint of the sender.
\<close>

record 'e client_udp =
  cu_local :: 'e
  cu_read :: read_phase
  cu_recv :: recv_phase

datatype 'e client_event =
    From_stream read_event
  | Datagram error_code 'e bytes
  | Write_granted
  | Written error_code

record udp_link =
  ul_zstd :: zstd
  ul_compress :: bool
  ul_level :: int
  ul_client_limited :: bool
  ul_server_limited :: bool

definition UdpBridge_Start :: "'e \<Rightarrow> 'e client_udp" where
  "UdpBridge_Start endpoint = \<lparr>cu_local = endpoint, cu_read = Want_header, cu_recv = Receiving\<rparr>"

fun client_udp_step :: "udp_link \<Rightarrow> 'e client_event \<Rightarrow> 'e client_udp \<Rightarrow> 'e client_udp \<times> udp_action list" where
  "client_udp_step k (From_stream ev) s =
     (case read_step (ul_zstd k) (ul_client_limited k) client_udp_sent ev (cu_read s) of
        (p, acts) \<Rightarrow> (s\<lparr>cu_read := p\<rparr>, acts))"
| "client_udp_step k (Datagram ec e d) s =
     (if cu_recv s = Receiving
      then (let acts = udp_on_local (ul_zstd k) (ul_compress k) (ul_level k) (ul_client_limited k) ec d
            in (s\<lparr>cu_local := (if ec = Success then e else cu_local s), cu_recv := recv_next acts\<rparr>, acts))
      else (s, []))"
| "client_udp_step k Write_granted s =
     (case cu_recv s of Write_waits b \<Rightarrow> (s\<lparr>cu_recv := Writing\<rparr>, [U_write b]) | _ \<Rightarrow> (s, []))"
| "client_udp_step k (Written ec) s =
     (if cu_recv s = Writing
      then (let acts = udp_written ec in (s\<lparr>cu_recv := recv_next acts\<rparr>, acts))
      else (s, []))"

section \<open>The bridge of the server\<close>

text \<open>\<open>su_sent\<close>: the counter \<open>*bytes_sent_\<close> if there is one; it is advanced before the datagram is sent.\<close>

record server_udp =
  su_read :: read_phase
  su_sent :: "64 word option"

definition server_udp_send :: "udp_action list \<Rightarrow> 64 word option \<Rightarrow> 64 word option" where
  "server_udp_send acts counter =
     fold (\<lambda>a. case a of U_send d \<Rightarrow> map_option (\<lambda>n. n + word_of_nat (length d)) | _ \<Rightarrow> id) acts counter"

definition server_udp_step :: "udp_link \<Rightarrow> read_event \<Rightarrow> server_udp \<Rightarrow> server_udp \<times> udp_action list" where
  "server_udp_step k ev s =
     (case read_step (ul_zstd k) (ul_server_limited k) server_udp_sent ev (su_read s) of
        (p, acts) \<Rightarrow> (\<lparr>su_read = p, su_sent = server_udp_send acts (su_sent s)\<rparr>, acts))"

section \<open>The session as a whole\<close>

text \<open>
  The two bridges, the unread bytes of the work stream in each direction, the tables of the
  server, and what has happened at the sockets: \<open>arrived\<close> and \<open>service_got\<close> at the client's,
  \<open>user_sent\<close> and \<open>user_got\<close> at the listener's. \<open>write_taken\<close>: the last write was put on the stream; a
  closed stream refuses it. A packet is put on the stream as a whole: if the stream closes when a part of it
  has been delivered, the read that waits for the rest fails.
\<close>

record 'e udp_tunnel =
  ut_client :: "'e client_udp"
  ut_server :: server_udp
  ut_tables :: server
  to_server :: bytes
  to_client :: bytes
  stream_open :: bool
  write_taken :: bool
  arrived :: "('e \<times> bytes) list"
  service_got :: "('e \<times> bytes) list"
  user_sent :: "bytes list"
  user_got :: "bytes list"

text \<open>Which bytes a completed read takes from the stream; a read may fail at any time.\<close>

fun taken_by :: "read_event \<Rightarrow> read_phase \<Rightarrow> bytes \<Rightarrow> bytes option" where
  "taken_by (Header ec bs) p pipe =
     (if ec \<noteq> Success then Some pipe
      else if p = Want_header \<and> 2 \<le> length pipe \<and> bs = take 2 pipe then Some (drop 2 pipe) else None)"
| "taken_by (Body ec bs) p pipe =
     (if ec \<noteq> Success then Some pipe
      else (case p of
              Want_body n c \<Rightarrow> if n \<le> length pipe \<and> bs = take n pipe then Some (drop n pipe) else None
            | _ \<Rightarrow> None))"
| "taken_by ev p pipe = Some pipe"

fun server_act :: "udp_action \<Rightarrow> 'e udp_tunnel \<Rightarrow> 'e udp_tunnel" where
  "server_act (U_send d) t = t\<lparr>user_got := user_got t @ [d]\<rparr>"
| "server_act (U_write b) t = t\<lparr>to_client := to_client t @ b\<rparr>"
| "server_act U_close t = t\<lparr>stream_open := False\<rparr>"
| "server_act _ t = t"

fun client_act :: "udp_action \<Rightarrow> 'e udp_tunnel \<Rightarrow> 'e udp_tunnel" where
  "client_act (U_send d) t = t\<lparr>service_got := service_got t @ [(cu_local (ut_client t), d)]\<rparr>"
| "client_act (U_write b) t =
     (if stream_open t then t\<lparr>to_server := to_server t @ b, write_taken := True\<rparr> else t\<lparr>write_taken := False\<rparr>)"
| "client_act U_close t = t\<lparr>stream_open := False\<rparr>"
| "client_act _ t = t"

definition server_does :: "udp_link \<Rightarrow> read_event \<Rightarrow> 'e udp_tunnel \<Rightarrow> 'e udp_tunnel" where
  "server_does k ev t =
     (case server_udp_step k ev (ut_server t) of (s, acts) \<Rightarrow> fold server_act acts (t\<lparr>ut_server := s\<rparr>))"

definition client_does :: "udp_link \<Rightarrow> 'e client_event \<Rightarrow> 'e udp_tunnel \<Rightarrow> 'e udp_tunnel" where
  "client_does k ev t =
     (case client_udp_step k ev (ut_client t) of (c, acts) \<Rightarrow> fold client_act acts (t\<lparr>ut_client := c\<rparr>))"

inductive udp_tunnel_step :: "udp_link \<Rightarrow> 'e udp_tunnel \<Rightarrow> 'e udp_tunnel \<Rightarrow> bool" for k where
  at_server: "taken_by ev (su_read (ut_server t)) (to_server t) = Some rest \<Longrightarrow>
    udp_tunnel_step k t (server_does k ev (t\<lparr>to_server := rest\<rparr>))"
| at_client: "taken_by ev (cu_read (ut_client t)) (to_client t) = Some rest \<Longrightarrow>
    udp_tunnel_step k t (client_does k (From_stream ev) (t\<lparr>to_client := rest\<rparr>))"
| local_datagram: "\<lbrakk>cu_recv (ut_client t) = Receiving; length d \<le> 65535\<rbrakk> \<Longrightarrow>
    udp_tunnel_step k t (client_does k (Datagram Success e d) (t\<lparr>arrived := arrived t @ [(e, d)]\<rparr>))"
| local_failure: "ec \<noteq> Success \<Longrightarrow> udp_tunnel_step k t (client_does k (Datagram ec e d) t)"
| granted: "udp_tunnel_step k t (client_does k Write_granted t)"
| written: "ec = Success \<longrightarrow> write_taken t \<Longrightarrow> udp_tunnel_step k t (client_does k (Written ec) t)"
| user_datagram: "length d \<le> 65535 \<Longrightarrow>
    udp_tunnel_step k t
      (t\<lparr>ut_tables := fst (udp_listener_receive now listener endpoint ticket name d (ut_tables t)),
         user_sent := user_sent t @ [d]\<rparr>)"
| peer_closed: "udp_tunnel_step k t (t\<lparr>stream_open := False\<rparr>)"

definition udp_tunnel_init :: "'e \<Rightarrow> bool \<Rightarrow> server \<Rightarrow> 'e udp_tunnel" where
  "udp_tunnel_init endpoint counted sv =
     \<lparr>ut_client = UdpBridge_Start endpoint,
      ut_server = \<lparr>su_read = Want_header, su_sent = (if counted then Some 0 else None)\<rparr>,
      ut_tables = sv, to_server = [], to_client = [], stream_open = True, write_taken = False,
      arrived = [], service_got = [], user_sent = [], user_got = []\<rparr>"

inductive udp_tunnel_reach :: "udp_link \<Rightarrow> 'e \<Rightarrow> 'e udp_tunnel \<Rightarrow> bool" for k endpoint where
  udp_start: "udp_tunnel_reach k endpoint (udp_tunnel_init endpoint counted sv)"
| udp_next: "\<lbrakk>udp_tunnel_reach k endpoint t; udp_tunnel_step k t u\<rbrakk> \<Longrightarrow> udp_tunnel_reach k endpoint u"

lemmas udp_does_defs = server_does_def client_does_def server_udp_step_def

text \<open>What the actions of either bridge leave alone.\<close>

lemma fold_keeps: "(\<And>a t. a \<in> set acts \<Longrightarrow> f (g a t) = f t) \<Longrightarrow> f (fold g acts t) = f t"
  by (induction acts arbitrary: t) simp_all

lemma client_act_keeps [simp]:
  "ut_client (client_act a t) = ut_client t" "ut_server (client_act a t) = ut_server t"
  "arrived (client_act a t) = arrived t" "user_got (client_act a t) = user_got t" "to_client (client_act a t) = to_client t"
  by (cases a; simp)+

lemma client_acts_keep [simp]:
  "ut_client (fold client_act acts t) = ut_client t" "ut_server (fold client_act acts t) = ut_server t"
  "arrived (fold client_act acts t) = arrived t" "user_got (fold client_act acts t) = user_got t"
  "to_client (fold client_act acts t) = to_client t"
  by (rule fold_keeps, simp)+

lemma server_act_keeps [simp]:
  "ut_client (server_act a t) = ut_client t" "ut_server (server_act a t) = ut_server t"
  "arrived (server_act a t) = arrived t" "service_got (server_act a t) = service_got t"
  by (cases a; simp)+

lemma server_acts_keep [simp]:
  "ut_client (fold server_act acts t) = ut_client t" "ut_server (fold server_act acts t) = ut_server t"
  "arrived (fold server_act acts t) = arrived t" "service_got (fold server_act acts t) = service_got t"
  by (rule fold_keeps, simp)+

section \<open>What comes out at the user\<close>

text \<open>
  A datagram that has arrived at the client is with the user, in the hands of the server's bridge,
  on the stream, or in the hands of the client's bridge.
\<close>

abbreviation link_packet :: "udp_link \<Rightarrow> bytes \<Rightarrow> bytes" where
  "link_packet k \<equiv> udp_packet (ul_zstd k) (ul_compress k) (ul_level k)"

fun in_hand :: "read_phase \<Rightarrow> bytes list" where
  "in_hand (Send_waits d) = [d]"
| "in_hand _ = []"

fun on_stream :: "udp_link \<Rightarrow> read_phase \<Rightarrow> bytes \<Rightarrow> bytes list \<Rightarrow> bool" where
  "on_stream k (Want_body n c) pipe ds =
     (case ds of [] \<Rightarrow> False
      | d # ds' \<Rightarrow> \<exists>b. udp_pack (ul_zstd k) (ul_compress k) (ul_level k) d = (c, b) \<and> n = length b \<and>
          pipe = b @ concat (map (link_packet k) ds'))"
| "on_stream k Read_ended pipe ds = True"
| "on_stream k p pipe ds = (pipe = concat (map (link_packet k) ds))"

fun not_taken :: "udp_link \<Rightarrow> recv_phase \<Rightarrow> bool \<Rightarrow> bytes list \<Rightarrow> bool" where
  "not_taken k Receiving wt ds = (ds = [])"
| "not_taken k (Write_waits b) wt ds = (\<exists>d. ds = [d] \<and> b = link_packet k d)"
| "not_taken k Writing wt ds = (wt \<longrightarrow> ds = [])"
| "not_taken k Recv_ended wt ds = True"

definition udp_tunnel_inv :: "udp_link \<Rightarrow> 'e udp_tunnel \<Rightarrow> bool" where
  "udp_tunnel_inv k t \<longleftrightarrow>
     (\<exists>ds rs. map snd (arrived t) = user_got t @ in_hand (su_read (ut_server t)) @ ds @ rs \<and>
        on_stream k (su_read (ut_server t)) (to_server t) ds \<and>
        not_taken k (cu_recv (ut_client t)) (write_taken t) rs)"

lemma on_stream_extends:
  "on_stream k p pipe ds \<Longrightarrow> on_stream k p (pipe @ link_packet k d) (ds @ [d])"
  by (cases p) (auto split: list.splits)

lemma header_read:
  assumes "length (snd q) < 32768"
  shows "udp_on_header Success (take 2 (enc_udp q @ rest)) = ([U_read_exact (length (snd q))], Some (length (snd q), fst q))"
    and "drop 2 (enc_udp q @ rest) = snd q @ rest" and "2 \<le> length (enc_udp q)"
proof -
  have "unat (word_of_nat (length (snd q)) :: 16 word) = length (snd q)" using assms by (intro unat_word16) simp
  note hw = this udp_header_word [OF assms]
  show "udp_on_header Success (take 2 (enc_udp q @ rest)) = ([U_read_exact (length (snd q))], Some (length (snd q), fst q))"
    using hw assms by (auto simp: enc_udp_def udp_on_header_def udp_read_buf_size_def Let_def)
qed (simp_all add: enc_udp_def)

lemma udp_tunnel_invI:
  "\<lbrakk>map snd (arrived t) = user_got t @ in_hand (su_read (ut_server t)) @ ds @ rs;
    on_stream k (su_read (ut_server t)) (to_server t) ds;
    not_taken k (cu_recv (ut_client t)) (write_taken t) rs\<rbrakk> \<Longrightarrow> udp_tunnel_inv k t"
  unfolding udp_tunnel_inv_def by blast

lemma server_header:
  assumes z: "zstd_lossless (ul_zstd k)" and short: "list_all (\<lambda>d. length d < 32768) ds"
    and p: "pipe = concat (map (link_packet k) ds)" "2 \<le> length pipe"
  shows "\<exists>n c. udp_on_header Success (take 2 pipe) = ([U_read_exact n], Some (n, c)) \<and>
    on_stream k (Want_body n c) (drop 2 pipe) ds"
proof (cases ds)
  case Nil
  with p show ?thesis by simp
next
  case (Cons d ds')
  define q where "q = udp_pack (ul_zstd k) (ul_compress k) (ul_level k) d"
  have "length (snd q) < 32768" using udp_pack_ok(1) [OF z] short by (simp add: q_def Cons)
  note h = header_read(1,2) [OF this]
  have "pipe = enc_udp q @ concat (map (link_packet k) ds')" by (simp add: p Cons udp_packet_enc q_def)
  with h show ?thesis by (simp add: Cons q_def [symmetric] prod_eq_iff)
qed

text \<open>The server's bridge, by what it waits for.\<close>

lemmas server_simps = udp_does_defs server_udp_send_def server_udp_sent_def udp_on_body_def

lemma server_keeps_header:
  assumes z: "zstd_lossless (ul_zstd k)" and ds: "list_all (\<lambda>d. length d < 32768) ds"
    and t: "taken_by ev Want_header (to_server t) = Some rest" and p: "su_read (ut_server t) = Want_header"
    and i: "map snd (arrived t) = user_got t @ ds @ rs" "to_server t = concat (map (link_packet k) ds)"
      "not_taken k (cu_recv (ut_client t)) (write_taken t) rs"
  shows "udp_tunnel_inv k (server_does k ev (t\<lparr>to_server := rest\<rparr>))"
proof (cases "\<exists>bs. ev = Header Success bs")
  case True
  with t obtain "2 \<le> length (to_server t)" and eq: "ev = Header Success (take 2 (to_server t))" "rest = drop 2 (to_server t)"
    by (auto split: if_splits)
  from server_header [OF z ds i(2) this(1)] obtain n c where
    "udp_on_header Success (take 2 (to_server t)) = ([U_read_exact n], Some (n, c))" "on_stream k (Want_body n c) rest ds"
    unfolding eq by blast
  with i p show ?thesis
    unfolding eq(1) by (intro udp_tunnel_invI [where ds = ds and rs = rs]) (simp_all add: udp_does_defs)
next
  case False
  then show ?thesis
    using t i p by (cases ev)
      (auto intro!: udp_tunnel_invI [where ds = ds and rs = rs] simp: server_simps udp_on_header_def split: if_splits)
qed

lemma server_keeps_body:
  assumes z: "zstd_lossless (ul_zstd k)" and d: "length d < 32768"
    and t: "taken_by ev (Want_body n c) (to_server t) = Some rest" and p: "su_read (ut_server t) = Want_body n c"
    and b: "udp_pack (ul_zstd k) (ul_compress k) (ul_level k) d = (c, b)" "n = length b"
      "to_server t = b @ concat (map (link_packet k) ds)"
    and i: "map snd (arrived t) = user_got t @ (d # ds) @ rs" "not_taken k (cu_recv (ut_client t)) (write_taken t) rs"
  shows "udp_tunnel_inv k (server_does k ev (t\<lparr>to_server := rest\<rparr>))"
proof (cases "\<exists>bs. ev = Body Success bs")
  case True
  with t b have "ev = Body Success b" "rest = concat (map (link_packet k) ds)" by (auto split: if_splits)
  moreover have "unpack (ul_zstd k) 65535 (c, b) = Some d" using udp_pack_ok(2) [OF z d] b(1) by metis
  ultimately show ?thesis
    using i p by (intro udp_tunnel_invI [where ds = ds and rs = rs]) (simp_all add: server_simps)
next
  case False
  then show ?thesis
    using t i p b by (cases ev)
      (auto intro!: udp_tunnel_invI [where ds = "d # ds" and rs = rs] simp: server_simps split: if_splits)
qed

lemma server_keeps:
  assumes z: "zstd_lossless (ul_zstd k)" and short: "list_all (\<lambda>d. length d < 32768) (map snd (arrived t))"
    and t: "taken_by ev (su_read (ut_server t)) (to_server t) = Some rest" and inv: "udp_tunnel_inv k t"
  shows "udp_tunnel_inv k (server_does k ev (t\<lparr>to_server := rest\<rparr>))"
proof -
  from inv obtain ds rs where
    i: "map snd (arrived t) = user_got t @ in_hand (su_read (ut_server t)) @ ds @ rs"
      "on_stream k (su_read (ut_server t)) (to_server t) ds"
      "not_taken k (cu_recv (ut_client t)) (write_taken t) rs"
    unfolding udp_tunnel_inv_def by blast
  have ds: "list_all (\<lambda>d. length d < 32768) ds" using short i(1) by (simp del: list_all_length)
  show ?thesis
  proof (cases "su_read (ut_server t)")
    case Want_header
    with i show ?thesis by (intro server_keeps_header [OF z ds t [unfolded Want_header]]) simp_all
  next
    case (Want_body n c)
    then obtain d ds' b where "ds = d # ds'" "udp_pack (ul_zstd k) (ul_compress k) (ul_level k) d = (c, b)"
      "n = length b" "to_server t = b @ concat (map (link_packet k) ds')"
      using i(2) by (auto split: list.splits)
    with i ds Want_body show ?thesis
      by (intro server_keeps_body [OF z _ t [unfolded Want_body], where ds = ds' and rs = rs]) simp_all
  qed (use t i in \<open>cases ev;
      auto intro!: udp_tunnel_invI [where ds = ds and rs = rs] simp: server_simps split: if_splits\<close>)+
qed

text \<open>The reads of either bridge never write to the stream.\<close>

lemma read_step_acts: "U_write b \<notin> set (snd (read_step z l sent ev p))"
  if "\<And>ec. U_write b \<notin> set (sent ec)"
  using that
  by (cases "(z, l, sent, ev, p)" rule: read_step.cases)
    (auto simp: udp_on_header_def udp_on_body_def Let_def split: option.splits)

lemma client_reads_keep:
  assumes "\<And>b. U_write b \<notin> set acts"
  shows "to_server (fold client_act acts t) = to_server t" "write_taken (fold client_act acts t) = write_taken t"
proof -
  have k: "to_server (client_act a t) = to_server t" "write_taken (client_act a t) = write_taken t"
    if "a \<in> set acts" for a and t :: "'a udp_tunnel"
    using assms that by (cases a; fastforce)+
  show "to_server (fold client_act acts t) = to_server t" by (rule fold_keeps) (rule k)
  show "write_taken (fold client_act acts t) = write_taken t" by (rule fold_keeps) (rule k)
qed

lemma client_udp_sent_acts: "U_write b \<notin> set (client_udp_sent ec)" by (simp add: client_udp_sent_def)
lemma server_udp_sent_acts: "U_write b \<notin> set (server_udp_sent ec)" by (simp add: server_udp_sent_def)

lemma client_reads:
  assumes "u = client_does k (From_stream ev) t"
  shows "ut_server u = ut_server t \<and> to_server u = to_server t \<and> to_client u = to_client t \<and>
    arrived u = arrived t \<and> user_got u = user_got t \<and> write_taken u = write_taken t \<and>
    cu_recv (ut_client u) = cu_recv (ut_client t) \<and> cu_local (ut_client u) = cu_local (ut_client t)"
proof -
  let ?r = "read_step (ul_zstd k) (ul_client_limited k) client_udp_sent ev (cu_read (ut_client t))"
  have u: "u = fold client_act (snd ?r) (t\<lparr>ut_client := (ut_client t)\<lparr>cu_read := fst ?r\<rparr>\<rparr>)"
    by (simp add: assms client_does_def split_beta)
  have "\<And>b. U_write b \<notin> set (snd ?r)" by (rule read_step_acts [OF client_udp_sent_acts])
  from client_reads_keep [OF this, of "t\<lparr>ut_client := (ut_client t)\<lparr>cu_read := fst ?r\<rparr>\<rparr>"]
  show ?thesis unfolding u by simp
qed

lemma inv_when_client_reads:
  "udp_tunnel_inv k t \<Longrightarrow> udp_tunnel_inv k (client_does k (From_stream ev) (t\<lparr>to_client := rest\<rparr>))"
  using client_reads [OF refl, of k ev "t\<lparr>to_client := rest\<rparr>"] by (simp add: udp_tunnel_inv_def)

lemma on_local_cases:
  "udp_on_local z c l w Success d = (if w then [U_wait_write (length (udp_packet z c l d)) (udp_packet z c l d)]
     else [U_write (udp_packet z c l d)])"
  "ec \<noteq> Success \<Longrightarrow> udp_on_local z c l w ec d = [U_close]"
  by (simp_all add: udp_on_local_def Let_def)

lemma udp_tunnel_step_inv:
  assumes z: "zstd_lossless (ul_zstd k)"
  shows "\<lbrakk>udp_tunnel_step k t u; list_all (\<lambda>d. length d < 32768) (map snd (arrived t)); udp_tunnel_inv k t\<rbrakk>
    \<Longrightarrow> udp_tunnel_inv k u"
proof (induction rule: udp_tunnel_step.induct)
  case (at_server ev t rest)
  then show ?case by (intro server_keeps [OF z])
next
  case (at_client ev t rest)
  then show ?case by (intro inv_when_client_reads)
next
  case (local_datagram t d e)
  then obtain ds where i: "map snd (arrived t) = user_got t @ in_hand (su_read (ut_server t)) @ ds"
    "on_stream k (su_read (ut_server t)) (to_server t) ds" by (auto simp: udp_tunnel_inv_def)
  show ?case
  proof (cases "ul_client_limited k \<or> \<not> stream_open t")
    case True
    with i local_datagram show ?thesis
      by (intro udp_tunnel_invI [where ds = ds and rs = "[d]"]) (auto simp: client_does_def on_local_cases)
  next
    case False
    with i local_datagram on_stream_extends [OF i(2)] show ?thesis
      by (intro udp_tunnel_invI [where ds = "ds @ [d]" and rs = "[]"]) (simp_all add: client_does_def on_local_cases)
  qed
next
  case (granted t)
  show ?case
  proof (cases "cu_recv (ut_client t)")
    case (Write_waits b)
    with granted obtain ds d where i: "map snd (arrived t) = user_got t @ in_hand (su_read (ut_server t)) @ ds @ [d]"
      "on_stream k (su_read (ut_server t)) (to_server t) ds" "b = link_packet k d" by (auto simp: udp_tunnel_inv_def)
    show ?thesis
    proof (cases "stream_open t")
      case True
      with i Write_waits on_stream_extends [OF i(2)] show ?thesis
        by (intro udp_tunnel_invI [where ds = "ds @ [d]" and rs = "[]"]) (simp_all add: client_does_def)
    next
      case False
      with i Write_waits show ?thesis
        by (intro udp_tunnel_invI [where ds = ds and rs = "[d]"]) (simp_all add: client_does_def)
    qed
  qed (use granted in \<open>simp_all add: client_does_def udp_tunnel_inv_def\<close>)
qed (auto simp: udp_tunnel_inv_def client_does_def on_local_cases udp_written_def)

lemma server_does_arrived: "arrived (server_does k ev t) = arrived t"
  by (simp add: server_does_def split_beta)

lemma client_does_arrived: "arrived (client_does k ev t) = arrived t"
  by (simp add: client_does_def split_beta)

lemma udp_tunnel_arrived_grows: "udp_tunnel_step k t u \<Longrightarrow> prefix (arrived t) (arrived u)"
  by (induction rule: udp_tunnel_step.induct) (simp_all add: server_does_arrived client_does_arrived)

lemma udp_tunnel_reach_inv:
  assumes z: "zstd_lossless (ul_zstd k)"
  shows "\<lbrakk>udp_tunnel_reach k endpoint t; list_all (\<lambda>d. length d < 32768) (map snd (arrived t))\<rbrakk> \<Longrightarrow> udp_tunnel_inv k t"
proof (induction rule: udp_tunnel_reach.induct)
  case (udp_start counted sv)
  show ?case by (simp add: udp_tunnel_inv_def udp_tunnel_init_def UdpBridge_Start_def)
next
  case (udp_next t u)
  from udp_tunnel_arrived_grows [OF udp_next.hyps(2)] obtain es where "arrived u = arrived t @ es" by (rule prefixE)
  with udp_next.prems have short: "list_all (\<lambda>d. length d < 32768) (map snd (arrived t))"
    by (simp only: map_append list_all_append)
  show ?case by (rule udp_tunnel_step_inv [OF z udp_next.hyps(2) short udp_next.IH [OF short]])
qed

section \<open>Properties\<close>

text \<open>
  C33: The way back is a pipe of datagrams: as long as the local service sends datagrams shorter than
  32768 bytes, what the user has received is a prefix of what has arrived at the client's socket, unchanged and with
  its boundaries, whatever the interleaving, with and without compression and limiters; and it is
  all of it whenever both bridges wait for more and the stream is empty.
\<close>

theorem udp_tunnel_transparent:
  assumes "zstd_lossless (ul_zstd k)" and "udp_tunnel_reach k endpoint t"
    and "list_all (\<lambda>d. length d < 32768) (map snd (arrived t))"
  shows "prefix (user_got t) (map snd (arrived t)) \<and>
    (su_read (ut_server t) = Want_header \<and> to_server t = [] \<and> cu_recv (ut_client t) = Receiving
      \<longrightarrow> user_got t = map snd (arrived t))"
proof -
  from udp_tunnel_reach_inv [OF assms] obtain ds rs where
    i: "map snd (arrived t) = user_got t @ in_hand (su_read (ut_server t)) @ ds @ rs"
      "on_stream k (su_read (ut_server t)) (to_server t) ds"
      "not_taken k (cu_recv (ut_client t)) (write_taken t) rs"
    unfolding udp_tunnel_inv_def by blast
  have "ds = []" if "su_read (ut_server t) = Want_header" "to_server t = []"
  proof (cases ds)
    case (Cons d ds')
    with i(2) that have "link_packet k d = []" by simp
    then show ?thesis by (simp add: udp_packet_enc enc_udp_def split: if_splits)
  qed
  with i show ?thesis by auto
qed

text \<open>A session with compression in which the local service sends one datagram.\<close>

definition sample_link :: udp_link where
  "sample_link = \<lparr>ul_zstd = rle, ul_compress = True, ul_level = 1, ul_client_limited = False, ul_server_limited = False\<rparr>"

definition sample_new :: "nat udp_tunnel" where
  "sample_new = udp_tunnel_init 53 True (new_server ''t'' [] [])"

definition sample_start :: "nat udp_tunnel" where
  "sample_start =
     sample_new
       \<lparr>ut_tables := fst (udp_listener_receive 0 0 9 ''k'' ''dns'' [1, 2] (ut_tables sample_new)),
        user_sent := user_sent sample_new @ [[1, 2]]\<rparr>"

definition sample_sent :: "nat udp_tunnel" where
  "sample_sent = client_does sample_link (Datagram Success 53 [5, 6])
     (sample_start\<lparr>arrived := arrived sample_start @ [(53, [5, 6])]\<rparr>)"

definition sample_header :: "nat udp_tunnel" where
  "sample_header = server_does sample_link (Header Success [0, 2]) (sample_sent\<lparr>to_server := [5, 6]\<rparr>)"

definition sample_body :: "nat udp_tunnel" where
  "sample_body = server_does sample_link (Body Success [5, 6]) (sample_header\<lparr>to_server := []\<rparr>)"

definition sample_end :: "nat udp_tunnel" where
  "sample_end = client_does sample_link (Written Success)
     (server_does sample_link (Sent Success) (sample_body\<lparr>to_server := []\<rparr>))"

lemma sample_start_reachable: "udp_tunnel_reach sample_link 53 sample_start"
proof -
  have "udp_tunnel_step sample_link sample_new sample_start"
    unfolding sample_start_def by (rule user_datagram) simp
  then show ?thesis using udp_next udp_start unfolding sample_new_def by metis
qed

lemma sample_start_fields:
  "ut_client sample_start = UdpBridge_Start 53" "ut_server sample_start = \<lparr>su_read = Want_header, su_sent = Some 0\<rparr>"
  "to_server sample_start = []" "stream_open sample_start" "arrived sample_start = []" "user_got sample_start = []"
  "user_sent sample_start = [[1, 2]]"
  by (simp_all add: sample_start_def sample_new_def udp_tunnel_init_def)

lemma sample_fields [simp]:
  "ut_client sample_sent = \<lparr>cu_local = 53, cu_read = Want_header, cu_recv = Writing\<rparr>"
  "ut_server sample_sent = \<lparr>su_read = Want_header, su_sent = Some 0\<rparr>"
  "to_server sample_sent = [0, 2, 5, 6]" "write_taken sample_sent" "arrived sample_sent = [(53, [5, 6])]"
  "user_sent sample_sent = [[1, 2]]" "user_got sample_sent = []"
  by (simp_all add: sample_sent_def client_does_def sample_start_fields UdpBridge_Start_def sample_link_def
      on_local_cases udp_packet_def rle_def rle_compress_def be16_def)

lemma sample_end_fields [simp]:
  "su_read (ut_server sample_header) = Want_body 2 False" "to_server sample_header = [5, 6]"
  "su_read (ut_server sample_body) = Sending" "to_server sample_body = []"
  "su_read (ut_server sample_end) = Want_header" "cu_recv (ut_client sample_end) = Receiving"
  "to_server sample_end = []" "arrived sample_end = [(53, [5, 6])]" "user_sent sample_end = [[1, 2]]"
  by (simp_all add: sample_header_def sample_body_def sample_end_def udp_does_defs udp_on_header_def udp_on_body_def
      unpack_def udp_read_buf_size_def server_udp_sent_def server_udp_send_def udp_written_def sample_link_def)

lemma sample_reachable: "udp_tunnel_reach sample_link 53 sample_end"
proof -
  have "udp_tunnel_step sample_link sample_start sample_sent"
    unfolding sample_sent_def by (rule local_datagram) (simp_all add: sample_start_fields UdpBridge_Start_def)
  moreover have "udp_tunnel_step sample_link sample_sent sample_header"
    unfolding sample_header_def by (rule at_server) simp
  moreover have "udp_tunnel_step sample_link sample_header sample_body"
    unfolding sample_body_def by (rule at_server) simp
  moreover let ?t = "server_does sample_link (Sent Success) (sample_body\<lparr>to_server := []\<rparr>)"
  have "udp_tunnel_step sample_link sample_body ?t" by (rule at_server) simp
  moreover have "udp_tunnel_step sample_link ?t sample_end"
    unfolding sample_end_def by (rule written) (simp add: sample_body_def sample_header_def udp_does_defs
      server_udp_sent_def udp_on_header_def udp_on_body_def unpack_def udp_read_buf_size_def sample_link_def)
  ultimately show ?thesis using udp_next sample_start_reachable by metis
qed

theorem udp_tunnel_transparent_witness: "user_got sample_end = [[5, 6]]"
  using udp_tunnel_transparent [OF _ sample_reachable] rle_lossless by (simp add: sample_link_def)

text \<open>The counter of the bytes sent to users counts what the bridge has sent, modulo \<open>2 ^ 64\<close>.\<close>

definition sends :: "udp_action list \<Rightarrow> bytes list" where
  "sends acts = concat (map (\<lambda>a. case a of U_send d \<Rightarrow> [d] | _ \<Rightarrow> []) acts)"

lemma sends_simps [simp]:
  "sends [] = []" "sends (U_send d # acts) = d # sends acts"
  "(\<And>d. a \<noteq> U_send d) \<Longrightarrow> sends (a # acts) = sends acts"
  by (simp_all add: sends_def split: udp_action.splits)

lemma server_acts_send: "user_got (fold server_act acts t) = user_got t @ sends acts"
proof (induction acts arbitrary: t)
  case (Cons a acts)
  then show ?case by (cases a) simp_all
qed simp

lemma server_counts:
  "server_udp_send acts c = map_option (\<lambda>n. n + word_of_nat (sum_list (map length (sends acts)))) c"
proof (induction acts arbitrary: c)
  case Nil
  show ?case by (cases c) (simp_all add: server_udp_send_def)
next
  case (Cons a acts)
  have "server_udp_send (a # acts) c = server_udp_send acts (server_udp_send [a] c)" by (simp add: server_udp_send_def)
  with Cons show ?case by (cases a; cases c) (simp_all add: server_udp_send_def)
qed

definition counted_ok :: "'e udp_tunnel \<Rightarrow> bool" where
  "counted_ok t \<longleftrightarrow> list_all (\<lambda>n. n = word_of_nat (sum_list (map length (user_got t))))
     (case su_sent (ut_server t) of None \<Rightarrow> [] | Some n \<Rightarrow> [n])"

lemma client_does_at_server:
  "ut_server (client_does k ev t) = ut_server t" "user_got (client_does k ev t) = user_got t"
  by (simp_all add: client_does_def split_beta)

lemma udp_tunnel_counts: "udp_tunnel_reach k endpoint t \<Longrightarrow> counted_ok t"
proof (induction rule: udp_tunnel_reach.induct)
  case (udp_start counted sv)
  show ?case by (simp add: counted_ok_def udp_tunnel_init_def)
next
  case (udp_next t u)
  from udp_next.hyps(2) udp_next.IH show ?case
  proof cases
    case (at_server ev rest)
    with udp_next.IH show ?thesis
      by (auto simp: counted_ok_def udp_does_defs split_beta server_acts_send server_counts
          split: option.splits)
  qed (simp_all add: counted_ok_def client_does_at_server)
qed

text \<open>
  The other way there is nothing: the listener announces a datagram of a user and drops its contents, and
  the server's bridge only reads. Whatever users send, the local service never receives a datagram.
\<close>

definition way_to_service_idle :: "'e udp_tunnel \<Rightarrow> bool" where
  "way_to_service_idle t \<longleftrightarrow>
     to_client t = [] \<and> service_got t = [] \<and> cu_read (ut_client t) \<in> {Want_header, Read_ended}"

lemma server_does_at_client:
  "to_client (server_does k ev t) = to_client t" "service_got (server_does k ev t) = service_got t"
  "ut_client (server_does k ev t) = ut_client t"
proof -
  let ?r = "read_step (ul_zstd k) (ul_server_limited k) server_udp_sent ev (su_read (ut_server t))"
  have "\<And>b. U_write b \<notin> set (snd ?r)" by (rule read_step_acts [OF server_udp_sent_acts])
  then have "to_client (server_act a u) = to_client u" if "a \<in> set (snd ?r)" for a and u :: "'a udp_tunnel"
    using that by (cases a; fastforce)
  from fold_keeps [of "snd ?r" to_client server_act, OF this] show "to_client (server_does k ev t) = to_client t"
    by (simp add: udp_does_defs split_beta)
qed (simp_all add: udp_does_defs split_beta)

lemma idle_when_client_reads:
  assumes "taken_by ev (cu_read (ut_client t)) (to_client t) = Some rest" and "way_to_service_idle t"
  shows "way_to_service_idle (client_does k (From_stream ev) (t\<lparr>to_client := rest\<rparr>))"
  using assms by (cases ev) (auto simp: way_to_service_idle_def client_does_def udp_on_header_def split: if_splits)

lemma idle_when_client_writes:
  assumes "way_to_service_idle t" and "\<And>e. ev \<noteq> From_stream e"
  shows "way_to_service_idle (client_does k ev t)"
  using assms
  by (cases ev)
    (auto simp: way_to_service_idle_def client_does_def udp_on_local_def udp_written_def Let_def split: recv_phase.splits)

lemma way_to_service_idle:
  "udp_tunnel_reach k endpoint t \<Longrightarrow> way_to_service_idle t"
proof (induction rule: udp_tunnel_reach.induct)
  case (udp_start counted sv)
  show ?case by (simp add: way_to_service_idle_def udp_tunnel_init_def UdpBridge_Start_def)
next
  case (udp_next t u)
  from udp_next.hyps(2) udp_next.IH show ?case
  proof cases
    case (at_server ev rest)
    with udp_next.IH show ?thesis by (simp add: way_to_service_idle_def server_does_at_client)
  next
    case (at_client ev rest)
    with udp_next.IH show ?thesis by (simp only: idle_when_client_reads)
  qed (auto intro!: idle_when_client_writes simp: way_to_service_idle_def [of "_\<lparr>arrived := _\<rparr>"]
      way_to_service_idle_def [of "_\<lparr>ut_tables := _, user_sent := _\<rparr>"] way_to_service_idle_def [of "_\<lparr>stream_open := _\<rparr>"]
      dest: way_to_service_idle_def [THEN iffD1])
qed

theorem udp_users_unheard: "udp_tunnel_reach k endpoint t \<Longrightarrow> service_got t = []"
  using way_to_service_idle [of k endpoint t] by (simp add: way_to_service_idle_def)

theorem udp_users_unheard_witness: "user_sent sample_end = [[1, 2]] \<and> service_got sample_end = []"
  using udp_users_unheard [OF sample_reachable] by simp

text \<open>
  Each user session ends with its first work stream: the claim of the ticket removes the endpoint from
  the listener, so the next datagram of the same user is a new user, with a new ticket, a new
  stream and a new socket at the client.
\<close>

theorem udp_user_starts_over:
  assumes "claim_ticket ticket sv = (Claimed_udp u, sv')"
  shows "snd (udp_listener_receive now (ui_listener u) (ui_endpoint u) new_ticket name d sv') = Some new_ticket"
  using assms
  by (auto simp: claim_ticket_def udp_listener_receive_def RemoveEndpoint_def delete_conv' split: option.splits)

lemma client_does_local:
  "cu_local (ut_client (client_does k ev t)) =
     (case ev of
        Datagram ec e d \<Rightarrow> if ec = Success \<and> cu_recv (ut_client t) = Receiving then e else cu_local (ut_client t)
      | _ \<Rightarrow> cu_local (ut_client t))"
  by (cases ev) (simp_all add: client_does_def split_beta Let_def split: recv_phase.splits)

text \<open>
  The client sends to whoever has sent last: the receive operation overwrites \<open>local_endpoint_\<close>, and
  the socket takes datagrams from any host.
\<close>

theorem udp_replies_to_last_sender:
  "udp_tunnel_reach k endpoint t \<Longrightarrow>
    cu_local (ut_client t) = last (endpoint # map fst (arrived t))"
proof (induction rule: udp_tunnel_reach.induct)
  case (udp_start counted sv)
  show ?case by (simp add: udp_tunnel_init_def UdpBridge_Start_def)
next
  case (udp_next t u)
  from udp_next.hyps(2) udp_next.IH show ?case
    by cases (simp_all add: server_does_at_client server_does_arrived client_does_arrived client_does_local)
qed

theorem udp_replies_to_last_sender_witness: "cu_local (ut_client sample_end) = 53"
  using udp_replies_to_last_sender [OF sample_reachable] by simp

text \<open>
  When a datagram cannot be sent to the local service the client's bridge stops reading from the
  stream, which it leaves open: nothing that arrives later is sent, and nobody is told.
\<close>

theorem client_udp_send_error_silences:
  assumes "cu_read s = Sending" and "ec \<noteq> Success" and "client_udp_step k (From_stream (Sent ec)) s = (s', acts)"
  shows "acts = [] \<and> client_udp_step k (From_stream ev) s' = (s', [])"
proof -
  have s': "s' = s\<lparr>cu_read := Read_ended\<rparr>" "acts = []" using assms by (simp_all add: client_udp_sent_def)
  then show ?thesis by (cases ev) simp_all
qed

theorem client_udp_send_error_silences_witness:
  "snd (client_udp_step sample_link (From_stream (Sent Connection_refused))
     ((UdpBridge_Start (53 :: nat))\<lparr>cu_read := Sending\<rparr>)) = []"
  using client_udp_send_error_silences [of "(UdpBridge_Start (53 :: nat))\<lparr>cu_read := Sending\<rparr>" Connection_refused sample_link]
  by (auto simp: prod_eq_iff)

end
