(* ===== verification/Udp_Users.thy ===== *)
theory Udp_Users
  imports Server_State
begin

text \<open>
  The users of a UDP proxy over time (\<open>src/server/server.cpp\<close>): the endpoint of a user is entered in
  \<open>endpoint_to_ticket_\<close> of the listener by the first datagram, and taken out when its pending session
  is claimed or expires. A session that never became pending, or was cleared, leaves the entry behind.
\<close>

section \<open>Operations on the tables\<close>

datatype table_event =
    Udp_datagram nat nat nat string string bytes
  | User_accepted nat string nat string bytes
  | Ticket_claimed string
  | Proxy_cleared string
  | Cleaned_up nat

fun table_step :: "table_event \<Rightarrow> server \<Rightarrow> server" where
  "table_step (Udp_datagram now listener endpoint ticket name d) s =
     fst (udp_listener_receive now listener endpoint ticket name d s)"
| "table_step (User_accepted now ticket socket name initial) s = RegisterUserConn now ticket socket name initial s"
| "table_step (Ticket_claimed ticket) s = snd (claim_ticket ticket s)"
| "table_step (Proxy_cleared name) s = ClearPendingForProxy name s"
| "table_step (Cleaned_up now) s = DoLazyCleanup now s"

definition table_run :: "table_event list \<Rightarrow> server \<Rightarrow> server" where
  "table_run es s = fold table_step es s"

section \<open>Users whose session is gone\<close>

text \<open>The listener knows the user, but no pending session is the user's.\<close>

definition user_ref :: "udp_session_info \<Rightarrow> nat \<times> nat" where
  "user_ref u = (ui_listener u, ui_endpoint u)"

definition stuck_user :: "nat \<times> nat \<Rightarrow> server \<Rightarrow> bool" where
  "stuck_user le s \<longleftrightarrow>
     map_of (endpoint_to_ticket s) le \<noteq> None \<and> le \<notin> user_ref ` snd ` set (pending_udp_sessions s)"

lemma stuck_by_subset:
  "\<lbrakk>stuck_user le s; map_of (endpoint_to_ticket t) le = map_of (endpoint_to_ticket s) le;
    set (pending_udp_sessions t) \<subseteq> set (pending_udp_sessions s)\<rbrakk> \<Longrightarrow> stuck_user le t"
  unfolding stuck_user_def by auto

lemma user_of_pending:
  "\<lbrakk>stuck_user le s; map_of (pending_udp_sessions s) t = Some u\<rbrakk> \<Longrightarrow> (ui_listener u, ui_endpoint u) \<noteq> le"
  by (force simp: stuck_user_def user_ref_def dest: map_of_SomeD)

lemma stuck_expire: "stuck_user le s \<Longrightarrow> stuck_user le (expire_ticket e s)"
  using delete_subset [of "te_ticket e" "pending_udp_sessions s"]
  by (auto simp: expire_ticket_def RemoveEndpoint_def delete_conv' dest: user_of_pending
      intro!: stuck_by_subset [of le s] split: option.splits)

lemma stuck_cleanup: "stuck_user le s \<Longrightarrow> stuck_user le (DoLazyCleanup now s)"
proof (induction now s rule: DoLazyCleanup.induct)
  case (1 now s)
  show ?case
  proof (cases "ticket_expiration_queue s")
    case Nil
    then show ?thesis using 1(2) by (subst DoLazyCleanup.simps) simp
  next
    case (Cons e q)
    show ?thesis
    proof (cases "te_expires_at e \<le> now")
      case True
      have "stuck_user le ((expire_ticket e s)\<lparr>ticket_expiration_queue := q\<rparr>)"
        using stuck_expire [OF 1(2), of e] by (simp add: stuck_user_def)
      from 1(1) [OF Cons True this] Cons True show ?thesis by (subst DoLazyCleanup.simps) simp
    next
      case False
      then show ?thesis using 1(2) Cons by (subst DoLazyCleanup.simps) simp
    qed
  qed
qed

lemma stuck_emplace:
  "\<lbrakk>stuck_user le s; user_ref u \<noteq> le; pending_udp_sessions t = emplace k u (pending_udp_sessions s);
    endpoint_to_ticket t = endpoint_to_ticket s\<rbrakk> \<Longrightarrow> stuck_user le t"
  by (auto simp: stuck_user_def emplace_def)

lemma stuck_step: "stuck_user le s \<Longrightarrow> stuck_user le (table_step ev s)"
proof (cases ev)
  case (Udp_datagram now l e t name d)
  assume s: "stuck_user le s"
  let ?s = "s\<lparr>endpoint_to_ticket := AList.update (l, e) t (endpoint_to_ticket s)\<rparr>"
  show ?thesis
  proof (cases "map_of (endpoint_to_ticket s) (l, e)")
    case None
    with s have ne: "(l, e) \<noteq> le" by (auto simp: stuck_user_def)
    with s have "stuck_user le ?s" by (auto simp: stuck_user_def update_conv')
    from stuck_cleanup [OF this, of now] have c: "stuck_user le (DoLazyCleanup now ?s)" .
    have "stuck_user le (RegisterUdpSession now t l e name ?s)"
    proof (cases "MAX_PENDING_TICKETS \<le> pending_count (DoLazyCleanup now ?s)")
      case True
      with c show ?thesis by (simp add: RegisterUdpSession_def)
    next
      case False
      with ne show ?thesis
        by (intro stuck_emplace [OF c]) (simp_all add: RegisterUdpSession_def user_ref_def Let_def)
    qed
    with None show ?thesis by (simp add: Udp_datagram udp_listener_receive_def)
  next
    case (Some t')
    with s show ?thesis by (simp add: Udp_datagram udp_listener_receive_def)
  qed
next
  case (User_accepted now t k name i)
  assume "stuck_user le s"
  from stuck_cleanup [OF this, of now] show ?thesis
    by (auto simp: User_accepted RegisterUserConn_def Let_def stuck_user_def)
next
  case (Ticket_claimed t)
  assume s: "stuck_user le s"
  with delete_subset [of t "pending_udp_sessions s"] show ?thesis
    by (auto simp: Ticket_claimed claim_ticket_def RemoveEndpoint_def delete_conv' dest: user_of_pending
        intro!: stuck_by_subset [OF s] split: option.splits)
next
  case (Proxy_cleared name)
  then show "stuck_user le s \<Longrightarrow> ?thesis" by (auto simp: ClearPendingForProxy_def intro: stuck_by_subset)
next
  case (Cleaned_up now)
  then show "stuck_user le s \<Longrightarrow> ?thesis" by (simp add: stuck_cleanup)
qed

lemma stuck_run: "stuck_user le s \<Longrightarrow> stuck_user le (table_run es s)"
  by (induction es arbitrary: s) (simp_all add: table_run_def stuck_step)

section \<open>Rejected and cleared users\<close>

text \<open>The clean-up treats the tickets alike whatever the listeners know.\<close>

lemma expire_ticket_endpoints:
  "\<exists>m'. expire_ticket e (s\<lparr>endpoint_to_ticket := m\<rparr>) = (expire_ticket e s)\<lparr>endpoint_to_ticket := m'\<rparr>"
proof -
  have "expire_ticket e (s\<lparr>endpoint_to_ticket := m\<rparr>) =
      (expire_ticket e s)\<lparr>endpoint_to_ticket := endpoint_to_ticket (expire_ticket e (s\<lparr>endpoint_to_ticket := m\<rparr>))\<rparr>"
    by (auto simp: expire_ticket_def RemoveEndpoint_def split: option.splits)
  then show ?thesis by blast
qed

lemma cleanup_endpoints:
  "\<exists>m'. DoLazyCleanup now (s\<lparr>endpoint_to_ticket := m\<rparr>) = (DoLazyCleanup now s)\<lparr>endpoint_to_ticket := m'\<rparr>"
proof (induction now s arbitrary: m rule: DoLazyCleanup.induct)
  case (1 now s)
  show ?case
  proof (cases "\<exists>e q. ticket_expiration_queue s = e # q \<and> te_expires_at e \<le> now")
    case True
    then obtain e q where e: "ticket_expiration_queue s = e # q" "te_expires_at e \<le> now" by blast
    let ?t = "(expire_ticket e s)\<lparr>ticket_expiration_queue := q\<rparr>"
    obtain m1 where m1: "expire_ticket e (s\<lparr>endpoint_to_ticket := m\<rparr>) = (expire_ticket e s)\<lparr>endpoint_to_ticket := m1\<rparr>"
      using expire_ticket_endpoints by blast
    have "DoLazyCleanup now (s\<lparr>endpoint_to_ticket := m\<rparr>) =
        DoLazyCleanup now ((expire_ticket e s)\<lparr>endpoint_to_ticket := m1, ticket_expiration_queue := q\<rparr>)"
      using e m1 DoLazyCleanup.simps [of now "s\<lparr>endpoint_to_ticket := m\<rparr>"] by simp
    also have "(expire_ticket e s)\<lparr>endpoint_to_ticket := m1, ticket_expiration_queue := q\<rparr> = ?t\<lparr>endpoint_to_ticket := m1\<rparr>"
      by simp
    finally have "DoLazyCleanup now (s\<lparr>endpoint_to_ticket := m\<rparr>) = DoLazyCleanup now (?t\<lparr>endpoint_to_ticket := m1\<rparr>)" .
    moreover have "DoLazyCleanup now s = DoLazyCleanup now ?t" using e by (subst DoLazyCleanup.simps) simp
    ultimately show ?thesis using 1 [OF e, of m1] by simp
  next
    case False
    then have "DoLazyCleanup now (s\<lparr>endpoint_to_ticket := m'\<rparr>) = s\<lparr>endpoint_to_ticket := m'\<rparr>" for m'
      by (subst DoLazyCleanup.simps) (auto split: list.splits)
    from this [of m] this [of "endpoint_to_ticket s"] show ?thesis by auto
  qed
qed

text \<open>
  A user whose first datagram arrives while 512 tickets are pending is announced to the client
  although the session is rejected, and then never again: whatever else happens to the tables, no later datagram of this
  user is announced.
\<close>

theorem rejected_udp_user_unheard:
  assumes "map_of (endpoint_to_ticket s) (l, e) = None"
    and "(l, e) \<notin> user_ref ` snd ` set (pending_udp_sessions s)"
    and "MAX_PENDING_TICKETS \<le> pending_count (DoLazyCleanup now s)"
    and "udp_listener_receive now l e ticket name d s = (s', announced)"
  shows "announced = Some ticket \<and>
    snd (udp_listener_receive now' l e ticket' name d' (table_run es s')) = None"
proof -
  let ?s = "s\<lparr>endpoint_to_ticket := AList.update (l, e) ticket (endpoint_to_ticket s)\<rparr>"
  obtain m where m: "DoLazyCleanup now ?s = (DoLazyCleanup now s)\<lparr>endpoint_to_ticket := m\<rparr>"
    using cleanup_endpoints by blast
  have "pending_count (DoLazyCleanup now ?s) = pending_count (DoLazyCleanup now s)" by (simp add: m pending_count_def)
  with assms(3) have "RegisterUdpSession now ticket l e name ?s = DoLazyCleanup now ?s"
    by (simp add: RegisterUdpSession_def)
  with assms(1,4) have s': "s' = DoLazyCleanup now ?s" and a: "announced = Some ticket"
    by (auto simp: udp_listener_receive_def)
  have "stuck_user (l, e) ?s" using assms(2) by (simp add: stuck_user_def update_conv')
  from stuck_run [OF stuck_cleanup [OF this, of now], of es]
  obtain t where "map_of (endpoint_to_ticket (table_run es s')) (l, e) = Some t" by (auto simp: stuck_user_def s')
  then show ?thesis by (simp add: a udp_listener_receive_def)
qed

text \<open>
  The same happens when the pending sessions of a proxy are cleared: \<open>ClearPendingForProxy\<close> forgets the
  tickets but not the endpoints. A listener of the same name that remains, such as one of a second proxy, or
  of another client, never announces its waiting users again.
\<close>

theorem cleared_udp_user_unheard:
  assumes "map_of (endpoint_to_ticket s) (l, e) \<noteq> None"
    and "\<forall>(t, u) \<in> set (pending_udp_sessions s). user_ref u = (l, e) \<longrightarrow> ui_proxy_name u = name"
  shows "snd (udp_listener_receive now l e ticket name' d (table_run es (ClearPendingForProxy name s))) = None"
proof -
  have "stuck_user (l, e) (ClearPendingForProxy name s)"
    using assms by (fastforce simp: stuck_user_def ClearPendingForProxy_def)
  from stuck_run [OF this, of es] show ?thesis
    by (auto simp: stuck_user_def udp_listener_receive_def)
qed

theorem cleared_udp_user_unheard_witness:
  "snd (udp_listener_receive 5 0 9 ''b'' ''dns'' [2] (table_run [Cleaned_up (20 * 10 ^ 9)]
     (ClearPendingForProxy ''dns'' (fst (udp_listener_receive 0 0 9 ''a'' ''dns'' [1] (new_server ''t'' [] [])))))) = None"
proof (rule cleared_udp_user_unheard)
  let ?s = "fst (udp_listener_receive 0 0 9 ''a'' ''dns'' [1] (new_server ''t'' [] []))"
  have s: "endpoint_to_ticket ?s = [((0, 9), ''a'')]"
    "pending_udp_sessions ?s = [(''a'', \<lparr>ui_listener = 0, ui_endpoint = 9, ui_proxy_name = ''dns'', ui_created_at = 0\<rparr>)]"
    by (simp_all add: udp_listener_receive_def new_server_def RegisterUdpSession_def DoLazyCleanup.simps pending_count_def
        MAX_PENDING_TICKETS_def emplace_def)
  then show "map_of (endpoint_to_ticket ?s) (0, 9) \<noteq> None"
    and "\<forall>(t, u) \<in> set (pending_udp_sessions ?s). user_ref u = (0, 9) \<longrightarrow> ui_proxy_name u = ''dns''"
    by simp_all
qed

end
