(* ===== verification/Spec2Isabelle.thy ===== *)
theory Spec2Isabelle
  imports Mux_Flow Mux_Session Streams Rate_Limiter Buffer_Pool Websocket Bridge Udp_Bridge
    Control_Channel Server_State Control_Session Vhost Tickets Work_Conn Client Quic_Stream
    Quic_Session Acceptor Config Mgmt End_To_End Transport Certificates Tunnel
    Settings Lifecycle Program Mux_Demux Quic_Server Accept_Loops Layers
    Locking Ownership Counters Sockets Host Udp_Tunnel Udp_Users
begin

text \<open>
  cfrp is a reverse proxy. A server (\<open>src/server\<close>) has a public address; clients (\<open>src/client\<close>)
  connect to it over TCP, TLS, QUIC or WebSocket, log in and register proxies. For each proxy the
  server opens a listener; a user who connects to it is announced to the client under a ticket, the
  client opens a stream of the multiplexer, writes the ticket, connects to the local service, and
  both sides bridge. This library models that program in HOL and proves what makes it correct.

  How code became definitions.
  A handler that runs on a strand or under a mutex is an atomic function from the state to the new
  state and the list of its effects, in the order of the code: posted completions, frames, messages,
  timers, calls of other components. A run is a sequence of such steps in any order
  (\<open>inductive\<close> reachability, or a function over a list of events), so that interleavings of reads,
  writes, timers and failures are quantified over. Exceptions and early returns are values; undefined
  behaviour (a copy outside a block, a signed overflow) is a value of its own, \<open>None\<close> or a
  constructor. A \<open>size_t\<close> difference without a guard wraps (\<open>sub64\<close>); integers that reach the wire are
  words of their width. Loops are total functions with termination proofs, so that no theorem holds
  only because a loop does not end.

  The theories, from the wire to the program.
  \<^item> \<open>Prelude\<close>, \<open>Interfaces\<close>: bytes, network byte order, error codes, searching in strings; the
    contracts as locales: \<open>framing\<close> (frames written one after the other can be cut apart),
    \<open>codec\<close> (message bodies), \<open>byte_source\<close> (reads deliver the unread bytes in order), \<open>exact_reader\<close> (a read for
    n bytes returns the next n, or waits), \<open>stoppable\<close>
    (a stop happens once). Each is interpreted in the theories of the components that provide it.
  \<^item> \<open>Protocol\<close> (\<open>common/protocol.h\<close>): \<open>BinaryWriter\<close>, \<open>BinaryReader\<close> and the message bodies;
    round trips, rejection of truncated bodies, wrapping lengths.
  \<^item> \<open>Mux_Frame\<close>, \<open>Mux_Stream\<close>, \<open>Mux_Flow\<close>, \<open>Mux_Session\<close>, \<open>Mux_Demux\<close> (\<open>common/mux.h\<close>, \<open>mux.cpp\<close>): the frame
    header and the copy loop; one stream with its window and queues (invariant, memory safety, write
    order, scatter-gather, closing); two streams joined by frames in flight (order, conservation
    of credit, no deadlock); the session with its table of streams, dispatch, write queue, heartbeat; the isolation of
    its streams in any run.
  \<^item> \<open>Streams\<close> (\<open>common/stream.h\<close>), \<open>Rate_Limiter\<close>, \<open>Buffer_Pool\<close>, \<open>Websocket\<close> (\<open>websocket_stream.cpp\<close>,
    \<open>websocket_utils.h\<close>), \<open>Bridge\<close> (\<open>async_bridge.cpp\<close>), \<open>Udp_Bridge\<close> (the bridges of \<open>server.cpp\<close> and
    \<open>client.cpp\<close>): the components a connection passes through; transparency, bounds, no aliasing.
  \<^item> \<open>Quic_Stream\<close>, \<open>Quic_Session\<close>, \<open>Quic_Server\<close> (\<open>common/quic_ngtcp2.cpp\<close>, \<open>server.cpp\<close>): the stream and
    the session around an ngtcp2 connection; order of reads and writes, what a full socket buffer
    does, closing; what is passed to ngtcp2, and the sessions of the server over time.
  \<^item> \<open>Layers\<close>: what passes through a stack of streams, closing, handshakes, names; the buffers of the coder.
  \<^item> \<open>Transport\<close>: the read loop of a mux session on top of any exact reader, with the plain stream,
    the WebSocket stream and the QUIC stream as instances. Its fuel counts frames; one more than the
    number of unread bytes is enough.
  \<^item> \<open>Control_Channel\<close>, \<open>Server_State\<close>, \<open>Control_Session\<close>, \<open>Vhost\<close>, \<open>Tickets\<close>, \<open>Work_Conn\<close>, \<open>Acceptor\<close>,
    \<open>Accept_Loops\<close> (\<open>server/server.h\<close>, \<open>server.cpp\<close>): control messages; the tables of the server; login, registration
    and stop of a session; HTTP and TLS host detection; tickets and splicing; accepting connections
    with detection of TLS and WebSocket, and the table of QUIC sessions; the accept loops with
    their retry timers, as instances of two locales.
  \<^item> \<open>Client\<close> (\<open>client/client.cpp\<close>): connecting, falling back between protocols, retrying, registering,
    polling \<open>conf.d\<close>, serving user connections.
  \<^item> \<open>Config\<close>, \<open>Settings\<close>, \<open>Lifecycle\<close>, \<open>Program\<close> (\<open>main.cpp\<close>, \<open>common/utils.h\<close>, the constructors of server and client):
    the parsers; the tables and what is made of them; the commands, the PID file, signals, the
    generated files and the worker loops, with the background processes of a machine over time;
    \<open>main\<close> as a whole, from the command line to a running server or client.
  \<^item> \<open>Certificates\<close> (\<open>common/ssl_utils.cpp\<close>): the chain of certificates, as the log of the library calls
    made; a weakest-precondition calculus for the state monad shows their order and that every object is
    released on every path.
  \<^item> \<open>Mgmt\<close> (\<open>server/mgmt\<close>): the management API.
  \<^item> \<open>End_To_End\<close>: client and server together, from the login to the listeners. \<open>Tunnel\<close>: two bridges and
    the work stream between them, from socket to socket. \<open>Udp_Tunnel\<close>: the same for UDP, with the listener;
    datagrams of the local service reach the user, those of users do not reach the service. \<open>Udp_Users\<close>: users
    whose session is rejected or cleared.
  \<^item> \<open>Sockets\<close> (\<open>common/stream.h\<close>): reading and writing through any stack of buffers on a TCP or TLS
    connection; asio's contract is a hypothesis, which a connection that hands out segments satisfies.
  \<^item> \<open>Concurrency\<close>, \<open>Handlers\<close>, \<open>Locking\<close>: what the other theories assume when they take a handler for
    atomic. \<open>Concurrency\<close> is a language of threads that lock mutexes and touch members, with two
    contracts: \<open>ordered_locks\<close> (locks taken in the order of a rank exclude deadlocks) and \<open>guarded_data\<close>
    (a member that is only touched under its mutex has no data race). \<open>Handlers\<close> writes the locking of the
    functions of the program in it, a strand being a mutex that a thread holds while it runs a handler;
    \<open>Locking\<close> collects the handlers and interprets both contracts on them.
  \<^item> \<open>Ownership\<close>: the life of TCP and UDP proxy listeners, which several parties own by shared pointers and
    bridges use by plain ones. \<open>Counters\<close>: the count of active connections under concurrent decrements.
  \<^item> \<open>Host\<close> (\<open>common/utils.h\<close>, \<open>hash_utils.h\<close>, \<open>zstd_utils.h\<close>): time stamps, paths, socket options on each platform,
    hash tables keyed by endpoints, contexts of the coder, random bytes for ngtcp2.

  How the parts interact. The bridges, the control channel and the ticket exchange run over
  \<open>mux_stream\<close>s, which the mux session moves over a TCP, TLS, WebSocket or QUIC stream;
  \<open>Mux_Flow\<close>, \<open>Mux_Session\<close>, \<open>Websocket\<close> and \<open>Quic_Stream\<close> show of each layer that it delivers bytes in order, which
  is what the layer above takes from it; \<open>Transport\<close> puts the session on the transports. \<open>Control_Session\<close> and \<open>Work_Conn\<close> call the operations of
  \<open>Server_State\<close>; \<open>Acceptor\<close> decides what a connection becomes; \<open>End_To_End\<close> runs the messages of
  \<open>Client\<close> through \<open>Control_Session\<close>.

  Parameters. Third-party code is an argument: the zstd codec (a pair of functions; lossless where a
  theorem says so), SHA-1 and Base64, ngtcp2 and the UDP socket (a record of functions), the TOML
  library (a record of accessors), the operating system's answers (accepted sockets, bound ports,
  clocks, error codes of completions, \<open>kill\<close>, files), the answers of wolfSSL to the calls that generate
  certificates. Hypotheses on them state documented behaviour, and the
  witnesses instantiate them. Theorems with hypotheses are followed by a witness, an application to
  concrete values.

  Bounds. Where the code bounds a loop or a queue the bound is in the definition: 1024 pending reads
  and writes of a stream, 1024 frames of a session, 512 pending tickets, 16 data packets and 32 packets
  of a QUIC turn, frames and bodies of at most \<open>MAX_MESSAGE_SIZE\<close>. No other fuel is used: every other loop
  ends by a measure.

  What the proofs found is stated as theorems of its own beside the positive ones: reads after a
  local close (\<open>read_after_close_out_of_bounds\<close>), streams that are never removed
  (\<open>closed_stream_with_data_leaks\<close>), writes that are never completed (\<open>failed_write_strands_queue\<close>,
  \<open>quic_close_strands_writes\<close>), data sent twice (\<open>quic_would_block_duplicates\<close>), requests that are never
  granted (\<open>oversized_request_starves\<close>), datagrams that are misread (\<open>udp_large_datagram_misread\<close>), names,
  routes and proxies that are lost or kept too long (\<open>second_stop_releases_foreign_name\<close>,
  \<open>unregister_undoes_listeners_only\<close>, \<open>reconnect_forgets_dynamic_proxies\<close>, \<open>renamed_client_locked_out\<close>),
  datagrams that go nowhere or to the wrong host (\<open>udp_users_unheard\<close>, \<open>udp_user_starts_over\<close>,
  \<open>udp_replies_to_last_sender\<close>), and policies that are weaker than they read (\<open>work_stream_needs_no_login\<close>, \<open>unparsed_policy_allows_all\<close>).

  Sharing between threads: handlers that are not protected from each other
  (\<open>proxies_race\<close>, \<open>tickets_race\<close>, \<open>rate_race\<close>, \<open>quic_closed_race\<close>), a counter that wraps
  (\<open>active_conns_wraps\<close>), bridges that outlive their listener (\<open>unregistered_listener_dangles\<close>,
  \<open>unregistered_udp_listener_dangles\<close>).

  Not modelled. TLS, QUIC packets and HTTP beyond the first request are the libraries'. The Windows
  branches of \<open>main.cpp\<close> (\<open>CreateProcess\<close> in place of \<open>fork\<close>) are left out, those of \<open>utils.h\<close> are in \<open>Host\<close>; the
  terminal, \<open>IsIpAddress\<close> (which nothing calls) and the scripts are left out too. Shared and weak
  pointers are modelled where the code tests them, as a field of the state or an argument, and for the
  proxy listeners in \<open>Ownership\<close>; other objects are kept alive by the handlers that hold them. In
  \<open>Locking\<close> a member is a whole container or object, accesses to atomics are not accesses, memory is
  sequentially consistent, and locks inside the libraries are not seen: the race freedom it shows
  is that of the program's own members under its own mutexes and strands. The other theories take a
  handler for one step; where \<open>Locking\<close> shows a race, their theorems hold of the runs in which it does not occur.
\<close>

end
